(* ===== verification/Util_Prelude.thy ===== *)
theory Util_Prelude
  imports Main "HOL-Library.Word" "HOL-Library.Monad_Syntax"
begin

text \<open>
  Shared vocabulary of the development: the machine types of the sources, the collections of
  rewrite rules the component theories extend, and the generic lemmas on words, lists and options
  that several components use.

  A C or C++ function that may abort (a failing \<^verbatim>\<open>assert\<close>, an access outside an array, the
  dereference of a null pointer) is modelled as a function into \<^typ>\<open>'a option\<close>, where
  \<^const>\<open>None\<close> is the abort; \<^verbatim>\<open>size_t\<close> values that index real memory are
  naturals and values whose wrap-around the code relies on are words.
\<close>

unbundle bit_operations_syntax

section \<open>Machine types\<close>

type_synonym u8 = "8 word"
type_synonym u16 = "16 word"
type_synonym u32 = "32 word"
type_synonym u64 = "64 word"
type_synonym bytes = "u8 list"

text \<open>The conversion of an \<^verbatim>\<open>unsigned\<close> to an \<^verbatim>\<open>int\<close>, two's complement.\<close>

definition int_of_u32 :: "u32 \<Rightarrow> int" where
  "int_of_u32 w = (if unat w < 2 ^ 31 then int (unat w) else int (unat w) - 2 ^ 32)"

section \<open>Collections of rewrite rules\<close>

named_theorems byte_simps \<open>word identities of the byte-level encoders and decoders\<close>
named_theorems mem_simps \<open>reads and writes of the checked array accessors\<close>

section \<open>Asserts and checked array accesses\<close>

text \<open>\<open>assert b\<close> is the C macro: it aborts unless the condition holds.\<close>

definition assert :: "bool \<Rightarrow> unit option" where
  "assert b = (if b then Some () else None)"

definition rd :: "'a list \<Rightarrow> nat \<Rightarrow> 'a option" where
  "rd xs i = (if i < length xs then Some (xs ! i) else None)"

definition wr :: "'a list \<Rightarrow> nat \<Rightarrow> 'a \<Rightarrow> 'a list option" where
  "wr xs i v = (if i < length xs then Some (xs[i := v]) else None)"

lemma assert_simps [simp]: "assert True = Some ()" "assert False = None"
  by (simp_all add: assert_def)

lemma assert_Some_iff [simp]: "assert b = Some u \<longleftrightarrow> b"
  by (simp add: assert_def)

lemma assert_bind_Some_iff [simp]: "(assert b \<bind> (\<lambda>_. m)) = Some x \<longleftrightarrow> b \<and> m = Some x"
  by (simp add: assert_def)

lemma rd_Some_iff [mem_simps]: "rd xs i = Some v \<longleftrightarrow> i < length xs \<and> v = xs ! i"
  by (auto simp: rd_def)

lemma wr_Some_iff [mem_simps]: "wr xs i v = Some ys \<longleftrightarrow> i < length xs \<and> ys = xs[i := v]"
  by (auto simp: wr_def)

lemma rd_in_range [simp]: "i < length xs \<Longrightarrow> rd xs i = Some (xs ! i)"
  by (simp add: rd_def)

lemma wr_in_range [simp]: "i < length xs \<Longrightarrow> wr xs i v = Some (xs[i := v])"
  by (simp add: wr_def)

section \<open>Words\<close>

lemma unat_less_two_power [simp]: "unat (w :: 'a::len word) < 2 ^ LENGTH('a)"
  by (rule unsigned_less)

lemma unat_ucast_u32_u64 [simp]: "unat (ucast (v :: u32) :: u64) = unat v"
proof -
  have "unat v < 2 ^ 64" using unat_less_two_power [of v] by simp
  then show ?thesis by (simp add: unsigned_ucast_eq take_bit_nat_eq_self)
qed

lemma unat_drop_bit_div: "unat (drop_bit k (w :: 'a::len word)) = unat w div 2 ^ k"
  by (simp add: unat_drop_bit_eq) (simp add: drop_bit_eq_div)

lemma and_127_eq_take_bit [byte_simps]: "(w :: 'a::len word) AND 127 = take_bit 7 w"
  by (simp add: take_bit_eq_mask mask_eq_exp_minus_1)

lemma bit_128_iff [byte_simps]: "bit (128 :: 'a::len word) n \<longleftrightarrow> n = 7 \<and> 7 < LENGTH('a)"
  using bit_exp_iff [of 7 n, where 'a = "'a word"] by auto

lemma bit_128_integral [byte_simps]: "bit (128 :: nat) n \<longleftrightarrow> n = 7" "bit (128 :: int) n \<longleftrightarrow> n = 7"
  using bit_exp_iff [of 7 n, where 'a = nat] bit_exp_iff [of 7 n, where 'a = int] by auto

lemma bit_u8_beyond [byte_simps]: "8 \<le> n \<Longrightarrow> \<not> bit (b :: u8) n"
  using bit_imp_le_length [of b n] by auto

lemma and_128_eq_0_iff [byte_simps]:
  "7 < LENGTH('a) \<Longrightarrow> (w :: 'a::len word) AND 128 = 0 \<longleftrightarrow> \<not> bit w 7"
  using and_exp_eq_0_iff_not_bit [of w 7] by simp

section \<open>Slots of a ring\<close>

lemma mod_add_distinct: "0 < d \<Longrightarrow> d < s \<Longrightarrow> (a + d) mod s \<noteq> (a :: nat) mod s"
  using mod_eq_dvd_iff_nat [of a "a + d" s] by (auto dest: dvd_imp_le)

lemma mod_interval_inj:
  assumes "(t :: nat) mod c = u mod c" "a \<le> t" "t < a + c" "a \<le> u" "u < a + c"
  shows "t = u"
proof -
  have "u - t < c" "t - u < c" using assms by linarith+
  then show ?thesis
    using assms(1) mod_add_distinct [of "u - t" c t] mod_add_distinct [of "t - u" c u]
    by (cases t u rule: linorder_cases) auto
qed

end
