(* ===== verification/Coding.thy ===== *)
theory Coding
  imports Util_Prelude "HOL-Library.Sublist"
begin

text \<open>
  The byte-level encoders of \<^verbatim>\<open>cpp-util/coding.h\<close> and the byte views of
  \<^verbatim>\<open>cpp-util/slice.h\<close> they work on.

  A \<^verbatim>\<open>Slice\<close> is a pointer and a length; what its operations read is the list of bytes it
  refers to, so it is modelled by that list. An encoder that writes from \<^verbatim>\<open>dst\<close> on and
  returns the pointer past the last byte is modelled by the list of bytes it writes, and a decoder
  that reads \<^verbatim>\<open>[p, limit)\<close> takes that list and returns, on success, the decoded value and the
  bytes left from the returned pointer on.
\<close>

type_synonym slice = bytes

section \<open>Slice\<close>

definition slice_size :: "slice \<Rightarrow> nat" where
  "slice_size s = length s"

definition slice_empty :: "slice \<Rightarrow> bool" where
  "slice_empty s \<longleftrightarrow> slice_size s = 0"

definition slice_index :: "slice \<Rightarrow> nat \<Rightarrow> u8 option" where
  "slice_index s n = do { assert (n < slice_size s); rd s n }"

definition slice_clear :: "slice \<Rightarrow> slice" where
  "slice_clear s = []"

definition remove_prefix :: "slice \<Rightarrow> nat \<Rightarrow> slice option" where
  "remove_prefix s n = do { assert (n \<le> slice_size s); Some (drop n s) }"

text \<open>\<^verbatim>\<open>memcmp\<close> of the C library on the first \<open>n\<close> bytes of two buffers: the sign of the
  first difference, compared as unsigned bytes.\<close>

fun memcmp :: "bytes \<Rightarrow> bytes \<Rightarrow> nat \<Rightarrow> int" where
  "memcmp (x # xs) (y # ys) (Suc n) = (if x < y then -1 else if y < x then 1 else memcmp xs ys n)"
| "memcmp _ _ _ = 0"

definition starts_with :: "slice \<Rightarrow> slice \<Rightarrow> bool" where
  "starts_with s x \<longleftrightarrow> slice_size s \<ge> slice_size x \<and> memcmp s x (slice_size x) = 0"

definition slice_compare :: "slice \<Rightarrow> slice \<Rightarrow> int" where
  "slice_compare s b =
     (let min_len = (if slice_size s < slice_size b then slice_size s else slice_size b);
          r = memcmp s b min_len
      in if r = 0
         then (if slice_size s < slice_size b then -1
               else if slice_size s > slice_size b then 1 else r)
         else r)"

definition slice_eq :: "slice \<Rightarrow> slice \<Rightarrow> bool" where
  "slice_eq x y \<longleftrightarrow> slice_size x = slice_size y \<and> memcmp x y (slice_size x) = 0"

section \<open>Fixed-width integers\<close>

definition EncodeFixed32 :: "u32 \<Rightarrow> bytes" where
  "EncodeFixed32 value =
     [ucast value, ucast (drop_bit 8 value), ucast (drop_bit 16 value), ucast (drop_bit 24 value)]"

definition EncodeFixed64 :: "u64 \<Rightarrow> bytes" where
  "EncodeFixed64 value =
     [ucast value, ucast (drop_bit 8 value), ucast (drop_bit 16 value), ucast (drop_bit 24 value),
      ucast (drop_bit 32 value), ucast (drop_bit 40 value), ucast (drop_bit 48 value),
      ucast (drop_bit 56 value)]"

text \<open>The decoders read four and eight bytes without a bounds check: a shorter buffer is an
  out-of-bounds read, \<^const>\<open>None\<close>.\<close>

definition DecodeFixed32 :: "bytes \<Rightarrow> u32 option" where
  "DecodeFixed32 buffer = do {
     b0 \<leftarrow> rd buffer 0; b1 \<leftarrow> rd buffer 1; b2 \<leftarrow> rd buffer 2; b3 \<leftarrow> rd buffer 3;
     Some (ucast b0 OR push_bit 8 (ucast b1) OR push_bit 16 (ucast b2) OR push_bit 24 (ucast b3)) }"

definition DecodeFixed64 :: "bytes \<Rightarrow> u64 option" where
  "DecodeFixed64 buffer = do {
     b0 \<leftarrow> rd buffer 0; b1 \<leftarrow> rd buffer 1; b2 \<leftarrow> rd buffer 2; b3 \<leftarrow> rd buffer 3;
     b4 \<leftarrow> rd buffer 4; b5 \<leftarrow> rd buffer 5; b6 \<leftarrow> rd buffer 6; b7 \<leftarrow> rd buffer 7;
     Some (ucast b0 OR push_bit 8 (ucast b1) OR push_bit 16 (ucast b2) OR push_bit 24 (ucast b3) OR
       push_bit 32 (ucast b4) OR push_bit 40 (ucast b5) OR push_bit 48 (ucast b6) OR
       push_bit 56 (ucast b7)) }"

definition PutFixed32 :: "bytes \<Rightarrow> u32 \<Rightarrow> bytes" where
  "PutFixed32 dst value = dst @ EncodeFixed32 value"

definition PutFixed64 :: "bytes \<Rightarrow> u64 \<Rightarrow> bytes" where
  "PutFixed64 dst value = dst @ EncodeFixed64 value"

section \<open>Variable-length integers\<close>

definition EncodeVarint32 :: "u32 \<Rightarrow> bytes" where
  "EncodeVarint32 v =
     (if v < 2 ^ 7 then [ucast v]
      else if v < 2 ^ 14 then [ucast (v OR 128), ucast (drop_bit 7 v)]
      else if v < 2 ^ 21 then
        [ucast (v OR 128), ucast (drop_bit 7 v OR 128), ucast (drop_bit 14 v)]
      else if v < 2 ^ 28 then
        [ucast (v OR 128), ucast (drop_bit 7 v OR 128), ucast (drop_bit 14 v OR 128),
         ucast (drop_bit 21 v)]
      else
        [ucast (v OR 128), ucast (drop_bit 7 v OR 128), ucast (drop_bit 14 v OR 128),
         ucast (drop_bit 21 v OR 128), ucast (drop_bit 28 v)])"

definition PutVarint32 :: "bytes \<Rightarrow> u32 \<Rightarrow> bytes" where
  "PutVarint32 dst v = dst @ EncodeVarint32 v"

lemma drop_bit_7_decreases: "(128 :: u64) \<le> v \<Longrightarrow> unat (drop_bit 7 v) < unat v"
  by (simp add: word_le_nat_alt drop_bit_eq_div unat_div)

function EncodeVarint64 :: "u64 \<Rightarrow> bytes" where
  "EncodeVarint64 v =
     (if 128 \<le> v then ucast (v OR 128) # EncodeVarint64 (drop_bit 7 v) else [ucast v])"
  by pat_completeness auto
termination
  by (relation "measure unat") (simp_all add: drop_bit_7_decreases)

definition PutVarint64 :: "bytes \<Rightarrow> u64 \<Rightarrow> bytes" where
  "PutVarint64 dst v = dst @ EncodeVarint64 v"

function VarintLength_loop :: "nat \<Rightarrow> u64 \<Rightarrow> nat" where
  "VarintLength_loop len v = (if 128 \<le> v then VarintLength_loop (len + 1) (drop_bit 7 v) else len)"
  by pat_completeness auto
termination
  by (relation "measure (unat \<circ> snd)") (simp_all add: drop_bit_7_decreases)

definition VarintLength :: "u64 \<Rightarrow> nat" where
  "VarintLength v = VarintLength_loop 1 v"

text \<open>The decoding loop, shared by the 32-bit and the 64-bit reader, which differ in the width of
  the accumulator and in the last admissible shift (28 and 63).\<close>

fun GetVarint_loop :: "nat \<Rightarrow> nat \<Rightarrow> 'a::len word \<Rightarrow> bytes \<Rightarrow> ('a word \<times> bytes) option" where
  "GetVarint_loop maxshift shift result [] = None"
| "GetVarint_loop maxshift shift result (p # ps) =
     (if shift \<le> maxshift then
        let byte = ucast p in
        if byte AND 128 \<noteq> (0 :: 'a word)
        then GetVarint_loop maxshift (shift + 7) (result OR push_bit shift (byte AND 127)) ps
        else Some (result OR push_bit shift byte, ps)
      else None)"

definition GetVarint32PtrFallback :: "bytes \<Rightarrow> (u32 \<times> bytes) option" where
  "GetVarint32PtrFallback p = GetVarint_loop 28 0 0 p"

definition GetVarint32Ptr :: "bytes \<Rightarrow> (u32 \<times> bytes) option" where
  "GetVarint32Ptr p =
     (case p of
        b # bs \<Rightarrow> (let result = (ucast b :: u32) in
                   if result AND 128 = 0 then Some (result, bs) else GetVarint32PtrFallback p)
      | [] \<Rightarrow> GetVarint32PtrFallback p)"

definition GetVarint64Ptr :: "bytes \<Rightarrow> (u64 \<times> bytes) option" where
  "GetVarint64Ptr p = GetVarint_loop 63 0 0 p"

text \<open>\<^verbatim>\<open>GetVarint32\<close> and \<^verbatim>\<open>GetVarint64\<close> advance the input slice; on failure
  (\<^const>\<open>None\<close>, the \<^verbatim>\<open>false\<close> of the code) it stays as it was.\<close>

definition GetVarint32 :: "slice \<Rightarrow> (u32 \<times> slice) option" where
  "GetVarint32 input = GetVarint32Ptr input"

definition GetVarint64 :: "slice \<Rightarrow> (u64 \<times> slice) option" where
  "GetVarint64 input = GetVarint64Ptr input"

section \<open>Length-prefixed slices\<close>

definition PutLengthPrefixedSlice :: "bytes \<Rightarrow> slice \<Rightarrow> bytes" where
  "PutLengthPrefixedSlice dst value = PutVarint32 dst (of_nat (slice_size value)) @ value"

text \<open>The result is the slice read and what is left of the input. When the length was read but the
  payload is short, the code returns \<^verbatim>\<open>false\<close> with the input already advanced past the length:
  the second component of \<^const>\<open>Inl\<close> below.\<close>

definition GetLengthPrefixedSlice :: "slice \<Rightarrow> slice + (slice \<times> slice)" where
  "GetLengthPrefixedSlice input =
     (case GetVarint32 input of
        None \<Rightarrow> Inl input
      | Some (len, rest) \<Rightarrow>
          if slice_size rest \<ge> unat len
          then Inr (take (unat len) rest, drop (unat len) rest)
          else Inl rest)"


section \<open>Slices: lemmas\<close>

lemma memcmp_eq_0_iff:
  "n \<le> length xs \<Longrightarrow> n \<le> length ys \<Longrightarrow> memcmp xs ys n = 0 \<longleftrightarrow> take n xs = take n ys"
  by (induction xs ys n rule: memcmp.induct) auto

lemma slice_eq_iff [simp]: "slice_eq x y \<longleftrightarrow> x = y"
  by (auto simp: slice_eq_def slice_size_def memcmp_eq_0_iff)

lemma starts_with_iff_prefix: "starts_with s x \<longleftrightarrow> prefix x s"
proof
  assume a: "starts_with s x"
  then have "length x \<le> length s" and "take (length x) s = x"
    by (auto simp: starts_with_def slice_size_def memcmp_eq_0_iff)
  then show "prefix x s" by (metis take_is_prefix)
next
  assume "prefix x s"
  then show "starts_with s x"
    by (auto simp: starts_with_def slice_size_def memcmp_eq_0_iff prefix_def)
qed

text \<open>The three-way comparison is the sign of the lexicographic order on unsigned bytes.\<close>

fun bytes_less :: "bytes \<Rightarrow> bytes \<Rightarrow> bool" where
  "bytes_less [] [] = False"
| "bytes_less [] (y # ys) = True"
| "bytes_less (x # xs) [] = False"
| "bytes_less (x # xs) (y # ys) = (x < y \<or> x = y \<and> bytes_less xs ys)"

lemma bytes_less_linear: "bytes_less x y \<or> x = y \<or> bytes_less y x"
  by (induction x y rule: bytes_less.induct) auto

lemma bytes_less_asym: "bytes_less x y \<Longrightarrow> \<not> bytes_less y x"
  by (induction x y rule: bytes_less.induct) auto

lemma bytes_less_trans: "bytes_less x y \<Longrightarrow> bytes_less y z \<Longrightarrow> bytes_less x z"
  by (induction x y arbitrary: z rule: bytes_less.induct) (case_tac z; auto)+

lemma slice_compare_Cons [simp]:
  "slice_compare (x # xs) (y # ys) = (if x < y then -1 else if y < x then 1 else slice_compare xs ys)"
  by (simp add: slice_compare_def slice_size_def Let_def)

lemma slice_compare_Nil [simp]:
  "slice_compare [] [] = 0" "slice_compare [] (y # ys) = -1" "slice_compare (x # xs) [] = 1"
  by (simp_all add: slice_compare_def slice_size_def)

lemma slice_compare_eq:
  "slice_compare x y = (if bytes_less x y then -1 else if x = y then 0 else 1)"
  by (induction x y rule: bytes_less.induct) auto

section \<open>Fixed-width integers: lemmas\<close>

lemma take_bit_or_next [byte_simps]:
  "take_bit n v OR push_bit n (take_bit m (drop_bit n v)) = take_bit (n + m) (v :: 'a::len word)"
  by (rule bit_word_eqI) (auto simp: bit_simps)

lemma take_bit_or_rest [byte_simps]:
  "take_bit n v OR push_bit n (drop_bit n v) = (v :: 'a::len word)"
proof (rule bit_word_eqI)
  fix k
  show "bit (take_bit n v OR push_bit n (drop_bit n v)) k \<longleftrightarrow> bit v k" if "k < LENGTH('a)"
    using that by (cases "k < n") (auto simp: bit_simps)
qed

lemma ucast_ucast_u8 [byte_simps]:
  "ucast (ucast v :: u8) = (take_bit 8 v :: u32)" "ucast (ucast w :: u8) = (take_bit 8 w :: u64)"
  by (rule bit_word_eqI; auto simp: bit_simps)+

lemma ucast_split_u32 [byte_simps]:
  fixes v :: u32
  shows "ucast (ucast v :: u8) OR push_bit 8 (ucast (ucast (drop_bit 8 v) :: u8)) OR
    push_bit 16 (ucast (ucast (drop_bit 16 v) :: u8)) OR
    push_bit 24 (ucast (ucast (drop_bit 24 v) :: u8)) = v"
  unfolding ucast_ucast_u8 or.assoc [symmetric] take_bit_or_next numeral_plus_numeral add_num_simps
  by (simp add: take_bit_word_eq_self)

lemma ucast_split_u64 [byte_simps]:
  fixes v :: u64
  shows "ucast (ucast v :: u8) OR push_bit 8 (ucast (ucast (drop_bit 8 v) :: u8)) OR
    push_bit 16 (ucast (ucast (drop_bit 16 v) :: u8)) OR
    push_bit 24 (ucast (ucast (drop_bit 24 v) :: u8)) OR
    push_bit 32 (ucast (ucast (drop_bit 32 v) :: u8)) OR
    push_bit 40 (ucast (ucast (drop_bit 40 v) :: u8)) OR
    push_bit 48 (ucast (ucast (drop_bit 48 v) :: u8)) OR
    push_bit 56 (ucast (ucast (drop_bit 56 v) :: u8)) = v"
  unfolding ucast_ucast_u8 or.assoc [symmetric] take_bit_or_next numeral_plus_numeral add_num_simps
  by (simp add: take_bit_word_eq_self)

lemma DecodeFixed32_EncodeFixed32: "DecodeFixed32 (EncodeFixed32 v @ rest) = Some v"
  by (simp add: DecodeFixed32_def EncodeFixed32_def rd_def ucast_split_u32)

lemma DecodeFixed64_EncodeFixed64: "DecodeFixed64 (EncodeFixed64 v @ rest) = Some v"
  by (simp add: DecodeFixed64_def EncodeFixed64_def rd_def ucast_split_u64 del: unsigned_ucast_eq)

lemma EncodeFixed32_DecodeFixed32:
  "length b = 4 \<Longrightarrow> \<exists>v. DecodeFixed32 b = Some v \<and> EncodeFixed32 v = b"
proof -
  assume "length b = 4"
  then obtain b0 b1 b2 b3 where b: "b = [b0, b1, b2, b3]"
    by (auto simp: numeral_eq_Suc length_Suc_conv)
  show ?thesis
    by (simp add: b DecodeFixed32_def EncodeFixed32_def rd_def)
      (intro conjI; rule bit_word_eqI; simp add: bit_simps bit_u8_beyond)
qed

section \<open>Variable-length integers: lemmas\<close>

declare EncodeVarint64.simps [simp del] VarintLength_loop.simps [simp del]


lemma EncodeVarint64_last: "v < 128 \<Longrightarrow> EncodeVarint64 v = [ucast v]"
  by (subst EncodeVarint64.simps) auto

lemma EncodeVarint64_more:
  "128 \<le> v \<Longrightarrow> EncodeVarint64 v = ucast (v OR 128) # EncodeVarint64 (drop_bit 7 v)"
  by (subst EncodeVarint64.simps) simp

lemma EncodeVarint64_not_Nil [simp]: "EncodeVarint64 v \<noteq> []"
  by (subst EncodeVarint64.simps) simp

lemma VarintLength_loop_eq: "Suc (VarintLength_loop n v) = n + length (EncodeVarint64 v)"
proof (induction n v rule: VarintLength_loop.induct)
  case (1 n v)
  show ?case
  proof (cases "128 \<le> v")
    case True
    have "VarintLength_loop n v = VarintLength_loop (n + 1) (drop_bit 7 v)"
      using True by (subst VarintLength_loop.simps) simp
    with 1 [OF True] show ?thesis by (simp only: EncodeVarint64_more [OF True] list.size)
  next
    case False
    then have "VarintLength_loop n v = n" by (subst VarintLength_loop.simps) simp
    with False show ?thesis by (simp add: EncodeVarint64_last)
  qed
qed

lemma length_EncodeVarint64: "unat w < 2 ^ (7 * n) \<Longrightarrow> 0 < n \<Longrightarrow> length (EncodeVarint64 w) \<le> n"
proof (induction n arbitrary: w)
  case (Suc n)
  show ?case
  proof (cases "128 \<le> w")
    case True
    then have "0 < n" using Suc.prems by (cases n) (auto simp: word_le_nat_alt)
    moreover have "unat (drop_bit 7 w) < 2 ^ (7 * n)"
      using Suc.prems(1) by (simp only: unat_drop_bit_div) (simp add: div_less_iff_less_mult power_add)
    ultimately show ?thesis using Suc.IH by (simp add: EncodeVarint64_more [OF True])
  qed (simp add: EncodeVarint64_last)
qed simp

lemma more_byte_flag: "7 < LENGTH('a) \<Longrightarrow>
    (ucast (ucast (w OR 128 :: u64) :: u8) :: 'a::len word) AND 128 \<noteq> 0"
  by (simp add: and_128_eq_0_iff bit_simps)

lemma more_byte_payload:
  assumes "LENGTH('a) \<le> 64"
  shows "(ucast (ucast (drop_bit s (ucast (V :: 'a::len word)) OR 128 :: u64) :: u8) :: 'a word)
    AND 127 = take_bit 7 (drop_bit s V)"
  unfolding and_127_eq_take_bit using assms
  by (intro bit_word_eqI)
    (auto simp: bit_simps bit_128_iff bit_128_integral dest: bit_imp_le_length)

lemma below_128_bits: "(w :: u64) < 128 \<Longrightarrow> bit w n \<Longrightarrow> n < 7"
proof -
  assume "w < 128" and b: "bit w n"
  then have "w = take_bit 7 w" by (simp add: take_bit_eq_mod mod_word_less)
  with b show "n < 7" by (metis bit_take_bit_iff)
qed

lemma last_byte:
  assumes "drop_bit s (ucast (V :: 'a::len word)) < (128 :: u64)" "LENGTH('a) \<le> 64" "7 < LENGTH('a)"
  shows "(ucast (ucast (drop_bit s (ucast V) :: u64) :: u8) :: 'a word) = drop_bit s V"
    and "(ucast (ucast (drop_bit s (ucast V) :: u64) :: u8) :: 'a word) AND 128 = 0"
proof -
  note small = below_128_bits [OF assms(1)]
  have "bit V (s + n) \<Longrightarrow> n < 7" for n
    using small [of n] assms(2) bit_imp_le_length [of V "s + n"] by (auto simp: bit_simps)
  then show "(ucast (ucast (drop_bit s (ucast V) :: u64) :: u8) :: 'a word) = drop_bit s V"
    using assms(2) by (intro bit_word_eqI) (fastforce simp: bit_simps dest: bit_imp_le_length)
  show "(ucast (ucast (drop_bit s (ucast V) :: u64) :: u8) :: 'a word) AND 128 = 0"
    using small [of 7] assms by (auto simp: and_128_eq_0_iff bit_simps)
qed

lemma shift_bound:
  assumes "128 \<le> drop_bit s (ucast (V :: 'a::len word) :: u64)"
  shows "s + 7 < LENGTH('a)"
proof (rule ccontr)
  assume l: "\<not> s + 7 < LENGTH('a)"
  have "drop_bit 7 (drop_bit s (ucast V :: u64)) = 0"
    using l by (intro bit_word_eqI) (auto simp: bit_simps dest: bit_imp_le_length)
  moreover have "unat (drop_bit 7 x) = unat x div 128" for x :: u64
    by (simp add: drop_bit_eq_div unat_div)
  ultimately have "unat (drop_bit s (ucast V :: u64)) div 128 = 0"
    by (metis unsigned_0)
  with assms show False by (simp add: word_le_nat_alt div_eq_0_iff)
qed

lemma GetVarint_loop_Encode:
  fixes V :: "'a::len word"
  assumes L: "7 < LENGTH('a)" "LENGTH('a) \<le> 64"
    and reach: "\<And>s. 7 dvd s \<Longrightarrow> s < LENGTH('a) \<Longrightarrow> s \<le> maxshift"
  shows "7 dvd s \<Longrightarrow> s < LENGTH('a) \<Longrightarrow> w = drop_bit s (ucast V) \<Longrightarrow>
    GetVarint_loop maxshift s (take_bit s V) (EncodeVarint64 w @ rest) = Some (V, rest)"
proof (induction w arbitrary: s rule: EncodeVarint64.induct)
  case (1 w)
  note s = reach [OF "1.prems"(1,2)]
  show ?case
  proof (cases "128 \<le> w")
    case True
    then have "s + 7 < LENGTH('a)" using "1.prems"(3) shift_bound [of s V] by simp
    with "1.IH" [OF True, of "s + 7"] "1.prems" have
      "GetVarint_loop maxshift (s + 7) (take_bit (s + 7) V) (EncodeVarint64 (drop_bit 7 w) @ rest) =
        Some (V, rest)" by (simp add: add.commute)
    then show ?thesis
      using s more_byte_flag [OF L(1), of w] more_byte_payload [OF L(2), of s V, folded "1.prems"(3)]
      by (simp add: EncodeVarint64_more [OF True] take_bit_or_next Let_def)
  next
    case False
    then have w: "drop_bit s (ucast V) < (128 :: u64)" using "1.prems"(3) by simp
    then show ?thesis using s last_byte [OF w L(2,1)]
      by (simp add: EncodeVarint64_last "1.prems"(3) take_bit_or_rest Let_def)
  qed
qed

lemma ge_128_drop_bit: "(128 :: u64) \<le> drop_bit k (ucast (v :: u32)) \<longleftrightarrow> 2 ^ (k + 7) \<le> unat v"
  by (simp add: word_le_nat_alt unat_drop_bit_div less_eq_div_iff_mult_less_eq power_add mult.commute)

lemma EncodeVarint64_step:
  "EncodeVarint64 (drop_bit k (ucast (v :: u32))) =
     (if 2 ^ (k + 7) \<le> unat v
      then ucast (drop_bit k v OR 128) # EncodeVarint64 (drop_bit (7 + k) (ucast v))
      else [ucast (drop_bit k v)])"
proof -
  have "(ucast (drop_bit k (ucast v :: u64)) :: u8) = ucast (drop_bit k v)"
    "(ucast (drop_bit k (ucast v :: u64) OR 128) :: u8) = ucast (drop_bit k v OR 128)"
    by (intro bit_word_eqI; auto simp: bit_simps dest: bit_imp_le_length)+
  then show ?thesis
    using ge_128_drop_bit [of k v] by (simp add: EncodeVarint64.simps [of "drop_bit k (ucast v)"])
qed

lemma EncodeVarint32_eq_EncodeVarint64: "EncodeVarint32 v = EncodeVarint64 (ucast v)"
proof -
  have "\<not> 2 ^ (28 + 7) \<le> unat v" using unat_less_two_power [of v] by simp
  then show ?thesis
    using EncodeVarint64_step [of 0 v] EncodeVarint64_step [of 7 v] EncodeVarint64_step [of 14 v]
      EncodeVarint64_step [of 21 v] EncodeVarint64_step [of 28 v]
    by (simp add: EncodeVarint32_def word_less_nat_alt not_le not_less)
qed

lemma GetVarint_loop_result:
  fixes result :: "'a::len word" and p :: bytes
  defines "k q \<equiv> length (takeWhile (\<lambda>b. bit b 7) q)"
  assumes L: "7 < LENGTH('a)"
  shows "GetVarint_loop maxshift shift result p = None \<longleftrightarrow> k p = length p \<or> maxshift < shift + 7 * k p"
    and "GetVarint_loop maxshift shift result p = Some (v, rest) \<Longrightarrow> rest = drop (Suc (k p)) p"
proof -
  have flag: "(ucast b :: 'a word) AND 128 = 0 \<longleftrightarrow> \<not> bit b 7" for b :: u8
    using L by (simp add: and_128_eq_0_iff bit_simps)
  show "GetVarint_loop maxshift shift result p = None \<longleftrightarrow> k p = length p \<or> maxshift < shift + 7 * k p"
    unfolding k_def
    by (induction p arbitrary: shift result) (auto simp: Let_def flag)
  show "GetVarint_loop maxshift shift result p = Some (v, rest) \<Longrightarrow> rest = drop (Suc (k p)) p"
    unfolding k_def
    by (induction p arbitrary: shift result) (auto simp: Let_def flag split: if_splits)
qed

lemma GetVarint32_eq_Fallback: "GetVarint32 p = GetVarint32PtrFallback p"
  by (cases p) (auto simp: GetVarint32_def GetVarint32Ptr_def GetVarint32PtrFallback_def Let_def)

lemma GetVarint32_PutVarint32: "GetVarint32 (PutVarint32 [] v @ rest) = Some (v, rest)"
proof -
  have "s \<le> 28" if "7 dvd s" "s < 32" for s :: nat using that by presburger
  then show ?thesis
    using GetVarint_loop_Encode [of 28 0 _ v rest]
    by (simp add: GetVarint32_eq_Fallback GetVarint32PtrFallback_def PutVarint32_def
        EncodeVarint32_eq_EncodeVarint64)
qed

section \<open>Properties\<close>

text \<open>C26. Decoding a varint32 or a varint64 that the matching encoder appended gives back the value
  and leaves exactly the bytes that follow it, for every value of the type and every
  continuation of the buffer.\<close>

theorem varint_roundtrip:
  "GetVarint32 (PutVarint32 [] v @ rest) = Some (v, rest) \<and>
   GetVarint64 (PutVarint64 [] w @ rest) = Some (w, rest)"
proof
  show "GetVarint32 (PutVarint32 [] v @ rest) = Some (v, rest)" by (rule GetVarint32_PutVarint32)
  show "GetVarint64 (PutVarint64 [] w @ rest) = Some (w, rest)"
    using GetVarint_loop_Encode [of 63 0 _ w rest]
    by (simp add: GetVarint64_def GetVarint64Ptr_def PutVarint64_def)
qed

text \<open>C27. The unrolled 32-bit encoder writes the same bytes as the 64-bit loop, \<^verbatim>\<open>VarintLength\<close> is
  the number of bytes written, and the encoders stay inside the stack buffers of
  \<^verbatim>\<open>PutVarint32\<close> (5 bytes) and \<^verbatim>\<open>PutVarint64\<close> (10 bytes).\<close>

theorem varint_encoders_agree:
  "EncodeVarint32 v = EncodeVarint64 (ucast v) \<and> VarintLength w = length (EncodeVarint64 w) \<and>
   length (EncodeVarint32 v) \<le> 5 \<and> VarintLength w \<le> 10"
proof (intro conjI)
  show "EncodeVarint32 v = EncodeVarint64 (ucast v)" by (rule EncodeVarint32_eq_EncodeVarint64)
  show len: "VarintLength w = length (EncodeVarint64 w)"
    using VarintLength_loop_eq [of 1 w] by (simp add: VarintLength_def)
  show "length (EncodeVarint32 v) \<le> 5" by (simp add: EncodeVarint32_def)
  have "unat w < 2 ^ (7 * 10)" using unat_less_two_power [of w] by simp
  then show "VarintLength w \<le> 10" unfolding len by (rule length_EncodeVarint64) simp
qed

text \<open>C28. The varint32 reader never looks past the first byte without continuation bit: it fails exactly
  when the input ends, or five bytes have passed, before such a byte; otherwise it consumes the
  bytes up to and including it and nothing else. Failure leaves the caller's slice as it was
  (the model returns no new slice).\<close>

theorem GetVarint32_fails_iff:
  "(GetVarint32 input = None \<longleftrightarrow>
      length (takeWhile (\<lambda>b. bit b 7) input) = length input \<or>
      5 \<le> length (takeWhile (\<lambda>b. bit b 7) input)) \<and>
   (\<forall>v rest. GetVarint32 input = Some (v, rest) \<longrightarrow>
      rest = drop (Suc (length (takeWhile (\<lambda>b. bit b 7) input))) input)"
  using GetVarint_loop_result(1) [of 28 0 "0 :: u32" input]
    GetVarint_loop_result(2) [of 28 0 "0 :: u32" input]
  by (auto simp: GetVarint32_eq_Fallback GetVarint32PtrFallback_def)

theorem GetVarint32_fails_iff_witness:
  "GetVarint32 [172, 2, 9] = Some (300, [9]) \<and> [9] = drop 2 [172, 2, 9 :: u8] \<and>
   GetVarint32 [255, 255, 255, 255, 255, 1] = None"
proof -
  have a: "GetVarint32 [172, 2, 9] = Some (300, [9])"
    by (simp add: GetVarint32_def GetVarint32Ptr_def GetVarint32PtrFallback_def)
  then have "[9] = drop 2 [172, 2, 9 :: u8]"
    using GetVarint32_fails_iff [of "[172, 2, 9]"] by simp
  then show ?thesis
    using a GetVarint32_fails_iff [of "[255, 255, 255, 255, 255, 1]"] by simp
qed

text \<open>C29. A length-prefixed slice is read back whole, followed by the bytes appended after it, provided
  its length fits the 32-bit prefix.\<close>

theorem length_prefixed_roundtrip:
  assumes "length value < 2 ^ 32"
  shows "GetLengthPrefixedSlice (PutLengthPrefixedSlice [] value @ rest) = Inr (value, rest)"
proof -
  have "unat (of_nat (length value) :: u32) = length value"
    using assms by (simp add: unat_of_nat)
  then show ?thesis
    using GetVarint32_PutVarint32 [of "of_nat (length value)" "value @ rest"]
    by (simp add: GetLengthPrefixedSlice_def PutLengthPrefixedSlice_def slice_size_def PutVarint32_def)
qed

theorem length_prefixed_roundtrip_witness:
  "length [104, 105 :: u8] < 2 ^ 32 \<and>
   GetLengthPrefixedSlice (PutLengthPrefixedSlice [] [104, 105] @ [7]) = Inr ([104, 105], [7])"
  using length_prefixed_roundtrip [of "[104, 105]" "[7]"] by simp



text \<open>C37. \<^verbatim>\<open>Slice::compare\<close> is the three-way comparison of a strict total order on byte strings: its
  sign tells less, equal (the \<^verbatim>\<open>operator==\<close> of slices, equality of the bytes) and greater,
  it is antisymmetric and transitive, and \<^verbatim>\<open>starts_with\<close> is the prefix relation.\<close>

theorem slice_compare_total_order:
  "(slice_compare x y = 0 \<longleftrightarrow> slice_eq x y) \<and> slice_compare y x = - slice_compare x y \<and>
   (slice_compare x y < 0 \<and> slice_compare y z < 0 \<longrightarrow> slice_compare x z < 0) \<and>
   (starts_with x y \<longleftrightarrow> prefix y x)"
proof (intro conjI impI)
  show "slice_compare x y = 0 \<longleftrightarrow> slice_eq x y"
    using bytes_less_asym by (auto simp: slice_compare_eq)
  show "slice_compare y x = - slice_compare x y"
    using bytes_less_linear [of x y] bytes_less_asym [of x y] bytes_less_asym [of y x]
    by (auto simp: slice_compare_eq)
  assume "slice_compare x y < 0 \<and> slice_compare y z < 0"
  then show "slice_compare x z < 0"
    using bytes_less_trans [of x y z] by (auto simp: slice_compare_eq split: if_splits)
qed (rule starts_with_iff_prefix)

theorem slice_compare_total_order_witness:
  "slice_compare [1, 2] [1, 2, 0] < 0 \<and> slice_compare [1, 2, 0] [200] < 0 \<and>
   slice_compare [1, 2] [200] < 0"
proof -
  have "slice_compare [1, 2] [1, 2, 0] < 0 \<and> slice_compare [1, 2, 0] [200] < 0" by simp
  then show ?thesis using slice_compare_total_order [of "[1, 2]" "[1, 2, 0]" "[200]"] by blast
qed

end
