(* ===== verification/Murmur.thy ===== *)
theory Murmur
  imports Util_Prelude
begin

text \<open>
  The hash functions of \<^verbatim>\<open>cpp-util/murmur2.h\<close> (used by the LRU cache and the bloom filters)
  and \<^verbatim>\<open>cpp-util/murmur3.h\<close>.

  A key is the list of the bytes it points to and the length argument is the length of that list
  (the code passes it as an \<^verbatim>\<open>int\<close>, so keys are shorter than \<open>2 ^ 31\<close> bytes). The 32-bit and
  64-bit block reads \<^verbatim>\<open>*(uint32_t*)data\<close> are little-endian loads. The loop over the blocks
  consumes the key from the front; the fall-through \<^verbatim>\<open>switch\<close> on the remaining length works on
  the bytes left over.
\<close>

section \<open>Little-endian loads\<close>

definition load32 :: "u8 \<Rightarrow> u8 \<Rightarrow> u8 \<Rightarrow> u8 \<Rightarrow> u32" where
  "load32 a b c d =
     ucast a OR push_bit 8 (ucast b) OR push_bit 16 (ucast c) OR push_bit 24 (ucast d)"

definition load64 :: "bytes \<Rightarrow> u64" where
  "load64 bs = foldr (\<lambda>b acc. ucast b OR push_bit 8 acc) bs 0"

section \<open>MurmurHash2\<close>

definition murmur_m :: u32 where "murmur_m = 0x5bd1e995"

definition Hash_mix :: "u32 \<Rightarrow> u32" where
  "Hash_mix k =
     (let k = k * murmur_m; k = k XOR drop_bit 24 k in k * murmur_m)"

fun Hash_loop :: "u32 \<Rightarrow> bytes \<Rightarrow> u32 \<times> bytes" where
  "Hash_loop h (a # b # c # d # data) =
     Hash_loop (h * murmur_m XOR Hash_mix (load32 a b c d)) data"
| "Hash_loop h data = (h, data)"

fun Hash_tail :: "u32 \<Rightarrow> bytes \<Rightarrow> u32" where
  "Hash_tail h [a, b, c] =
     (h XOR push_bit 16 (ucast c) XOR push_bit 8 (ucast b) XOR ucast a) * murmur_m"
| "Hash_tail h [a, b] = (h XOR push_bit 8 (ucast b) XOR ucast a) * murmur_m"
| "Hash_tail h [a] = (h XOR ucast a) * murmur_m"
| "Hash_tail h _ = h"

definition Hash_final :: "u32 \<Rightarrow> u32" where
  "Hash_final h =
     (let h = h XOR drop_bit 13 h; h = h * murmur_m in h XOR drop_bit 15 h)"

definition Hash :: "bytes \<Rightarrow> u32 \<Rightarrow> u32" where
  "Hash key seed =
     (let (h, tail) = Hash_loop (seed XOR of_nat (length key)) key
      in Hash_final (Hash_tail h tail))"

section \<open>MurmurHash3\<close>

definition rotl32 :: "u32 \<Rightarrow> nat \<Rightarrow> u32" where
  "rotl32 x r = push_bit r x OR drop_bit (32 - r) x"

definition rotl64 :: "u64 \<Rightarrow> nat \<Rightarrow> u64" where
  "rotl64 x r = push_bit r x OR drop_bit (64 - r) x"

definition fmix32 :: "u32 \<Rightarrow> u32" where
  "fmix32 h =
     (let h = h XOR drop_bit 16 h; h = h * 0x85ebca6b;
          h = h XOR drop_bit 13 h; h = h * 0xc2b2ae35
      in h XOR drop_bit 16 h)"

definition fmix64 :: "u64 \<Rightarrow> u64" where
  "fmix64 k =
     (let k = k XOR drop_bit 33 k; k = k * 0xff51afd7ed558ccd;
          k = k XOR drop_bit 33 k; k = k * 0xc4ceb9fe1a85ec53
      in k XOR drop_bit 33 k)"

text \<open>Byte \<open>i\<close> of the tail, shifted, as one \<^verbatim>\<open>case\<close> of the fall-through switches adds it.\<close>

definition tail_byte :: "bytes \<Rightarrow> nat \<Rightarrow> nat \<Rightarrow> 'a::len word" where
  "tail_byte tail i s = (if i < length tail then push_bit s (ucast (tail ! i)) else 0)"

subsection \<open>The 32-bit variant\<close>

definition x86_32_block :: "u32 \<Rightarrow> u32 \<Rightarrow> u32" where
  "x86_32_block h1 k1 =
     (let k1 = rotl32 (k1 * 0xcc9e2d51) 15 * 0x1b873593; h1 = rotl32 (h1 XOR k1) 13
      in h1 * 5 + 0xe6546b64)"

fun x86_32_loop :: "u32 \<Rightarrow> bytes \<Rightarrow> u32 \<times> bytes" where
  "x86_32_loop h1 (a # b # c # d # data) = x86_32_loop (x86_32_block h1 (load32 a b c d)) data"
| "x86_32_loop h1 data = (h1, data)"

definition x86_32_tail :: "u32 \<Rightarrow> bytes \<Rightarrow> u32" where
  "x86_32_tail h1 tail =
     (if length tail = 0 then h1
      else let k1 = tail_byte tail 2 16 XOR tail_byte tail 1 8 XOR tail_byte tail 0 0
           in h1 XOR rotl32 (k1 * 0xcc9e2d51) 15 * 0x1b873593)"

definition MurmurHash3_x86_32 :: "bytes \<Rightarrow> u32 \<Rightarrow> u32" where
  "MurmurHash3_x86_32 key seed =
     (let (h1, tail) = x86_32_loop seed key
      in fmix32 (x86_32_tail h1 tail XOR of_nat (length key)))"

subsection \<open>The 128-bit variant for 32-bit machines\<close>

type_synonym quad = "u32 \<times> u32 \<times> u32 \<times> u32"

definition x86_128_block :: "quad \<Rightarrow> quad \<Rightarrow> quad" where
  "x86_128_block = (\<lambda>(h1, h2, h3, h4) (k1, k2, k3, k4).
     let k1 = rotl32 (k1 * 0x239b961b) 15 * 0xab0e9789; h1 = h1 XOR k1;
         h1 = (rotl32 h1 19 + h2) * 5 + 0x561ccd1b;
         k2 = rotl32 (k2 * 0xab0e9789) 16 * 0x38b34ae5; h2 = h2 XOR k2;
         h2 = (rotl32 h2 17 + h3) * 5 + 0x0bcaa747;
         k3 = rotl32 (k3 * 0x38b34ae5) 17 * 0xa1e38b93; h3 = h3 XOR k3;
         h3 = (rotl32 h3 15 + h4) * 5 + 0x96cd1c35;
         k4 = rotl32 (k4 * 0xa1e38b93) 18 * 0x239b961b; h4 = h4 XOR k4;
         h4 = (rotl32 h4 13 + h1) * 5 + 0x32ac3b17
     in (h1, h2, h3, h4))"

fun x86_128_loop :: "quad \<Rightarrow> bytes \<Rightarrow> quad \<times> bytes" where
  "x86_128_loop h (a0 # a1 # a2 # a3 # b0 # b1 # b2 # b3 # c0 # c1 # c2 # c3 # d0 # d1 # d2 # d3 # data) =
     x86_128_loop (x86_128_block h (load32 a0 a1 a2 a3, load32 b0 b1 b2 b3,
       load32 c0 c1 c2 c3, load32 d0 d1 d2 d3)) data"
| "x86_128_loop h data = (h, data)"

definition x86_128_tail :: "quad \<Rightarrow> bytes \<Rightarrow> quad" where
  "x86_128_tail = (\<lambda>(h1, h2, h3, h4) tail.
     let h4 = (if 13 \<le> length tail
               then h4 XOR rotl32 ((tail_byte tail 14 16 XOR tail_byte tail 13 8 XOR
                 tail_byte tail 12 0) * 0xa1e38b93) 18 * 0x239b961b
               else h4);
         h3 = (if 9 \<le> length tail
               then h3 XOR rotl32 ((tail_byte tail 11 24 XOR tail_byte tail 10 16 XOR
                 tail_byte tail 9 8 XOR tail_byte tail 8 0) * 0x38b34ae5) 17 * 0xa1e38b93
               else h3);
         h2 = (if 5 \<le> length tail
               then h2 XOR rotl32 ((tail_byte tail 7 24 XOR tail_byte tail 6 16 XOR
                 tail_byte tail 5 8 XOR tail_byte tail 4 0) * 0xab0e9789) 16 * 0x38b34ae5
               else h2);
         h1 = (if 1 \<le> length tail
               then h1 XOR rotl32 ((tail_byte tail 3 24 XOR tail_byte tail 2 16 XOR
                 tail_byte tail 1 8 XOR tail_byte tail 0 0) * 0x239b961b) 15 * 0xab0e9789
               else h1)
     in (h1, h2, h3, h4))"

definition x86_128_spread :: "quad \<Rightarrow> quad" where
  "x86_128_spread = (\<lambda>(h1, h2, h3, h4).
     let h1 = h1 + h2 + h3 + h4 in (h1, h2 + h1, h3 + h1, h4 + h1))"

definition MurmurHash3_x86_128 :: "bytes \<Rightarrow> u32 \<Rightarrow> quad" where
  "MurmurHash3_x86_128 key seed =
     (let (h, tail) = x86_128_loop (seed, seed, seed, seed) key;
          (h1, h2, h3, h4) = x86_128_tail h tail; len = of_nat (length key);
          (h1, h2, h3, h4) = x86_128_spread (h1 XOR len, h2 XOR len, h3 XOR len, h4 XOR len)
      in x86_128_spread (fmix32 h1, fmix32 h2, fmix32 h3, fmix32 h4))"

subsection \<open>The 128-bit variant for 64-bit machines\<close>

type_synonym pair64 = "u64 \<times> u64"

definition x64_128_block :: "pair64 \<Rightarrow> pair64 \<Rightarrow> pair64" where
  "x64_128_block = (\<lambda>(h1, h2) (k1, k2).
     let k1 = rotl64 (k1 * 0x87c37b91114253d5) 31 * 0x4cf5ad432745937f; h1 = h1 XOR k1;
         h1 = (rotl64 h1 27 + h2) * 5 + 0x52dce729;
         k2 = rotl64 (k2 * 0x4cf5ad432745937f) 33 * 0x87c37b91114253d5; h2 = h2 XOR k2;
         h2 = (rotl64 h2 31 + h1) * 5 + 0x38495ab5
     in (h1, h2))"

fun x64_128_loop :: "pair64 \<Rightarrow> bytes \<Rightarrow> pair64 \<times> bytes" where
  "x64_128_loop h (a0 # a1 # a2 # a3 # a4 # a5 # a6 # a7 # b0 # b1 # b2 # b3 # b4 # b5 # b6 # b7 # data) =
     x64_128_loop (x64_128_block h (load64 [a0, a1, a2, a3, a4, a5, a6, a7],
       load64 [b0, b1, b2, b3, b4, b5, b6, b7])) data"
| "x64_128_loop h data = (h, data)"

definition x64_128_tail :: "pair64 \<Rightarrow> bytes \<Rightarrow> pair64" where
  "x64_128_tail = (\<lambda>(h1, h2) tail.
     let h2 = (if 9 \<le> length tail
               then h2 XOR rotl64 ((tail_byte tail 14 48 XOR tail_byte tail 13 40 XOR
                 tail_byte tail 12 32 XOR tail_byte tail 11 24 XOR tail_byte tail 10 16 XOR
                 tail_byte tail 9 8 XOR tail_byte tail 8 0) * 0x4cf5ad432745937f) 33
                 * 0x87c37b91114253d5
               else h2);
         h1 = (if 1 \<le> length tail
               then h1 XOR rotl64 ((tail_byte tail 7 56 XOR tail_byte tail 6 48 XOR
                 tail_byte tail 5 40 XOR tail_byte tail 4 32 XOR tail_byte tail 3 24 XOR
                 tail_byte tail 2 16 XOR tail_byte tail 1 8 XOR tail_byte tail 0 0)
                 * 0x87c37b91114253d5) 31 * 0x4cf5ad432745937f
               else h1)
     in (h1, h2))"

definition x64_128_spread :: "pair64 \<Rightarrow> pair64" where
  "x64_128_spread = (\<lambda>(h1, h2). let h1 = h1 + h2 in (h1, h2 + h1))"

definition MurmurHash3_x64_128 :: "bytes \<Rightarrow> u32 \<Rightarrow> pair64" where
  "MurmurHash3_x64_128 key seed =
     (let (h, tail) = x64_128_loop (ucast seed, ucast seed) key;
          (h1, h2) = x64_128_tail h tail; len = of_nat (length key);
          (h1, h2) = x64_128_spread (h1 XOR len, h2 XOR len)
      in x64_128_spread (fmix64 h1, fmix64 h2))"

section \<open>Invertible word operations\<close>

lemma xorshift_inj:
  fixes v w :: "'a::len word"
  assumes "w XOR drop_bit k w = v XOR drop_bit k v" "0 < k"
  shows "w = v"
proof (rule bit_word_eqI)
  fix n
  show "bit w n \<longleftrightarrow> bit v n"
  proof (induction "LENGTH('a) - n" arbitrary: n rule: less_induct)
    case less
    have "bit (w XOR drop_bit k w) n \<longleftrightarrow> bit (v XOR drop_bit k v) n" using assms(1) by simp
    then have x: "(bit w n \<noteq> bit w (k + n)) \<longleftrightarrow> (bit v n \<noteq> bit v (k + n))" by (simp add: bit_simps)
    show ?case
    proof (cases "n < LENGTH('a)")
      case True
      then have "bit w (k + n) \<longleftrightarrow> bit v (k + n)" using less [of "k + n"] assms(2) by simp
      with x show ?thesis by blast
    qed (auto dest: bit_imp_le_length)
  qed
qed

lemma mult_unit_inj:
  fixes v w c d :: "'a::len word"
  assumes "c * d = 1" "v * c = w * c"
  shows "v = w"
  by (metis assms mult.assoc mult.right_neutral)

lemma xor_right_inj: "(v :: 'a::len word) XOR x = w XOR x \<Longrightarrow> v = w"
  by (metis xor.assoc xor_self_eq xor.right_neutral)

lemma xor_left_inj: "(x :: 'a::len word) XOR v = x XOR w \<Longrightarrow> v = w"
  by (metis xor.commute xor_right_inj)

lemma bit_rotl32:
  assumes "0 < r" "r < 32" "n < 32"
  shows "bit (rotl32 x r) (if n + r < 32 then n + r else n + r - 32) \<longleftrightarrow> bit x n"
  using assms by (auto simp: rotl32_def bit_simps dest: bit_imp_le_length)

lemma bit_rotl64:
  assumes "0 < r" "r < 64" "n < 64"
  shows "bit (rotl64 x r) (if n + r < 64 then n + r else n + r - 64) \<longleftrightarrow> bit x n"
  using assms by (auto simp: rotl64_def bit_simps dest: bit_imp_le_length)

lemma rotl32_inj: "rotl32 v r = rotl32 w r \<Longrightarrow> 0 < r \<Longrightarrow> r < 32 \<Longrightarrow> v = w"
  by (rule bit_word_eqI) (simp, metis bit_rotl32)

lemma rotl64_inj: "rotl64 v r = rotl64 w r \<Longrightarrow> 0 < r \<Longrightarrow> r < 64 \<Longrightarrow> v = w"
  by (rule bit_word_eqI) (simp, metis bit_rotl64)

text \<open>The odd multipliers are units; each line uses the inverse modulo the word size.\<close>

lemma mult_inj32:
  fixes v w :: u32
  shows "v * 0x5bd1e995 = w * 0x5bd1e995 \<Longrightarrow> v = w"
    and "v * 0x85ebca6b = w * 0x85ebca6b \<Longrightarrow> v = w"
    and "v * 0xc2b2ae35 = w * 0xc2b2ae35 \<Longrightarrow> v = w"
    and "v * 0xcc9e2d51 = w * 0xcc9e2d51 \<Longrightarrow> v = w"
    and "v * 0x1b873593 = w * 0x1b873593 \<Longrightarrow> v = w"
    and "v * 0x239b961b = w * 0x239b961b \<Longrightarrow> v = w"
    and "v * 0xab0e9789 = w * 0xab0e9789 \<Longrightarrow> v = w"
    and "v * 0x38b34ae5 = w * 0x38b34ae5 \<Longrightarrow> v = w"
    and "v * 0xa1e38b93 = w * 0xa1e38b93 \<Longrightarrow> v = w"
    and "v * 0x5 = w * 0x5 \<Longrightarrow> v = w"
  by (erule mult_unit_inj [rotated, where d = "0xe59b19bd"], simp,
      erule mult_unit_inj [rotated, where d = "0xa5cb9243"], simp,
      erule mult_unit_inj [rotated, where d = "0x7ed1b41d"], simp,
      erule mult_unit_inj [rotated, where d = "0xdee13bb1"], simp,
      erule mult_unit_inj [rotated, where d = "0x56ed309b"], simp,
      erule mult_unit_inj [rotated, where d = "0x89c95413"], simp,
      erule mult_unit_inj [rotated, where d = "0xdf130eb9"], simp,
      erule mult_unit_inj [rotated, where d = "0x747862ed"], simp,
      erule mult_unit_inj [rotated, where d = "0x58d64a9b"], simp,
      erule mult_unit_inj [rotated, where d = "0xcccccccd"], simp)

lemma mult_inj64:
  fixes v w :: u64
  shows "v * 0xff51afd7ed558ccd = w * 0xff51afd7ed558ccd \<Longrightarrow> v = w"
    and "v * 0xc4ceb9fe1a85ec53 = w * 0xc4ceb9fe1a85ec53 \<Longrightarrow> v = w"
    and "v * 0x87c37b91114253d5 = w * 0x87c37b91114253d5 \<Longrightarrow> v = w"
    and "v * 0x4cf5ad432745937f = w * 0x4cf5ad432745937f \<Longrightarrow> v = w"
    and "v * 0x5 = w * 0x5 \<Longrightarrow> v = w"
  by (erule mult_unit_inj [rotated, where d = "0x4f74430c22a54005"], simp,
      erule mult_unit_inj [rotated, where d = "0x9cb4b2f8129337db"], simp,
      erule mult_unit_inj [rotated, where d = "0xa98409e882ce4d7d"], simp,
      erule mult_unit_inj [rotated, where d = "0xa81e14edd9de2c7f"], simp,
      erule mult_unit_inj [rotated, where d = "0xcccccccccccccccd"], simp)

lemmas inj32 = xorshift_inj [where 'a = 32] mult_inj32 rotl32_inj xor_left_inj [where 'a = 32]
  xor_right_inj [where 'a = 32]
lemmas inj64 = xorshift_inj [where 'a = 64] mult_inj64 rotl64_inj xor_left_inj [where 'a = 64]
  xor_right_inj [where 'a = 64]

lemma fmix32_inj: "fmix32 v = fmix32 w \<Longrightarrow> v = w"
  by (auto simp: fmix32_def Let_def dest!: inj32)

lemma fmix64_inj: "fmix64 v = fmix64 w \<Longrightarrow> v = w"
  by (auto simp: fmix64_def Let_def dest!: inj64)

lemma Hash_mix_inj: "Hash_mix v = Hash_mix w \<Longrightarrow> v = w"
  by (auto simp: Hash_mix_def murmur_m_def Let_def dest!: inj32)

lemma Hash_final_inj: "Hash_final v = Hash_final w \<Longrightarrow> v = w"
  by (auto simp: Hash_final_def murmur_m_def Let_def dest!: inj32)

lemma x86_32_block_inj: "x86_32_block h k = x86_32_block h k' \<Longrightarrow> k = k'"
  by (auto simp: x86_32_block_def Let_def dest!: inj32)

lemma x64_128_block_inj: "x64_128_block h k = x64_128_block h k' \<Longrightarrow> k = k'"
  by (cases h; cases k; cases k') (auto simp: x64_128_block_def Let_def dest!: inj64)

lemma x64_128_spread_inj: "x64_128_spread h = x64_128_spread h' \<Longrightarrow> h = h'"
proof -
  assume a: "x64_128_spread h = x64_128_spread h'"
  obtain a b c d where h: "h = (a, b)" "h' = (c, d)" by (metis surj_pair)
  have "a + b = c + d \<and> b + (a + b) = d + (c + d)"
    using a unfolding h x64_128_spread_def Let_def prod.case prod.inject .
  then show ?thesis unfolding h by (metis add_right_cancel)
qed

lemma load32_bytes:
  "ucast (load32 a b c d) = a" "ucast (drop_bit 8 (load32 a b c d)) = b"
  "ucast (drop_bit 16 (load32 a b c d)) = c" "ucast (drop_bit 24 (load32 a b c d)) = d"
  unfolding load32_def by (intro bit_word_eqI; simp add: bit_simps bit_u8_beyond)+

lemma load32_inj: "load32 a b c d = load32 a' b' c' d' \<Longrightarrow> [a, b, c, d] = [a', b', c', d']"
  by (metis load32_bytes)

lemma load64_Cons: "load64 (b # bs) = ucast b OR push_bit 8 (load64 bs)"
  by (simp add: load64_def)

lemma bit_load64: "bit (load64 bs) n \<Longrightarrow> n < 8 * length bs"
  by (induction bs arbitrary: n) (fastforce simp: load64_Cons bit_simps load64_def dest: bit_imp_le_length)+

lemma load64_low: "ucast (load64 (x # xs)) = x"
  unfolding load64_Cons by (intro bit_word_eqI) (simp add: bit_simps)

lemma load64_high: "length xs \<le> 7 \<Longrightarrow> drop_bit 8 (load64 (x # xs)) = load64 xs"
proof (rule bit_word_eqI)
  fix n assume l: "length xs \<le> 7"
  show "bit (drop_bit 8 (load64 (x # xs))) n \<longleftrightarrow> bit (load64 xs) n"
    using l bit_load64 [of xs n] by (auto simp: load64_Cons bit_simps bit_u8_beyond)
qed

lemma load64_inj: "length bs = length cs \<Longrightarrow> length bs \<le> 8 \<Longrightarrow> load64 bs = load64 cs \<Longrightarrow> bs = cs"
proof (induction bs cs rule: list_induct2)
  case (Cons b bs c cs)
  then have l: "length bs \<le> 7" "length cs \<le> 7" by simp_all
  have "load64 bs = load64 cs"
    using load64_high [OF l(1), of b] load64_high [OF l(2), of c] Cons.prems(2) by simp
  with Cons.IH l(1) have "bs = cs" by simp
  moreover have "b = c" using load64_low [of b bs] load64_low [of c cs] Cons.prems(2) by simp
  ultimately show ?case by simp
qed simp

section \<open>Properties\<close>

text \<open>C38. MurmurHash2, the hash of the LRU cache and the bloom filters, is injective on four-byte keys
  for every seed: two different 32-bit page ids never get the same hash.\<close>

theorem Hash_inj_on_4_bytes:
  assumes "length k1 = 4" "length k2 = 4" "Hash k1 seed = Hash k2 seed"
  shows "k1 = k2"
proof -
  obtain a b c d a' b' c' d' where k: "k1 = [a, b, c, d]" "k2 = [a', b', c', d']"
    using assms(1,2) by (auto simp: numeral_eq_Suc length_Suc_conv)
  have "load32 a b c d = load32 a' b' c' d'"
    using assms(3) by (auto simp: k Hash_def dest!: Hash_final_inj xor_left_inj Hash_mix_inj)
  then show ?thesis unfolding k by (rule load32_inj)
qed

theorem Hash_inj_on_4_bytes_witness: "Hash [1, 0, 0, 0] 5381 \<noteq> Hash [2, 0, 0, 0] 5381"
  using Hash_inj_on_4_bytes [of "[1, 0, 0, 0]" "[2, 0, 0, 0]" 5381] by auto

text \<open>C39. MurmurHash3 has no collisions among keys of one block: the 32-bit variant is injective on
  four-byte keys and the 128-bit variant for 64-bit machines on sixteen-byte keys, for every
  seed. The finalisers \<^verbatim>\<open>fmix32\<close> and \<^verbatim>\<open>fmix64\<close> are injective, so they lose no information.\<close>

theorem MurmurHash3_inj_on_one_block:
  "inj fmix32 \<and> inj fmix64 \<and>
   (length k1 = 4 \<and> length k2 = 4 \<and> MurmurHash3_x86_32 k1 seed = MurmurHash3_x86_32 k2 seed \<longrightarrow> k1 = k2) \<and>
   (length l1 = 16 \<and> length l2 = 16 \<and> MurmurHash3_x64_128 l1 seed = MurmurHash3_x64_128 l2 seed \<longrightarrow> l1 = l2)"
proof (intro conjI impI)
  show "inj fmix32" "inj fmix64" by (auto intro: injI dest: fmix32_inj fmix64_inj)
next
  assume a: "length k1 = 4 \<and> length k2 = 4 \<and> MurmurHash3_x86_32 k1 seed = MurmurHash3_x86_32 k2 seed"
  then obtain a b c d a' b' c' d' where k: "k1 = [a, b, c, d]" "k2 = [a', b', c', d']"
    by (auto simp: numeral_eq_Suc length_Suc_conv)
  have "load32 a b c d = load32 a' b' c' d'"
    using a by (auto simp: k MurmurHash3_x86_32_def x86_32_tail_def
        dest!: fmix32_inj xor_right_inj x86_32_block_inj)
  then show "k1 = k2" unfolding k by (rule load32_inj)
next
  assume a: "length l1 = 16 \<and> length l2 = 16 \<and> MurmurHash3_x64_128 l1 seed = MurmurHash3_x64_128 l2 seed"
  have split: "x64_128_loop h l = (x64_128_block h (load64 (take 8 l), load64 (drop 8 l)), [])"
    if "length l = 16" for h l
    using that by (auto simp: numeral_eq_Suc length_Suc_conv)
  have "(load64 (take 8 l1), load64 (drop 8 l1)) = (load64 (take 8 l2), load64 (drop 8 l2))"
    using a by (auto simp: MurmurHash3_x64_128_def x64_128_tail_def split Let_def split: prod.splits
        dest!: x64_128_spread_inj fmix64_inj)
      (metis prod.inject x64_128_spread_inj xor_right_inj x64_128_block_inj)+
  then have "take 8 l1 = take 8 l2" "drop 8 l1 = drop 8 l2"
    using a load64_inj [of "take 8 l1" "take 8 l2"] load64_inj [of "drop 8 l1" "drop 8 l2"] by auto
  then show "l1 = l2" by (metis append_take_drop_id)
qed

theorem MurmurHash3_inj_on_one_block_witness:
  "MurmurHash3_x86_32 [1, 2, 3, 4] 7 \<noteq> MurmurHash3_x86_32 [1, 2, 3, 5] 7 \<and>
   MurmurHash3_x64_128 (replicate 16 0) 7 \<noteq> MurmurHash3_x64_128 (replicate 16 1) 7"
  using MurmurHash3_inj_on_one_block [of "[1, 2, 3, 4]" "[1, 2, 3, 5]" 7 "replicate 16 0" "replicate 16 1"]
  by (auto simp: numeral_eq_Suc)

end
