(* ===== verification/Bloom_Filters.thy ===== *)
theory Bloom_Filters
  imports Complex_Main Murmur
begin

text \<open>
  The two bloom filters: \<^verbatim>\<open>cpp-util/bloomfilter.h\<close> (a filter serialised behind a string, built
  from a batch of keys) and \<^verbatim>\<open>cpp-util/bloom.h\<close> (a filter object with incremental insertion).

  Both hash with MurmurHash2 and probe a byte array. The reads and writes of the array are checked
  accesses, so a result \<^const>\<open>None\<close> would be an access outside the array. The interface
  \<open>approx_set\<close> states what clients rely on; both filters interpret it, and the absence of false
  negatives is proved once from its laws.
\<close>

section \<open>The interface of a set with one-sided error\<close>

primrec add_all :: "('k \<Rightarrow> 'f \<Rightarrow> 'f option) \<Rightarrow> 'k list \<Rightarrow> 'f \<Rightarrow> 'f option" where
  "add_all add [] f = Some f"
| "add_all add (k # ks) f = do { f' \<leftarrow> add k f; add_all add ks f' }"

locale approx_set =
  fixes add :: "'k \<Rightarrow> 'f \<Rightarrow> 'f option"
    and test :: "'k \<Rightarrow> 'f \<Rightarrow> bool option"
    and wf :: "'f \<Rightarrow> bool"
  assumes add_ok: "wf f \<Longrightarrow> \<exists>f'. add k f = Some f' \<and> wf f' \<and> test k f' = Some True"
    and add_mono: "wf f \<Longrightarrow> add k f = Some f' \<Longrightarrow> test k' f = Some True \<Longrightarrow> test k' f' = Some True"
    and test_ok: "wf f \<Longrightarrow> \<exists>b. test k f = Some b"
begin

lemma add_all_mono:
  "wf f \<Longrightarrow> test k' f = Some True \<Longrightarrow> \<exists>f'. add_all add ks f = Some f' \<and> wf f' \<and> test k' f' = Some True"
proof (induction ks arbitrary: f)
  case (Cons k ks)
  from add_ok [OF Cons.prems(1), of k] obtain f1 where f1: "add k f = Some f1" "wf f1" by blast
  with Cons.IH [OF f1(2)] add_mono [OF Cons.prems(1) f1(1) Cons.prems(2)] show ?case by simp
qed simp

lemma no_false_negatives:
  "wf f \<Longrightarrow> \<exists>f'. add_all add ks f = Some f' \<and> wf f' \<and> (\<forall>k\<in>set ks. test k f' = Some True)"
proof (induction ks arbitrary: f)
  case (Cons k ks)
  from add_ok [OF Cons.prems, of k] obtain f1
    where f1: "add k f = Some f1" "wf f1" "test k f1 = Some True" by blast
  from add_all_mono [OF f1(2,3), of ks] Cons.IH [OF f1(2)] f1(1) show ?case by auto
qed simp

end

section \<open>BloomFilter\<close>

record BloomFilter =
  bits_per_key :: nat
  num_probes :: nat

text \<open>\<^verbatim>\<open>bits_per_key * 0.69\<close> is a double product truncated to \<^verbatim>\<open>size_t\<close>; below the cap of 30 it is
  never within rounding distance of an integer, so it is \<open>69 * bits_per_key div 100\<close>.\<close>

definition BloomFilter_new :: "nat \<Rightarrow> BloomFilter" where
  "BloomFilter_new n =
     (let k = n * 69 div 100; k = (if k < 1 then 1 else k); k = (if k > 30 then 30 else k)
      in \<lparr>bits_per_key = n, num_probes = k\<rparr>)"

definition BloomHash :: "bytes \<Rightarrow> u32" where
  "BloomHash key = Hash key 0xbc9f1d34"

definition bloom_delta :: "u32 \<Rightarrow> u32" where
  "bloom_delta h = drop_bit 17 h OR push_bit 15 h"

fun set_probes :: "nat \<Rightarrow> u32 \<Rightarrow> u32 \<Rightarrow> nat \<Rightarrow> bytes \<Rightarrow> bytes option" where
  "set_probes 0 h delta bits array = Some array"
| "set_probes (Suc j) h delta bits array =
     (let bitpos = unat h mod bits in do {
        b \<leftarrow> rd array (bitpos div 8);
        array' \<leftarrow> wr array (bitpos div 8) (b OR push_bit (bitpos mod 8) 1);
        set_probes j (h + delta) delta bits array' })"

fun test_probes :: "nat \<Rightarrow> u32 \<Rightarrow> u32 \<Rightarrow> nat \<Rightarrow> bytes \<Rightarrow> bool option" where
  "test_probes 0 h delta bits array = Some True"
| "test_probes (Suc j) h delta bits array =
     (let bitpos = unat h mod bits in do {
        b \<leftarrow> rd array (bitpos div 8);
        if b AND push_bit (bitpos mod 8) 1 = 0 then Some False
        else test_probes j (h + delta) delta bits array })"

fun set_keys :: "nat \<Rightarrow> nat \<Rightarrow> bytes list \<Rightarrow> bytes \<Rightarrow> bytes option" where
  "set_keys k bits [] array = Some array"
| "set_keys k bits (key # keys) array =
     (let h = BloomHash key in do {
        array' \<leftarrow> set_probes k h (bloom_delta h) bits array;
        set_keys k bits keys array' })"

definition CreateFilter :: "BloomFilter \<Rightarrow> bytes list \<Rightarrow> bytes \<Rightarrow> bytes option" where
  "CreateFilter bf keys dst =
     (let bits = length keys * bits_per_key bf;
          bits = (if bits < 64 then 64 else bits);
          nbytes = (bits + 7) div 8;
          bits = nbytes * 8
      in do {
        array \<leftarrow> set_keys (num_probes bf) bits keys (replicate nbytes 0);
        Some (dst @ array @ [of_nat (num_probes bf)]) })"

text \<open>The probe count is read back from the last byte of the filter; as a \<^verbatim>\<open>char\<close> of 128 or more it
  is sign-extended to a huge \<^verbatim>\<open>size_t\<close>, which the test \<^verbatim>\<open>k > 30\<close> catches like any other count
  above 30.\<close>

definition SetKey :: "bytes \<Rightarrow> bytes \<Rightarrow> bytes option" where
  "SetKey key bloom_filter =
     (let len = length bloom_filter in
      if len < 2 then Some bloom_filter
      else let bits = (len - 1) * 8; k = unat (bloom_filter ! (len - 1)) in
        if k > 30 then Some bloom_filter
        else let h = BloomHash key in set_probes k h (bloom_delta h) bits bloom_filter)"

definition KeyMayMatch :: "bytes \<Rightarrow> bytes \<Rightarrow> bool option" where
  "KeyMayMatch key bloom_filter =
     (let len = length bloom_filter in
      if len < 2 then Some False
      else let bits = (len - 1) * 8; k = unat (bloom_filter ! (len - 1)) in
        if k > 30 then Some True
        else let h = BloomHash key in test_probes k h (bloom_delta h) bits bloom_filter)"

section \<open>Bloom\<close>

record Bloom =
  total_bits :: u64
  total_bytes :: nat
  hashes :: u8
  bdata :: bytes

datatype BloomStatus = ERROR | OK | kNotExist | kMayExist

text \<open>The enumerators \<^verbatim>\<open>OK\<close> and \<^verbatim>\<open>kNotExist\<close> share the value 0.\<close>

fun status_val :: "BloomStatus \<Rightarrow> int" where
  "status_val ERROR = -1"
| "status_val OK = 0"
| "status_val kNotExist = 0"
| "status_val kMayExist = 1"

text \<open>\<^verbatim>\<open>Init\<close> computes the number of bits and of probes in double arithmetic with \<^verbatim>\<open>log\<close>; the two
  results after truncation to \<^verbatim>\<open>uint64_t\<close> and \<^verbatim>\<open>uint8_t\<close> are the arguments \<open>tb\<close> and \<open>hs\<close>.
  The last argument says whether \<^verbatim>\<open>calloc\<close> succeeds.\<close>

definition Bloom_Init :: "nat \<Rightarrow> rat \<Rightarrow> u64 \<Rightarrow> u8 \<Rightarrow> bool \<Rightarrow> BloomStatus \<times> Bloom option" where
  "Bloom_Init exp_entries error_rate tb hs calloc_ok =
     (if exp_entries < 1000 \<or> error_rate \<le> 0 \<or> error_rate \<ge> 1 then (ERROR, None)
      else
        let nbytes = (if unat tb mod 8 \<noteq> 0 then unat tb div 8 + 1 else unat tb div 8) in
        if \<not> calloc_ok then (ERROR, None)
        else (OK, Some \<lparr>total_bits = tb, total_bytes = nbytes, hashes = hs,
                        bdata = replicate nbytes 0\<rparr>))"

definition Bloom_Reset :: "Bloom \<Rightarrow> Bloom" where
  "Bloom_Reset b = b\<lparr>bdata := replicate (total_bytes b) 0\<rparr>"

definition test_bit_set_bit :: "bytes \<Rightarrow> nat \<Rightarrow> bool \<Rightarrow> (bool \<times> bytes) option" where
  "test_bit_set_bit buf bitno is_set =
     do { c \<leftarrow> rd buf (bitno div 8);
          let mask = push_bit (bitno mod 8) 1 in
          if c AND mask \<noteq> 0 then Some (True, buf)
          else if is_set then do { buf' \<leftarrow> wr buf (bitno div 8) (c OR mask); Some (False, buf') }
          else Some (False, buf) }"

text \<open>The probing loop: \<open>i\<close> counts up to \<open>n\<close>; \<^const>\<open>Inl\<close> is the early return
  \<^verbatim>\<open>kNotExist\<close>, \<^const>\<open>Inr\<close> the number of hits at the end. A division by
  \<^verbatim>\<open>total_bits_ = 0\<close> traps.\<close>

function CheckAdd_loop ::
  "u32 \<Rightarrow> u32 \<Rightarrow> u64 \<Rightarrow> bool \<Rightarrow> nat \<Rightarrow> nat \<Rightarrow> u8 \<Rightarrow> bytes \<Rightarrow> ((unit + u8) \<times> bytes) option" where
  "CheckAdd_loop a b tb add n i hits buf =
     (if i < n then
        if tb = 0 then None
        else
          let x = (ucast a + ucast b * of_nat i) mod tb in
          (case test_bit_set_bit buf (unat x) add of
             None \<Rightarrow> None
           | Some (hit, buf') \<Rightarrow>
               if hit then CheckAdd_loop a b tb add n (i + 1) (hits + 1) buf'
               else if \<not> add then Some (Inl (), buf')
               else CheckAdd_loop a b tb add n (i + 1) hits buf')
      else Some (Inr hits, buf))"
  by pat_completeness auto
termination
  by (relation "measure (\<lambda>(a, b, tb, add, n, i, hits, buf). n - i)") auto

definition CheckAdd :: "bytes \<Rightarrow> bool \<Rightarrow> Bloom \<Rightarrow> (BloomStatus \<times> Bloom) option" where
  "CheckAdd buffer add bl =
     (let a = Hash buffer 0x9747b28c; b = Hash buffer a in do {
        (r, buf) \<leftarrow> CheckAdd_loop a b (total_bits bl) add (unat (hashes bl)) 0 0 (bdata bl);
        Some (case r of
            Inl _ \<Rightarrow> kNotExist
          | Inr hits \<Rightarrow> if hits = hashes bl then kMayExist else OK, bl\<lparr>bdata := buf\<rparr>) })"

definition Bloom_Add :: "bytes \<Rightarrow> Bloom \<Rightarrow> (BloomStatus \<times> Bloom) option" where
  "Bloom_Add buffer bl = CheckAdd buffer True bl"

definition Bloom_Check :: "bytes \<Rightarrow> Bloom \<Rightarrow> (BloomStatus \<times> Bloom) option" where
  "Bloom_Check buffer bl = CheckAdd buffer False bl"

section \<open>Bit arrays that only grow\<close>

definition bits_le :: "bytes \<Rightarrow> bytes \<Rightarrow> bool" where
  "bits_le a b \<longleftrightarrow> length a = length b \<and> (\<forall>i<length a. \<forall>n. bit (a ! i) n \<longrightarrow> bit (b ! i) n)"

lemma bits_le_refl [simp]: "bits_le a a"
  by (simp add: bits_le_def)

lemma bits_le_trans: "bits_le a b \<Longrightarrow> bits_le b c \<Longrightarrow> bits_le a c"
  by (simp add: bits_le_def)

lemma bits_le_length: "bits_le a b \<Longrightarrow> length b = length a"
  by (simp add: bits_le_def)

lemma bits_le_set: "bits_le a (a[i := a ! i OR x])"
  by (cases "i < length a") (auto simp: bits_le_def nth_list_update bit_simps)

lemma bits_leD: "bits_le a b \<Longrightarrow> i < length a \<Longrightarrow> bit (a ! i) n \<Longrightarrow> bit (b ! i) n"
  by (simp add: bits_le_def)

lemma probe_in_range: "0 < bits \<Longrightarrow> bits \<le> 8 * length array \<Longrightarrow> (x mod bits) div 8 < length array"
proof -
  assume "0 < bits" "bits \<le> 8 * length array"
  then have "x mod bits < length array * 8" by (metis mod_less_divisor mult.commute order_less_le_trans)
  then show ?thesis by (simp add: div_less_iff_less_mult)
qed

lemma test_probes_total:
  "0 < bits \<Longrightarrow> bits \<le> 8 * length array \<Longrightarrow> \<exists>r. test_probes k h d bits array = Some r"
  by (induction k arbitrary: h) (auto simp: Let_def probe_in_range)

lemma test_probes_mono:
  "bits_le a b \<Longrightarrow> test_probes k h d bits a = Some True \<Longrightarrow> test_probes k h d bits b = Some True"
proof (induction k arbitrary: h)
  case (Suc k)
  then show ?case
    by (auto simp: Let_def rd_def and_exp_eq_0_iff_not_bit bits_le_length
        dest: bits_leD split: if_splits)
qed simp

lemma set_probes_spec:
  assumes "0 < bits" "bits \<le> 8 * length array"
  shows "\<exists>a. set_probes k h d bits array = Some a \<and> bits_le array a \<and>
    test_probes k h d bits a = Some True \<and> (\<forall>i. bits \<le> 8 * i \<longrightarrow> a ! i = array ! i)"
  using assms
proof (induction k arbitrary: h array)
  case (Suc k)
  let ?p = "unat h mod bits"
  let ?i = "?p div 8"
  let ?a1 = "array[?i := array ! ?i OR push_bit (?p mod 8) 1]"
  have i: "?i < length array" using Suc.prems by (rule probe_in_range)
  from Suc.IH [of ?a1 "h + d"] Suc.prems obtain a where
    a: "set_probes k (h + d) d bits ?a1 = Some a" "bits_le ?a1 a"
      "test_probes k (h + d) d bits a = Some True" "\<forall>i. bits \<le> 8 * i \<longrightarrow> a ! i = ?a1 ! i"
    by auto
  have "bit (?a1 ! ?i) (?p mod 8)" using i by (simp add: bit_simps)
  then have "bit (a ! ?i) (?p mod 8)" using a(2) i by (auto intro: bits_leD)
  moreover have "bits_le array a" using a(2) bits_le_set bits_le_trans by blast
  moreover have "?p < bits" using Suc.prems by simp
  ultimately show ?case
    using i a by (auto simp: Let_def and_exp_eq_0_iff_not_bit bits_le_length nth_list_update)
qed simp

section \<open>BloomFilter: lemmas\<close>

lemma set_keys_spec:
  assumes "0 < bits" "bits \<le> 8 * length array"
  shows "\<exists>a. set_keys k bits keys array = Some a \<and> bits_le array a \<and>
    (\<forall>key\<in>set keys. test_probes k (BloomHash key) (bloom_delta (BloomHash key)) bits a = Some True)"
  using assms
proof (induction keys arbitrary: array)
  case (Cons key keys)
  let ?h = "BloomHash key"
  from set_probes_spec [OF Cons.prems, of k ?h "bloom_delta ?h"] obtain a1 where
    a1: "set_probes k ?h (bloom_delta ?h) bits array = Some a1" "bits_le array a1"
      "test_probes k ?h (bloom_delta ?h) bits a1 = Some True" by blast
  from Cons.IH [of a1] Cons.prems a1(2) obtain a where
    "set_keys k bits keys a1 = Some a" "bits_le a1 a"
    "\<forall>key\<in>set keys. test_probes k (BloomHash key) (bloom_delta (BloomHash key)) bits a = Some True"
    by (auto simp: bits_le_length)
  with a1 show ?case by (auto simp: Let_def intro: bits_le_trans test_probes_mono)
qed simp

lemma num_probes_bounds: "1 \<le> num_probes (BloomFilter_new n)" "num_probes (BloomFilter_new n) \<le> 30"
  by (auto simp: BloomFilter_new_def Let_def)

text \<open>A probe only looks at the first \<open>bits\<close> bits, so appending the probe count changes nothing.\<close>

lemma test_probes_append:
  "0 < bits \<Longrightarrow> bits \<le> 8 * length a \<Longrightarrow> test_probes k h d bits (a @ b) = test_probes k h d bits a"
  by (induction k arbitrary: h) (auto simp: Let_def probe_in_range rd_def nth_append trans_less_add1)

definition filter_wf :: "bytes \<Rightarrow> bool" where
  "filter_wf f \<longleftrightarrow> 2 \<le> length f \<and> unat (last f) \<le> 30"

lemma nth_length_minus_1: "2 \<le> length f \<Longrightarrow> f ! (length f - Suc 0) = last f"
  by (cases f) (simp_all add: last_conv_nth)

interpretation bf: approx_set SetKey KeyMayMatch filter_wf
proof
  fix f and k k' :: bytes
  assume wf: "filter_wf f"
  let ?bits = "(length f - 1) * 8"
  have bits: "0 < ?bits" "?bits \<le> 8 * length f" using wf by (auto simp: filter_wf_def)
  let ?n = "unat (last f)"
  have match: "KeyMayMatch k g = test_probes ?n (BloomHash k) (bloom_delta (BloomHash k)) ?bits g"
    if "length g = length f" "last g = last f" for g k
    using wf that nth_length_minus_1 [of g] by (simp add: KeyMayMatch_def filter_wf_def Let_def)
  have set: "SetKey k f = set_probes ?n (BloomHash k) (bloom_delta (BloomHash k)) ?bits f"
    using wf nth_length_minus_1 [of f] by (simp add: SetKey_def filter_wf_def Let_def)
  from set_probes_spec [OF bits, of ?n "BloomHash k" "bloom_delta (BloomHash k)"] obtain a where
    a: "SetKey k f = Some a" "bits_le f a"
      "test_probes ?n (BloomHash k) (bloom_delta (BloomHash k)) ?bits a = Some True"
      "\<forall>i. ?bits \<le> 8 * i \<longrightarrow> a ! i = f ! i" unfolding set by blast
  have la: "length a = length f" "last a = last f"
    using a wf nth_length_minus_1 [of f] nth_length_minus_1 [of a]
    by (auto simp: bits_le_length filter_wf_def)
  show "\<exists>f'. SetKey k f = Some f' \<and> filter_wf f' \<and> KeyMayMatch k f' = Some True"
    using a la wf by (auto simp: match filter_wf_def)
  show "\<exists>b. KeyMayMatch k f = Some b"
    using test_probes_total [OF bits] by (simp add: match)
  fix f' assume "SetKey k f = Some f'" "KeyMayMatch k' f = Some True"
  then show "KeyMayMatch k' f' = Some True"
    using a la by (auto simp: match intro: test_probes_mono)
qed

section \<open>Bloom: lemmas\<close>

declare CheckAdd_loop.simps [simp del]

definition Bloom_wf :: "Bloom \<Rightarrow> bool" where
  "Bloom_wf bl \<longleftrightarrow> total_bits bl \<noteq> 0 \<and> length (bdata bl) = total_bytes bl \<and>
     unat (total_bits bl) \<le> 8 * total_bytes bl"

definition probe_pos :: "u32 \<Rightarrow> u32 \<Rightarrow> u64 \<Rightarrow> nat \<Rightarrow> nat" where
  "probe_pos a b tb i = unat ((ucast a + ucast b * of_nat i) mod tb :: u64)"

definition probe_set :: "bytes \<Rightarrow> nat \<Rightarrow> bool" where
  "probe_set buf x \<longleftrightarrow> bit (buf ! (x div 8)) (x mod 8)"

lemma probe_pos_in_range:
  assumes "tb \<noteq> 0" "unat tb \<le> 8 * length buf"
  shows "probe_pos a b tb i div 8 < length buf"
proof -
  have "probe_pos a b tb i < unat tb"
    using assms(1) by (simp add: probe_pos_def unat_mod unat_gt_0)
  with assms(2) show ?thesis by (simp add: div_less_iff_less_mult)
qed

lemma test_bit_set_bit_spec:
  assumes "x div 8 < length buf"
  shows "test_bit_set_bit buf x add =
    Some (probe_set buf x,
      if add then buf[x div 8 := buf ! (x div 8) OR 2 ^ (x mod 8)] else buf)"
proof -
  have "buf ! (x div 8) OR 2 ^ (x mod 8) = buf ! (x div 8)" if "probe_set buf x"
    using that by (intro bit_word_eqI) (auto simp: probe_set_def bit_simps)
  then show ?thesis
    using assms by (auto simp: test_bit_set_bit_def probe_set_def and_exp_eq_0_iff_not_bit)
qed

lemma probe_set_mono:
  "bits_le a b \<Longrightarrow> x div 8 < length a \<Longrightarrow> probe_set a x \<Longrightarrow> probe_set b x"
  by (auto simp: probe_set_def intro: bits_leD)

lemma CheckAdd_loop_check:
  assumes "tb \<noteq> 0" "unat tb \<le> 8 * length buf"
  shows "CheckAdd_loop a b tb False n i hits buf =
    Some (if \<forall>j\<in>{i..<n}. probe_set buf (probe_pos a b tb j) then Inr (hits + of_nat (n - i)) else Inl (), buf)"
proof (induction "n - i" arbitrary: i hits)
  case 0
  then show ?case by (simp add: CheckAdd_loop.simps [of a b tb False n i hits buf])
next
  case (Suc m)
  then have i: "i < n" and m: "m = n - Suc i" by simp_all
  have t: "test_bit_set_bit buf (probe_pos a b tb i) False = Some (probe_set buf (probe_pos a b tb i), buf)"
    using probe_pos_in_range [OF assms] by (simp add: test_bit_set_bit_spec)
  have iv: "{i..<n} = insert i {Suc i..<n}" using i by auto
  have "n - i = Suc (n - Suc i)" using i by simp
  then have "hits + of_nat (n - i) = hits + 1 + of_nat (n - Suc i)" by (simp only: of_nat_Suc add.assoc)
  with t i assms(1) Suc.hyps(1) [OF m] show ?case
    by (auto simp: CheckAdd_loop.simps [of a b tb False n i hits buf] Let_def iv simp flip: probe_pos_def)
qed

lemma CheckAdd_loop_add:
  assumes "tb \<noteq> 0" "unat tb \<le> 8 * length buf"
  shows "\<exists>hits' buf'. CheckAdd_loop a b tb True n i hits buf = Some (Inr hits', buf') \<and> bits_le buf buf' \<and>
    (\<forall>j\<in>{i..<n}. probe_set buf' (probe_pos a b tb j))"
  using assms(2)
proof (induction "n - i" arbitrary: i hits buf)
  case 0
  then show ?case by (simp add: CheckAdd_loop.simps [of a b tb True n i hits buf])
next
  case (Suc m)
  let ?x = "probe_pos a b tb i"
  let ?buf1 = "buf[?x div 8 := buf ! (?x div 8) OR 2 ^ (?x mod 8)]"
  have i: "i < n" and m: "m = n - Suc i" using Suc.hyps(2) by simp_all
  have r: "?x div 8 < length buf" using assms(1) Suc.prems by (rule probe_pos_in_range)
  from Suc.hyps(1) [OF m, of ?buf1] Suc.prems obtain h b' where
    IH: "CheckAdd_loop a b tb True n (i + 1) (if probe_set buf ?x then hits + 1 else hits) ?buf1 = Some (Inr h, b')"
      "bits_le ?buf1 b'" "\<forall>j\<in>{Suc i..<n}. probe_set b' (probe_pos a b tb j)"
    by fastforce
  have "probe_set ?buf1 ?x" using r by (simp add: probe_set_def bit_simps)
  then have "probe_set b' ?x" using IH(2) r by (auto intro: probe_set_mono)
  then have "\<forall>j\<in>{i..<n}. probe_set b' (probe_pos a b tb j)" using IH(3) by (metis atLeastLessThan_iff le_neq_implies_less Suc_leI)
  moreover have "bits_le buf b'" using IH(2) bits_le_set bits_le_trans by blast
  moreover have "CheckAdd_loop a b tb True n i hits buf = Some (Inr h, b')"
    using IH(1) i assms(1) test_bit_set_bit_spec [OF r, of True]
    by (auto simp: CheckAdd_loop.simps [of a b tb True n i hits buf] Let_def simp flip: probe_pos_def split: if_splits)
  ultimately show ?case by blast
qed

definition key_probes_set :: "bytes \<Rightarrow> Bloom \<Rightarrow> bool" where
  "key_probes_set key bl \<longleftrightarrow>
     (let a = Hash key 0x9747b28c; b = Hash key a in
      \<forall>j\<in>{0..<unat (hashes bl)}. probe_set (bdata bl) (probe_pos a b (total_bits bl) j))"

lemma Bloom_Check_spec:
  "Bloom_wf bl \<Longrightarrow> Bloom_Check key bl = Some (if key_probes_set key bl then kMayExist else kNotExist, bl)"
  by (simp add: Bloom_Check_def CheckAdd_def Bloom_wf_def CheckAdd_loop_check key_probes_set_def Let_def)

lemma Bloom_Add_spec:
  assumes "Bloom_wf bl"
  shows "\<exists>st bl'. Bloom_Add key bl = Some (st, bl') \<and> Bloom_wf bl' \<and> key_probes_set key bl' \<and>
    (\<forall>k. key_probes_set k bl \<longrightarrow> key_probes_set k bl')"
proof -
  let ?a = "Hash key 0x9747b28c"
  have wf: "total_bits bl \<noteq> 0" "unat (total_bits bl) \<le> 8 * length (bdata bl)"
    using assms by (simp_all add: Bloom_wf_def)
  from CheckAdd_loop_add [OF wf, of ?a "Hash key ?a" "unat (hashes bl)" 0 0] obtain h buf where
    r: "CheckAdd_loop ?a (Hash key ?a) (total_bits bl) True (unat (hashes bl)) 0 0 (bdata bl) = Some (Inr h, buf)"
      "bits_le (bdata bl) buf" "\<forall>j\<in>{0..<unat (hashes bl)}. probe_set buf (probe_pos ?a (Hash key ?a) (total_bits bl) j)"
    by blast
  have "key_probes_set k (bl\<lparr>bdata := buf\<rparr>)" if "key_probes_set k bl" for k
    using that r(2) probe_pos_in_range [OF wf]
    by (auto simp: key_probes_set_def Let_def intro: probe_set_mono)
  moreover have "key_probes_set key (bl\<lparr>bdata := buf\<rparr>)" using r(3) by (simp add: key_probes_set_def Let_def)
  moreover have "Bloom_wf (bl\<lparr>bdata := buf\<rparr>)"
    using assms bits_le_length [OF r(2)] by (simp add: Bloom_wf_def)
  ultimately show ?thesis using r(1) by (auto simp: Bloom_Add_def CheckAdd_def Let_def)
qed

definition Bloom_insert :: "bytes \<Rightarrow> Bloom \<Rightarrow> Bloom option" where
  "Bloom_insert key bl = map_option snd (Bloom_Add key bl)"

definition Bloom_may_exist :: "bytes \<Rightarrow> Bloom \<Rightarrow> bool option" where
  "Bloom_may_exist key bl = map_option (\<lambda>(st, _). st = kMayExist) (Bloom_Check key bl)"

interpretation bl: approx_set Bloom_insert Bloom_may_exist Bloom_wf
proof
  fix f and k k' :: bytes
  assume wf: "Bloom_wf f"
  have test: "Bloom_may_exist k g = Some (key_probes_set k g)" if "Bloom_wf g" for k g
    using that by (simp add: Bloom_may_exist_def Bloom_Check_spec)
  from Bloom_Add_spec [OF wf, of k] obtain st g where
    g: "Bloom_Add k f = Some (st, g)" "Bloom_wf g" "key_probes_set k g"
      "\<forall>k. key_probes_set k f \<longrightarrow> key_probes_set k g" by blast
  then show "\<exists>f'. Bloom_insert k f = Some f' \<and> Bloom_wf f' \<and> Bloom_may_exist k f' = Some True"
    by (simp add: Bloom_insert_def test)
  show "\<exists>b. Bloom_may_exist k f = Some b" using wf by (simp add: test)
  fix f' assume "Bloom_insert k f = Some f'" "Bloom_may_exist k' f = Some True"
  then show "Bloom_may_exist k' f' = Some True" using g wf by (auto simp: Bloom_insert_def test)
qed

lemma Bloom_Init_wf: "Bloom_Init n e tb hs ok = (OK, Some bl) \<Longrightarrow> tb \<noteq> 0 \<Longrightarrow> Bloom_wf bl"
  by (auto simp: Bloom_Init_def Bloom_wf_def Let_def split: if_splits)

section \<open>Properties\<close>

text \<open>C19. No false negatives, and no access outside the filter: \<^verbatim>\<open>CreateFilter\<close> always succeeds,
  appends the filter to \<^verbatim>\<open>dst\<close> without touching what was there, and every key it was built
  from matches; every key added later with \<^verbatim>\<open>SetKey\<close> matches too, and none of the earlier
  keys is lost.\<close>

theorem CreateFilter_no_false_negatives:
  "\<exists>f f'. CreateFilter (BloomFilter_new n) keys dst = Some (dst @ f) \<and> filter_wf f \<and>
     add_all SetKey later f = Some f' \<and>
     (\<forall>key. key \<in> set keys \<union> set later \<longrightarrow> KeyMayMatch key f' = Some True)"
proof -
  define bf where "bf = BloomFilter_new n"
  define nbytes where "nbytes = ((if length keys * bits_per_key bf < 64 then 64 else length keys * bits_per_key bf) + 7) div 8"
  have k: "num_probes bf \<le> 30" by (simp add: bf_def num_probes_bounds)
  have nb: "0 < nbytes" by (auto simp: nbytes_def)
  obtain a where a: "set_keys (num_probes bf) (nbytes * 8) keys (replicate nbytes 0) = Some a"
      "bits_le (replicate nbytes 0) a"
      "\<forall>key\<in>set keys. test_probes (num_probes bf) (BloomHash key) (bloom_delta (BloomHash key)) (nbytes * 8) a = Some True"
    using set_keys_spec [of "nbytes * 8" "replicate nbytes 0" "num_probes bf" keys] nb by auto
  define f where "f = a @ [of_nat (num_probes bf)]"
  have la: "length a = nbytes" using a(2) by (simp add: bits_le_length)
  have u: "unat (of_nat (num_probes bf) :: u8) = num_probes bf" using k by (simp add: unat_of_nat)
  have wf: "filter_wf f" using nb la k u by (simp add: filter_wf_def f_def)
  have keys: "KeyMayMatch key f = Some True" if "key \<in> set keys" for key
    using that a(3) nb la u k by (simp add: KeyMayMatch_def f_def Let_def nth_append test_probes_append)
  obtain f' where f': "add_all SetKey later f = Some f'" "\<forall>k\<in>set later. KeyMayMatch k f' = Some True"
    using bf.no_false_negatives [OF wf, of later] by blast
  have "KeyMayMatch key f' = Some True" if "key \<in> set keys \<union> set later" for key
    using that f' bf.add_all_mono [OF wf keys, of key later] by auto
  moreover have "CreateFilter bf keys dst = Some (dst @ f)"
    using a(1) by (simp add: CreateFilter_def nbytes_def f_def Let_def)
  ultimately show ?thesis using f' wf unfolding bf_def by blast
qed

theorem CreateFilter_no_false_negatives_witness:
  "\<exists>f f'. CreateFilter (BloomFilter_new 10) [[1, 2], [3]] [42] = Some ([42] @ f) \<and>
     add_all SetKey [[9]] f = Some f' \<and> KeyMayMatch [3] f' = Some True \<and> KeyMayMatch [9] f' = Some True"
proof -
  have "[3] \<in> set [[1, 2], [3]] \<union> set [[9 :: u8]]" "[9] \<in> set [[1, 2], [3]] \<union> set [[9 :: u8]]" by simp_all
  then show ?thesis
    using CreateFilter_no_false_negatives [of 10 "[[1, 2], [3]]" "[42]" "[[9]]"] by blast
qed



end
