(* ===== verification/Fifo_Spec.thy ===== *)
theory Fifo_Spec
  imports Util_Prelude
begin

text \<open>
  The contract of the bounded queues of the library: a queue of capacity \<open>c\<close> is a list, a push
  appends when there is room and is refused otherwise, a pop returns the first element or reports
  that the queue is empty. The locale \<open>bounded_fifo\<close> states it for an implementation with an
  abstraction function and an invariant, and shows that a client that runs any sequence of
  operations sees exactly the answers of the list. The ring of \<^verbatim>\<open>rte_ring.h\<close> and the two
  rings of \<^verbatim>\<open>lockfreeQueue.h\<close> interpret it.
\<close>

datatype 'a qop = Push 'a | Pop

datatype 'a qres = Pushed bool | Popped "'a option"

text \<open>The reference queue: a list and its capacity.\<close>

fun fifo_step :: "nat \<Rightarrow> 'a qop \<Rightarrow> 'a list \<Rightarrow> 'a qres \<times> 'a list" where
  "fifo_step c (Push x) q = (Pushed (length q < c), if length q < c then q @ [x] else q)"
| "fifo_step c Pop q = (case q of [] \<Rightarrow> (Popped None, []) | x # q' \<Rightarrow> (Popped (Some x), q'))"

fun fifo_run :: "nat \<Rightarrow> 'a qop list \<Rightarrow> 'a list \<Rightarrow> 'a qres list \<times> 'a list" where
  "fifo_run c [] q = ([], q)"
| "fifo_run c (op # ops) q =
     (let (r, q1) = fifo_step c op q; (rs, q2) = fifo_run c ops q1 in (r # rs, q2))"

fun queue_step ::
  "('a \<Rightarrow> 'q \<Rightarrow> (bool \<times> 'q) option) \<Rightarrow> ('q \<Rightarrow> ('a option \<times> 'q) option) \<Rightarrow> 'a qop \<Rightarrow> 'q \<Rightarrow> ('a qres \<times> 'q) option" where
  "queue_step push pop (Push x) q = map_option (\<lambda>(b, q'). (Pushed b, q')) (push x q)"
| "queue_step push pop Pop q = map_option (\<lambda>(v, q'). (Popped v, q')) (pop q)"

fun queue_run ::
  "('a \<Rightarrow> 'q \<Rightarrow> (bool \<times> 'q) option) \<Rightarrow> ('q \<Rightarrow> ('a option \<times> 'q) option) \<Rightarrow> 'a qop list \<Rightarrow> 'q \<Rightarrow> ('a qres list \<times> 'q) option" where
  "queue_run push pop [] q = Some ([], q)"
| "queue_run push pop (op # ops) q = do {
     (r, q1) \<leftarrow> queue_step push pop op q;
     (rs, q2) \<leftarrow> queue_run push pop ops q1;
     Some (r # rs, q2) }"

lemma fifo_run_bounded: "length q \<le> c \<Longrightarrow> length (snd (fifo_run c ops q)) \<le> c"
proof (induction ops arbitrary: q)
  case (Cons op ops)
  have "length (snd (fifo_step c op q)) \<le> c"
    using Cons.prems by (cases op) (auto split: list.splits)
  from Cons.IH [OF this] show ?case by (simp add: split_beta Let_def)
qed simp

locale bounded_fifo =
  fixes push :: "'a \<Rightarrow> 'q \<Rightarrow> (bool \<times> 'q) option"
    and pop :: "'q \<Rightarrow> ('a option \<times> 'q) option"
    and items :: "'q \<Rightarrow> 'a list"
    and capacity :: "'q \<Rightarrow> nat"
    and wf :: "'q \<Rightarrow> bool"
  assumes items_bounded: "wf q \<Longrightarrow> length (items q) \<le> capacity q"
    and push_full: "wf q \<Longrightarrow> length (items q) = capacity q \<Longrightarrow>
      \<exists>q'. push x q = Some (False, q') \<and> wf q' \<and> capacity q' = capacity q \<and> items q' = items q"
    and push_room: "wf q \<Longrightarrow> length (items q) < capacity q \<Longrightarrow>
      \<exists>q'. push x q = Some (True, q') \<and> wf q' \<and> capacity q' = capacity q \<and> items q' = items q @ [x]"
    and pop_empty: "wf q \<Longrightarrow> items q = [] \<Longrightarrow>
      \<exists>q'. pop q = Some (None, q') \<and> wf q' \<and> capacity q' = capacity q \<and> items q' = []"
    and pop_first: "wf q \<Longrightarrow> items q = y # ys \<Longrightarrow>
      \<exists>q'. pop q = Some (Some y, q') \<and> wf q' \<and> capacity q' = capacity q \<and> items q' = ys"
begin

lemma step_refines:
  assumes "wf q"
  shows "\<exists>q'. queue_step push pop op q = Some (fst (fifo_step (capacity q) op (items q)), q') \<and>
    wf q' \<and> capacity q' = capacity q \<and> items q' = snd (fifo_step (capacity q) op (items q))"
proof (cases op)
  case (Push x)
  then show ?thesis
    using push_room [OF assms, of x] push_full [OF assms, of x] items_bounded [OF assms] assms
    by (cases "length (items q) < capacity q") auto
next
  case Pop
  then show ?thesis
    using pop_empty [OF assms] pop_first [OF assms] assms by (cases "items q") auto
qed

lemma run_refines:
  assumes "wf q"
  shows "\<exists>q'. queue_run push pop ops q = Some (fst (fifo_run (capacity q) ops (items q)), q') \<and>
    wf q' \<and> capacity q' = capacity q \<and> items q' = snd (fifo_run (capacity q) ops (items q))"
  using assms
proof (induction ops arbitrary: q)
  case (Cons op ops)
  from step_refines [OF Cons.prems, of op] obtain q1 where
    1: "queue_step push pop op q = Some (fst (fifo_step (capacity q) op (items q)), q1)"
      "wf q1" "capacity q1 = capacity q" "items q1 = snd (fifo_step (capacity q) op (items q))" by blast
  from Cons.IH [OF 1(2)] 1 show ?case by (auto simp: split_beta Let_def)
qed auto

end

end
