(* ===== verification/Rte_Ring.thy ===== *)
theory Rte_Ring
  imports Fifo_Spec
begin

text \<open>
  Model of \<^verbatim>\<open>src/cpp-util/rte_ring.h\<close> and \<^verbatim>\<open>src/cpp-util/rte_ring.c\<close>: a ring of
  pointers whose four 32-bit indices run freely and wrap around, with bulk and burst operations,
  a high water mark, and single and multi producer/consumer entry points. The element type is a
  type variable. The copies between the object table and the ring are the unrolled loops of the
  macros \<^verbatim>\<open>ENQUEUE_PTRS\<close> and \<^verbatim>\<open>DEQUEUE_PTRS\<close>, with every access checked against the
  bounds of the array; \<^const>\<open>None\<close> is an access outside an array or a wait that never ends.
  Here an operation runs without interference; the interleavings of several producers and
  consumers are the subject of \<open>Rte_Ring_Concurrent\<close>.
\<close>

section \<open>Data\<close>

datatype rte_ring_queue_behavior = RTE_RING_QUEUE_FIXED | RTE_RING_QUEUE_VARIABLE

record rte_prod =
  watermark :: u32
  sp_enqueue :: bool
  p_size :: u32
  p_mask :: u32
  p_head :: u32
  p_tail :: u32

record rte_cons =
  sc_dequeue :: bool
  c_size :: u32
  c_mask :: u32
  c_head :: u32
  c_tail :: u32

record 'a rte_ring =
  ring_name :: string
  ring_flags :: u32
  r_prod :: rte_prod
  r_cons :: rte_cons
  ring :: "'a list"

definition ENOENT :: int where "ENOENT = 2"
definition EINVAL :: int where "EINVAL = 22"
definition ENOBUFS :: int where "ENOBUFS = 105"
definition EDQUOT :: int where "EDQUOT = 122"

definition RING_F_SP_ENQ :: u32 where "RING_F_SP_ENQ = 0x0001"
definition RING_F_SC_DEQ :: u32 where "RING_F_SC_DEQ = 0x0002"
definition RTE_RING_QUOT_EXCEED :: u32 where "RTE_RING_QUOT_EXCEED = push_bit 31 1"
definition RTE_RING_SZ_MASK :: u32 where "RTE_RING_SZ_MASK = 0x0fffffff"

definition POWEROF2 :: "u32 \<Rightarrow> bool" where
  "POWEROF2 x \<longleftrightarrow> (x - 1) AND x = 0"

section \<open>Creation and the water mark\<close>

text \<open>The argument \<open>mem\<close> is the answer of \<^verbatim>\<open>malloc\<close>: \<^const>\<open>None\<close> for the null pointer, otherwise
  the unspecified contents of the new slots.\<close>

definition rte_ring_create :: "string \<Rightarrow> u32 \<Rightarrow> u32 \<Rightarrow> (nat \<Rightarrow> 'a) option \<Rightarrow> int + 'a rte_ring" where
  "rte_ring_create name count flags mem =
     (if \<not> POWEROF2 count \<or> RTE_RING_SZ_MASK < count then Inl EINVAL
      else case mem of
        None \<Rightarrow> Inl ENOBUFS
      | Some junk \<Rightarrow> Inr
         \<lparr>ring_name = take 31 name, ring_flags = flags,
          r_prod = \<lparr>watermark = count, sp_enqueue = (flags AND RING_F_SP_ENQ \<noteq> 0),
            p_size = count, p_mask = count - 1, p_head = 0, p_tail = 0\<rparr>,
          r_cons = \<lparr>sc_dequeue = (flags AND RING_F_SC_DEQ \<noteq> 0),
            c_size = count, c_mask = count - 1, c_head = 0, c_tail = 0\<rparr>,
          ring = map junk [0..<unat count]\<rparr>)"

definition rte_ring_set_water_mark :: "u32 \<Rightarrow> 'a rte_ring \<Rightarrow> int \<times> 'a rte_ring" where
  "rte_ring_set_water_mark count r =
     (if p_size (r_prod r) \<le> count then (- EINVAL, r)
      else let count = (if count = 0 then p_size (r_prod r) else count)
           in (0, r\<lparr>r_prod := (r_prod r)\<lparr>watermark := count\<rparr>\<rparr>))"

section \<open>Copying between the object table and the ring\<close>

text \<open>One assignment \<^verbatim>\<open>dst[di] = src[si]\<close>; \<^verbatim>\<open>ENQUEUE_PTRS\<close> has the ring as destination and
  \<^verbatim>\<open>DEQUEUE_PTRS\<close> has it as source.\<close>

definition copy1 :: "'a list \<Rightarrow> nat \<Rightarrow> 'a list \<Rightarrow> nat \<Rightarrow> 'a list option" where
  "copy1 src si dst di = do { v \<leftarrow> rd src si; wr dst di v }"

text \<open>The loop that moves four pointers at a time, \<open>left\<close> being the distance of its index to
  \<^verbatim>\<open>n & ~0x3\<close>; it returns the final values of the two indices.\<close>

function copy_by_4 :: "'a list \<Rightarrow> nat \<Rightarrow> 'a list \<Rightarrow> nat \<Rightarrow> nat \<Rightarrow> (nat \<times> nat \<times> 'a list) option" where
  "copy_by_4 src si dst di left =
     (if 0 < left then do {
        dst \<leftarrow> copy1 src si dst di;
        dst \<leftarrow> copy1 src (si + 1) dst (di + 1);
        dst \<leftarrow> copy1 src (si + 2) dst (di + 2);
        dst \<leftarrow> copy1 src (si + 3) dst (di + 3);
        copy_by_4 src (si + 4) dst (di + 4) (left - 4) }
      else Some (si, di, dst))"
  by pat_completeness auto
termination by (relation "measure (\<lambda>(_, _, _, _, left). left)") auto

text \<open>The \<^verbatim>\<open>switch (n & 0x3)\<close> whose cases fall through.\<close>

fun copy_switch :: "nat \<Rightarrow> 'a list \<Rightarrow> nat \<Rightarrow> 'a list \<Rightarrow> nat \<Rightarrow> 'a list option" where
  "copy_switch (Suc k) src si dst di = do {
     dst \<leftarrow> copy1 src si dst di;
     copy_switch k src (si + 1) dst (di + 1) }"
| "copy_switch 0 src si dst di = Some dst"

text \<open>The element-wise loops of the wrap-around branch, \<open>cnt\<close> iterations.\<close>

fun copy_loop :: "nat \<Rightarrow> 'a list \<Rightarrow> nat \<Rightarrow> 'a list \<Rightarrow> nat \<Rightarrow> 'a list option" where
  "copy_loop 0 src si dst di = Some dst"
| "copy_loop (Suc cnt) src si dst di = do {
     dst \<leftarrow> copy1 src si dst di;
     copy_loop cnt src (si + 1) dst (di + 1) }"

definition ENQUEUE_PTRS :: "u32 \<Rightarrow> u32 \<Rightarrow> u32 \<Rightarrow> u32 \<Rightarrow> 'a list \<Rightarrow> 'a list \<Rightarrow> 'a list option" where
  "ENQUEUE_PTRS sz msk prod_head n obj_table rng =
     (let idx = prod_head AND msk in
      if idx + n < sz then do {
        (i, idx, rng) \<leftarrow> copy_by_4 obj_table 0 rng (unat idx) (unat (n AND NOT 3));
        copy_switch (unat (n AND 3)) obj_table i rng idx }
      else do {
        let i = unat sz - unat idx;
        rng \<leftarrow> copy_loop i obj_table 0 rng (unat idx);
        copy_loop (unat n - i) obj_table i rng 0 })"

definition DEQUEUE_PTRS :: "u32 \<Rightarrow> u32 \<Rightarrow> u32 \<Rightarrow> u32 \<Rightarrow> 'a list \<Rightarrow> 'a list \<Rightarrow> 'a list option" where
  "DEQUEUE_PTRS sz msk cons_head n rng obj_table =
     (let idx = cons_head AND msk in
      if idx + n < sz then do {
        (idx, i, obj_table) \<leftarrow> copy_by_4 rng (unat idx) obj_table 0 (unat (n AND NOT 3));
        copy_switch (unat (n AND 3)) rng idx obj_table i }
      else do {
        let i = unat sz - unat idx;
        obj_table \<leftarrow> copy_loop i rng (unat idx) obj_table 0;
        copy_loop (unat n - i) rng 0 obj_table i })"

section \<open>Enqueue and dequeue\<close>

text \<open>The check for room, the same in both enqueues: \<^const>\<open>Inl\<close> is the early return,
  \<^const>\<open>Inr\<close> the number of objects to move.\<close>

definition enqueue_room :: "rte_ring_queue_behavior \<Rightarrow> u32 \<Rightarrow> u32 \<Rightarrow> int + u32" where
  "enqueue_room behavior n free_entries =
     (if free_entries < n then
        (if behavior = RTE_RING_QUEUE_FIXED then Inl (- ENOBUFS)
         else if free_entries = 0 then Inl 0 else Inr free_entries)
      else Inr n)"

definition enqueue_ret :: "rte_ring_queue_behavior \<Rightarrow> u32 \<Rightarrow> u32 \<Rightarrow> u32 \<Rightarrow> u32 \<Rightarrow> int" where
  "enqueue_ret behavior msk free_entries n wm =
     (if wm < (msk + 1) - free_entries + n then
        (if behavior = RTE_RING_QUEUE_FIXED then - EDQUOT else int_of_u32 (n OR RTE_RING_QUOT_EXCEED))
      else (if behavior = RTE_RING_QUEUE_FIXED then 0 else int_of_u32 n))"

definition dequeue_room :: "rte_ring_queue_behavior \<Rightarrow> u32 \<Rightarrow> u32 \<Rightarrow> int + u32" where
  "dequeue_room behavior n entries =
     (if entries < n then
        (if behavior = RTE_RING_QUEUE_FIXED then Inl (- ENOENT)
         else if entries = 0 then Inl 0 else Inr entries)
      else Inr n)"

definition dequeue_ret :: "rte_ring_queue_behavior \<Rightarrow> u32 \<Rightarrow> int" where
  "dequeue_ret behavior n = (if behavior = RTE_RING_QUEUE_FIXED then 0 else int_of_u32 n)"

text \<open>The compare-and-set of a 32-bit index: the new value and whether it was written.\<close>

definition rte_atomic32_cmpset :: "u32 \<Rightarrow> u32 \<Rightarrow> u32 \<Rightarrow> u32 \<times> bool" where
  "rte_atomic32_cmpset dst expected src = (if dst = expected then (src, True) else (dst, False))"

definition set_p_head :: "u32 \<Rightarrow> 'a rte_ring \<Rightarrow> 'a rte_ring" where
  "set_p_head v r = r\<lparr>r_prod := (r_prod r)\<lparr>p_head := v\<rparr>\<rparr>"
definition set_p_tail :: "u32 \<Rightarrow> 'a rte_ring \<Rightarrow> 'a rte_ring" where
  "set_p_tail v r = r\<lparr>r_prod := (r_prod r)\<lparr>p_tail := v\<rparr>\<rparr>"
definition set_c_head :: "u32 \<Rightarrow> 'a rte_ring \<Rightarrow> 'a rte_ring" where
  "set_c_head v r = r\<lparr>r_cons := (r_cons r)\<lparr>c_head := v\<rparr>\<rparr>"
definition set_c_tail :: "u32 \<Rightarrow> 'a rte_ring \<Rightarrow> 'a rte_ring" where
  "set_c_tail v r = r\<lparr>r_cons := (r_cons r)\<lparr>c_tail := v\<rparr>\<rparr>"

lemmas set_index_defs = set_p_head_def set_p_tail_def set_c_head_def set_c_tail_def

text \<open>The multi-producer enqueue when no other thread interferes: the compare-and-set fails only if
  the loop would have to be repeated, and the final wait ends only if \<^verbatim>\<open>prod.tail\<close> has the
  value awaited.\<close>

definition rte_ring_mp_do_enqueue ::
  "'a list \<Rightarrow> u32 \<Rightarrow> rte_ring_queue_behavior \<Rightarrow> 'a rte_ring \<Rightarrow> (int \<times> 'a rte_ring) option" where
  "rte_ring_mp_do_enqueue obj_table n behavior r =
     (let mask = p_mask (r_prod r);
          prod_head = p_head (r_prod r);
          cons_tail = c_tail (r_cons r);
          free_entries = mask + cons_tail - prod_head
      in case enqueue_room behavior n free_entries of
           Inl ret \<Rightarrow> Some (ret, r)
         | Inr n \<Rightarrow> do {
             let prod_next = prod_head + n;
             let (head', success) = rte_atomic32_cmpset (p_head (r_prod r)) prod_head prod_next;
             assert success;
             let r = set_p_head head' r;
             rng \<leftarrow> ENQUEUE_PTRS (p_size (r_prod r)) mask prod_head n obj_table (ring r);
             let r = r\<lparr>ring := rng\<rparr>;
             let ret = enqueue_ret behavior mask free_entries n (watermark (r_prod r));
             assert (p_tail (r_prod r) = prod_head);
             Some (ret, set_p_tail prod_next r) })"

definition rte_ring_sp_do_enqueue ::
  "'a list \<Rightarrow> u32 \<Rightarrow> rte_ring_queue_behavior \<Rightarrow> 'a rte_ring \<Rightarrow> (int \<times> 'a rte_ring) option" where
  "rte_ring_sp_do_enqueue obj_table n behavior r =
     (let mask = p_mask (r_prod r);
          prod_head = p_head (r_prod r);
          cons_tail = c_tail (r_cons r);
          free_entries = mask + cons_tail - prod_head
      in case enqueue_room behavior n free_entries of
           Inl ret \<Rightarrow> Some (ret, r)
         | Inr n \<Rightarrow> do {
             let prod_next = prod_head + n;
             let r = set_p_head prod_next r;
             rng \<leftarrow> ENQUEUE_PTRS (p_size (r_prod r)) mask prod_head n obj_table (ring r);
             let r = r\<lparr>ring := rng\<rparr>;
             let ret = enqueue_ret behavior mask free_entries n (watermark (r_prod r));
             Some (ret, set_p_tail prod_next r) })"

text \<open>The dequeues also return the object table they fill.\<close>

definition rte_ring_mc_do_dequeue ::
  "'a list \<Rightarrow> u32 \<Rightarrow> rte_ring_queue_behavior \<Rightarrow> 'a rte_ring \<Rightarrow> (int \<times> 'a list \<times> 'a rte_ring) option" where
  "rte_ring_mc_do_dequeue obj_table n behavior r =
     (let mask = p_mask (r_prod r);
          cons_head = c_head (r_cons r);
          prod_tail = p_tail (r_prod r);
          entries = prod_tail - cons_head
      in case dequeue_room behavior n entries of
           Inl ret \<Rightarrow> Some (ret, obj_table, r)
         | Inr n \<Rightarrow> do {
             let cons_next = cons_head + n;
             let (head', success) = rte_atomic32_cmpset (c_head (r_cons r)) cons_head cons_next;
             assert success;
             let r = set_c_head head' r;
             obj_table \<leftarrow> DEQUEUE_PTRS (c_size (r_cons r)) mask cons_head n (ring r) obj_table;
             assert (c_tail (r_cons r) = cons_head);
             Some (dequeue_ret behavior n, obj_table, set_c_tail cons_next r) })"

definition rte_ring_sc_do_dequeue ::
  "'a list \<Rightarrow> u32 \<Rightarrow> rte_ring_queue_behavior \<Rightarrow> 'a rte_ring \<Rightarrow> (int \<times> 'a list \<times> 'a rte_ring) option" where
  "rte_ring_sc_do_dequeue obj_table n behavior r =
     (let mask = p_mask (r_prod r);
          cons_head = c_head (r_cons r);
          prod_tail = p_tail (r_prod r);
          entries = prod_tail - cons_head
      in case dequeue_room behavior n entries of
           Inl ret \<Rightarrow> Some (ret, obj_table, r)
         | Inr n \<Rightarrow> do {
             let cons_next = cons_head + n;
             let r = set_c_head cons_next r;
             obj_table \<leftarrow> DEQUEUE_PTRS (c_size (r_cons r)) mask cons_head n (ring r) obj_table;
             Some (dequeue_ret behavior n, obj_table, set_c_tail cons_next r) })"


section \<open>The public entry points\<close>

definition rte_ring_mp_enqueue_bulk :: "'a list \<Rightarrow> u32 \<Rightarrow> 'a rte_ring \<Rightarrow> (int \<times> 'a rte_ring) option" where
  "rte_ring_mp_enqueue_bulk obj_table n r = rte_ring_mp_do_enqueue obj_table n RTE_RING_QUEUE_FIXED r"

definition rte_ring_sp_enqueue_bulk :: "'a list \<Rightarrow> u32 \<Rightarrow> 'a rte_ring \<Rightarrow> (int \<times> 'a rte_ring) option" where
  "rte_ring_sp_enqueue_bulk obj_table n r = rte_ring_sp_do_enqueue obj_table n RTE_RING_QUEUE_FIXED r"

definition rte_ring_enqueue_bulk :: "'a list \<Rightarrow> u32 \<Rightarrow> 'a rte_ring \<Rightarrow> (int \<times> 'a rte_ring) option" where
  "rte_ring_enqueue_bulk obj_table n r =
     (if sp_enqueue (r_prod r) then rte_ring_sp_enqueue_bulk obj_table n r
      else rte_ring_mp_enqueue_bulk obj_table n r)"

definition rte_ring_mp_enqueue :: "'a \<Rightarrow> 'a rte_ring \<Rightarrow> (int \<times> 'a rte_ring) option" where
  "rte_ring_mp_enqueue obj r = rte_ring_mp_enqueue_bulk [obj] 1 r"

definition rte_ring_sp_enqueue :: "'a \<Rightarrow> 'a rte_ring \<Rightarrow> (int \<times> 'a rte_ring) option" where
  "rte_ring_sp_enqueue obj r = rte_ring_sp_enqueue_bulk [obj] 1 r"

definition rte_ring_enqueue :: "'a \<Rightarrow> 'a rte_ring \<Rightarrow> (int \<times> 'a rte_ring) option" where
  "rte_ring_enqueue obj r =
     (if sp_enqueue (r_prod r) then rte_ring_sp_enqueue obj r else rte_ring_mp_enqueue obj r)"

definition rte_ring_mc_dequeue_bulk :: "'a list \<Rightarrow> u32 \<Rightarrow> 'a rte_ring \<Rightarrow> (int \<times> 'a list \<times> 'a rte_ring) option" where
  "rte_ring_mc_dequeue_bulk obj_table n r = rte_ring_mc_do_dequeue obj_table n RTE_RING_QUEUE_FIXED r"

definition rte_ring_sc_dequeue_bulk :: "'a list \<Rightarrow> u32 \<Rightarrow> 'a rte_ring \<Rightarrow> (int \<times> 'a list \<times> 'a rte_ring) option" where
  "rte_ring_sc_dequeue_bulk obj_table n r = rte_ring_sc_do_dequeue obj_table n RTE_RING_QUEUE_FIXED r"

definition rte_ring_dequeue_bulk :: "'a list \<Rightarrow> u32 \<Rightarrow> 'a rte_ring \<Rightarrow> (int \<times> 'a list \<times> 'a rte_ring) option" where
  "rte_ring_dequeue_bulk obj_table n r =
     (if sc_dequeue (r_cons r) then rte_ring_sc_dequeue_bulk obj_table n r
      else rte_ring_mc_dequeue_bulk obj_table n r)"

text \<open>The single-object dequeues write through \<^verbatim>\<open>obj_p\<close>, a table of one slot.\<close>

definition rte_ring_mc_dequeue :: "'a list \<Rightarrow> 'a rte_ring \<Rightarrow> (int \<times> 'a list \<times> 'a rte_ring) option" where
  "rte_ring_mc_dequeue obj_p r = rte_ring_mc_dequeue_bulk obj_p 1 r"

definition rte_ring_sc_dequeue :: "'a list \<Rightarrow> 'a rte_ring \<Rightarrow> (int \<times> 'a list \<times> 'a rte_ring) option" where
  "rte_ring_sc_dequeue obj_p r = rte_ring_sc_dequeue_bulk obj_p 1 r"

definition rte_ring_dequeue :: "'a list \<Rightarrow> 'a rte_ring \<Rightarrow> (int \<times> 'a list \<times> 'a rte_ring) option" where
  "rte_ring_dequeue obj_p r =
     (if sc_dequeue (r_cons r) then rte_ring_sc_dequeue obj_p r else rte_ring_mc_dequeue obj_p r)"

definition rte_ring_full :: "'a rte_ring \<Rightarrow> bool" where
  "rte_ring_full r \<longleftrightarrow> (c_tail (r_cons r) - p_tail (r_prod r) - 1) AND p_mask (r_prod r) = 0"

definition rte_ring_empty :: "'a rte_ring \<Rightarrow> bool" where
  "rte_ring_empty r \<longleftrightarrow> c_tail (r_cons r) = p_tail (r_prod r)"

definition rte_ring_count :: "'a rte_ring \<Rightarrow> u32" where
  "rte_ring_count r = (p_tail (r_prod r) - c_tail (r_cons r)) AND p_mask (r_prod r)"

definition rte_ring_free_count :: "'a rte_ring \<Rightarrow> u32" where
  "rte_ring_free_count r = (c_tail (r_cons r) - p_tail (r_prod r) - 1) AND p_mask (r_prod r)"

definition rte_ring_mp_enqueue_burst :: "'a list \<Rightarrow> u32 \<Rightarrow> 'a rte_ring \<Rightarrow> (int \<times> 'a rte_ring) option" where
  "rte_ring_mp_enqueue_burst obj_table n r = rte_ring_mp_do_enqueue obj_table n RTE_RING_QUEUE_VARIABLE r"

definition rte_ring_sp_enqueue_burst :: "'a list \<Rightarrow> u32 \<Rightarrow> 'a rte_ring \<Rightarrow> (int \<times> 'a rte_ring) option" where
  "rte_ring_sp_enqueue_burst obj_table n r = rte_ring_sp_do_enqueue obj_table n RTE_RING_QUEUE_VARIABLE r"

definition rte_ring_enqueue_burst :: "'a list \<Rightarrow> u32 \<Rightarrow> 'a rte_ring \<Rightarrow> (int \<times> 'a rte_ring) option" where
  "rte_ring_enqueue_burst obj_table n r =
     (if sp_enqueue (r_prod r) then rte_ring_sp_enqueue_burst obj_table n r
      else rte_ring_mp_enqueue_burst obj_table n r)"

definition rte_ring_mc_dequeue_burst :: "'a list \<Rightarrow> u32 \<Rightarrow> 'a rte_ring \<Rightarrow> (int \<times> 'a list \<times> 'a rte_ring) option" where
  "rte_ring_mc_dequeue_burst obj_table n r = rte_ring_mc_do_dequeue obj_table n RTE_RING_QUEUE_VARIABLE r"

definition rte_ring_sc_dequeue_burst :: "'a list \<Rightarrow> u32 \<Rightarrow> 'a rte_ring \<Rightarrow> (int \<times> 'a list \<times> 'a rte_ring) option" where
  "rte_ring_sc_dequeue_burst obj_table n r = rte_ring_sc_do_dequeue obj_table n RTE_RING_QUEUE_VARIABLE r"

definition rte_ring_dequeue_burst :: "'a list \<Rightarrow> u32 \<Rightarrow> 'a rte_ring \<Rightarrow> (int \<times> 'a list \<times> 'a rte_ring) option" where
  "rte_ring_dequeue_burst obj_table n r =
     (if sc_dequeue (r_cons r) then rte_ring_sc_dequeue_burst obj_table n r
      else rte_ring_mc_dequeue_burst obj_table n r)"

section \<open>The copying macros\<close>

declare copy_by_4.simps [simp del]

lemma copy_switch_eq_loop: "copy_switch k src si dst di = copy_loop k src si dst di"
  by (induction k arbitrary: si dst di) simp_all

lemma copy_loop_add:
  "copy_loop (a + b) src si dst di = copy_loop a src si dst di \<bind> (\<lambda>dst. copy_loop b src (si + a) dst (di + a))"
  by (induction a arbitrary: si dst di) (auto simp: bind_assoc split: Option.bind_splits)

lemma copy_by_4_eq_loop:
  "copy_by_4 src si dst di (4 * k) =
     copy_loop (4 * k) src si dst di \<bind> (\<lambda>dst. Some (si + 4 * k, di + 4 * k, dst))"
proof (induction k arbitrary: si dst di)
  case 0
  then show ?case by (simp add: copy_by_4.simps)
next
  case (Suc k)
  have 4: "4 * Suc k = 4 + 4 * k" "copy_loop 4 src si dst di = copy_loop (Suc (Suc (Suc (Suc 0)))) src si dst di"
    by (simp_all add: numeral_eq_Suc)
  show ?case
    by (subst copy_by_4.simps)
      (simp only: 4 copy_loop_add, simp add: Suc.IH [simplified] bind_assoc numeral_3_eq_3 add.assoc)
qed

lemma Suc_Suc_minus_2: "2 \<le> n \<Longrightarrow> Suc (Suc (n - 2)) = n"
  by simp

text \<open>The unrolled loop followed by the switch moves as many pointers as the simple loop.\<close>

lemma unrolled_copy_eq_loop:
  fixes n :: u32
  shows "(copy_by_4 src si dst di (unat (n AND NOT 3)) \<bind>
      (\<lambda>(si, di, dst). copy_switch (unat (n AND 3)) src si dst di)) =
    copy_loop (unat n) src si dst di"
proof -
  have m: "(3 :: u32) = Bit_Operations.mask 2" by (simp add: mask_eq_exp_minus_1)
  have lo: "unat (n AND 3) = unat n mod 4"
    by (simp add: m flip: take_bit_eq_mask) (simp add: take_bit_eq_mod unat_mod)
  have "n AND NOT 3 = push_bit 2 (drop_bit 2 n)"
    by (rule bit_word_eqI) (auto simp: m bit_simps not_less Suc_Suc_minus_2)
  then have "n AND NOT 3 = drop_bit 2 n * 4" by (simp add: push_bit_eq_mult)
  then have "unat (n AND NOT 3) = unat (drop_bit 2 n) * 4 mod 2 ^ 32"
    by (simp add: unat_word_ariths)
  also have "\<dots> = 4 * (unat n div 4)"
    using unat_less_two_power [of n] by (simp add: unat_drop_bit_div)
  finally have hi: "unat (n AND NOT 3) = 4 * (unat n div 4)" .
  have "copy_loop (unat n) src si dst di = copy_loop (4 * (unat n div 4) + unat n mod 4) src si dst di" by simp
  then show ?thesis
    unfolding copy_loop_add hi lo copy_by_4_eq_loop copy_switch_eq_loop by (simp add: bind_assoc)
qed

text \<open>A ring of \<open>sz\<close> slots, \<open>sz\<close> a power of two. The free-running index \<open>h\<close> lives in slot
  \<open>h mod sz\<close>, also across the wrap-around of the 32-bit index.\<close>

definition ring_size_ok :: "u32 \<Rightarrow> u32 \<Rightarrow> bool" where
  "ring_size_ok sz msk \<longleftrightarrow> (\<exists>k<32. unat sz = 2 ^ k) \<and> msk = sz - 1"

lemma ring_size_okE:
  assumes "ring_size_ok sz msk"
  obtains k where "k < 32" "unat sz = 2 ^ k" "unat sz \<le> 2 ^ 31" "unat sz dvd 2 ^ 32" "msk = sz - 1"
proof -
  obtain k where k: "k < 32" "unat sz = 2 ^ k" "msk = sz - 1" using assms by (auto simp: ring_size_ok_def)
  moreover have "(2 :: nat) ^ k \<le> 2 ^ 31" using k(1) by (intro power_increasing) auto
  moreover have "(2 :: nat) ^ k dvd 2 ^ 32" using k(1) by (intro le_imp_power_dvd) auto
  ultimately show thesis using that by simp
qed

lemma unat_mask_index:
  assumes "ring_size_ok sz msk"
  shows "unat (h AND msk) = unat h mod unat sz"
proof -
  obtain k where k: "k < 32" "unat sz = 2 ^ k" "unat sz \<le> 2 ^ 31" "msk = sz - 1"
    using assms by (rule ring_size_okE)
  have "sz = of_nat (2 ^ k)" using of_nat_unat [of sz, where 'a = u32] by (simp add: k(2))
  then have "h AND msk = take_bit k h"
    by (simp add: k(4) take_bit_eq_mask mask_eq_exp_minus_1)
  then have "unat (h AND msk) = take_bit k (unat h)" by (simp only: unsigned_take_bit_eq)
  then show ?thesis by (simp add: k(2) take_bit_eq_mod)
qed

lemma unat_ring_mask:
  assumes "ring_size_ok sz msk"
  shows "unat msk + 1 = unat sz"
proof -
  obtain k where k: "unat sz = 2 ^ k" "msk = sz - 1" using assms by (rule ring_size_okE)
  have "sz \<noteq> 0" using k(1) by auto
  then show ?thesis by (simp add: k unat_minus_one)
qed

lemma wrapped_index_mod:
  assumes "ring_size_ok sz msk"
  shows "unat (h + of_nat j :: u32) mod unat sz = (unat h + j) mod unat sz"
proof -
  have d: "unat sz dvd 2 ^ 32" using assms by (rule ring_size_okE)
  have "unat (h + of_nat j :: u32) = (unat h + j) mod 2 ^ 32"
    by (simp add: unat_word_ariths unat_of_nat take_bit_eq_mod mod_simps)
  then show ?thesis using d by (simp add: mod_mod_cancel)
qed

lemma masked_index_add:
  assumes ok: "ring_size_ok sz msk" and n: "n \<le> msk"
  shows "(h AND msk) + n < sz \<longleftrightarrow> unat h mod unat sz + unat n < unat sz" "unat n < unat sz"
proof -
  show nsz: "unat n < unat sz" using n unat_ring_mask [OF ok] by (simp add: word_le_nat_alt)
  have "unat sz \<le> 2 ^ 31" using ok by (rule ring_size_okE)
  moreover have "unat h mod unat sz < unat sz" using nsz by simp
  then have "unat h mod unat sz + unat n < unat sz + unat sz" using nsz by (rule add_strict_mono)
  ultimately have "unat h mod unat sz + unat n < 2 ^ 32" by simp
  then have "unat ((h AND msk) + n) = unat h mod unat sz + unat n"
    by (simp add: unat_word_ariths unat_mask_index [OF ok])
  then show "(h AND msk) + n < sz \<longleftrightarrow> unat h mod unat sz + unat n < unat sz"
    by (simp add: word_less_nat_alt)
qed

text \<open>The specification of the two macros: pointer \<open>j\<close> of the table goes to, or comes from, the slot
  of index \<open>h + j\<close>.\<close>

fun put_slots :: "nat \<Rightarrow> 'a list \<Rightarrow> nat \<Rightarrow> nat \<Rightarrow> 'a list \<Rightarrow> 'a list" where
  "put_slots 0 obj_table j h rng = rng"
| "put_slots (Suc c) obj_table j h rng =
     put_slots c obj_table (Suc j) h (rng[(h + j) mod length rng := obj_table ! j])"

definition get_slots :: "nat \<Rightarrow> nat \<Rightarrow> 'a list \<Rightarrow> 'a list" where
  "get_slots n h rng = map (\<lambda>j. rng ! ((h + j) mod length rng)) [0..<n]"

lemma length_put_slots [simp]: "length (put_slots c obj j h rng) = length rng"
  by (induction c arbitrary: j rng) simp_all

lemma put_slots_add: "put_slots (a + b) obj j h rng = put_slots b obj (j + a) h (put_slots a obj j h rng)"
  by (induction a arbitrary: j rng) simp_all

lemma put_slots_other:
  "(\<And>i. i < c \<Longrightarrow> p \<noteq> (h + j + i) mod length rng) \<Longrightarrow> put_slots c obj j h rng ! p = rng ! p"
proof (induction c arbitrary: j rng)
  case (Suc c)
  have "put_slots c obj (Suc j) h (rng[(h + j) mod length rng := obj ! j]) ! p = rng[(h + j) mod length rng := obj ! j] ! p"
    by (rule Suc.IH) (use Suc.prems [of "Suc i" for i] in simp)
  then show ?case using Suc.prems [of 0] by simp
qed simp

lemma put_slots_written:
  "k < c \<Longrightarrow> c \<le> length rng \<Longrightarrow> put_slots c obj j h rng ! ((h + j + k) mod length rng) = obj ! (j + k)"
proof (induction c arbitrary: j k rng)
  case (Suc c)
  let ?r = "rng[(h + j) mod length rng := obj ! j]"
  have "put_slots c obj (Suc j) h ?r ! ((h + j + k) mod length ?r) = obj ! (j + k)"
  proof (cases k)
    case 0
    have "put_slots c obj (Suc j) h ?r ! ((h + j) mod length rng) = ?r ! ((h + j) mod length rng)"
    proof (rule put_slots_other)
      fix i assume "i < c"
      then show "(h + j) mod length rng \<noteq> (h + Suc j + i) mod length ?r"
        using mod_add_distinct [of "Suc i" "length rng" "h + j"] Suc.prems by simp
    qed
    moreover have "(h + j) mod length rng < length rng" using Suc.prems(2) by (intro mod_less_divisor) linarith
    ultimately show ?thesis using 0 by simp
  next
    case (Suc k')
    then show ?thesis using Suc.IH [of k' ?r "Suc j"] Suc.prems by simp
  qed
  then show ?case by simp
qed simp

lemma copy_loop_put_slots:
  assumes "si + c \<le> length obj" "di + c \<le> length rng" "(h + si) mod length rng = di mod length rng"
  shows "copy_loop c obj si rng di = Some (put_slots c obj si h rng)"
  using assms
proof (induction c arbitrary: si di rng)
  case (Suc c)
  have "(h + Suc si) mod length rng = Suc di mod length rng"
    using Suc.prems(3) by (metis add_Suc_right mod_Suc_eq)
  then show ?case using Suc.IH [of "Suc si" "Suc di" "rng[di := obj ! si]"] Suc.prems by (simp add: copy1_def)
qed simp

lemma ENQUEUE_PTRS_spec:
  assumes ok: "ring_size_ok sz msk" and len: "length rng = unat sz" and n: "n \<le> msk" and obj: "unat n \<le> length obj"
  shows "ENQUEUE_PTRS sz msk h n obj rng = Some (put_slots (unat n) obj 0 (unat h) rng)"
proof -
  define idx where "idx = unat h mod unat sz"
  note add = masked_index_add(1) [OF ok n, of h, folded idx_def] masked_index_add(2) [OF ok n]
    unat_mask_index [OF ok, of h, folded idx_def]
  have idxsz: "idx < unat sz" using add(2) by (simp add: idx_def)
  have start: "(unat h + 0) mod length rng = idx mod length rng" by (simp add: len idx_def)
  show ?thesis
  proof (cases "idx + unat n < unat sz")
    case True
    then show ?thesis
      using add unrolled_copy_eq_loop [of obj 0 rng idx n] copy_loop_put_slots [OF _ _ start, of "unat n" obj] len obj
      by (simp add: ENQUEUE_PTRS_def Let_def)
  next
    case False
    define i where "i = unat sz - idx"
    have i: "i \<le> unat n" "idx + i = unat sz" "unat n - i \<le> unat sz"
      using False idxsz add(2) by (auto simp: i_def)
    have "(unat h + i) mod unat sz = (idx + i) mod unat sz" by (simp add: idx_def mod_simps)
    then have "copy_loop (unat n - i) obj i (put_slots i obj 0 (unat h) rng) 0 =
        Some (put_slots (unat n - i) obj i (unat h) (put_slots i obj 0 (unat h) rng))"
      using i len obj by (intro copy_loop_put_slots) auto
    moreover have "copy_loop i obj 0 rng idx = Some (put_slots i obj 0 (unat h) rng)"
      using i len obj start by (intro copy_loop_put_slots) auto
    ultimately show ?thesis
      using False add i put_slots_add [of i "unat n - i" obj 0 "unat h" rng]
      by (simp add: ENQUEUE_PTRS_def Let_def flip: i_def)
  qed
qed

lemma copy_loop_out:
  assumes "si + c \<le> length rng" "di + c \<le> length obj"
  shows "copy_loop c rng si obj di = Some (take di obj @ take c (drop si rng) @ drop (di + c) obj)"
  using assms
proof (induction c arbitrary: si di obj)
  case (Suc c)
  have "take (Suc di) (obj[di := rng ! si]) = take di obj @ [rng ! si]"
    using Suc.prems by (simp add: take_Suc_conv_app_nth)
  moreover have "drop si rng = rng ! si # drop (Suc si) rng"
    using Suc.prems by (simp add: Cons_nth_drop_Suc)
  moreover have "copy_loop c rng (Suc si) (obj[di := rng ! si]) (Suc di) =
      Some (take (Suc di) (obj[di := rng ! si]) @ take c (drop (Suc si) rng) @ drop (Suc di + c) (obj[di := rng ! si]))"
    using Suc.prems by (intro Suc.IH) auto
  ultimately show ?case using Suc.prems by (simp add: copy1_def)
qed simp

lemma DEQUEUE_PTRS_spec:
  assumes ok: "ring_size_ok sz msk" and len: "length rng = unat sz" and n: "n \<le> msk" and obj: "unat n \<le> length obj"
  shows "DEQUEUE_PTRS sz msk h n rng obj = Some (get_slots (unat n) (unat h) rng @ drop (unat n) obj)"
proof -
  define idx where "idx = unat h mod unat sz"
  note add = masked_index_add(1) [OF ok n, of h, folded idx_def] masked_index_add(2) [OF ok n]
    unat_mask_index [OF ok, of h, folded idx_def]
  have idxsz: "idx < unat sz" using add(2) by (simp add: idx_def)
  have slot: "(unat h + j) mod unat sz = (idx + j) mod unat sz" for j by (simp add: idx_def mod_simps)
  show ?thesis
  proof (cases "idx + unat n < unat sz")
    case True
    then have "get_slots (unat n) (unat h) rng = take (unat n) (drop idx rng)"
      by (intro nth_equalityI) (auto simp: get_slots_def len slot)
    then show ?thesis
      using True add unrolled_copy_eq_loop [of rng idx obj 0 n] copy_loop_out [of idx "unat n" rng 0 obj] len obj
      by (simp add: DEQUEUE_PTRS_def Let_def)
  next
    case False
    define i where "i = unat sz - idx"
    have i: "i \<le> unat n" "idx + i = unat sz" "unat n - i < unat sz"
      using False idxsz add(2) by (auto simp: i_def)
    have wrap: "(idx + j) mod unat sz = j - i" if "i \<le> j" "j < unat n" for j
      using that i add(2) by (simp add: le_mod_geq)
    have "get_slots (unat n) (unat h) rng = take i (drop idx rng) @ take (unat n - i) rng"
    proof (intro nth_equalityI)
      fix j assume "j < length (get_slots (unat n) (unat h) rng)"
      then have "j < unat n" "get_slots (unat n) (unat h) rng ! j = rng ! ((idx + j) mod unat sz)"
        by (simp_all add: get_slots_def len slot)
      then show "get_slots (unat n) (unat h) rng ! j = (take i (drop idx rng) @ take (unat n - i) rng) ! j"
        using i(1) len wrap [of j] i(2) [symmetric] by (cases "j < i") (auto simp: nth_append)
    qed (use i len in \<open>simp add: get_slots_def\<close>)
    moreover have "copy_loop i rng idx obj 0 = Some (take i (drop idx rng) @ drop i obj)"
      using i len obj copy_loop_out [of idx i rng 0 obj] by simp
    moreover have "copy_loop (unat n - i) rng 0 (take i (drop idx rng) @ drop i obj) i =
        Some (take i (drop idx rng) @ take (unat n - i) rng @ drop (unat n) obj)"
      using i(1) i(3) i(2) [symmetric] len obj copy_loop_out [of 0 "unat n - i" rng i "take i (drop idx rng) @ drop i obj"]
      by simp
    ultimately show ?thesis
      using False add i by (simp add: DEQUEUE_PTRS_def Let_def flip: i_def)
  qed
qed

section \<open>The ring as a bounded list\<close>

definition ring_used :: "'a rte_ring \<Rightarrow> u32" where
  "ring_used r = p_tail (r_prod r) - c_tail (r_cons r)"

text \<open>Between two operations both heads have caught up with their tails.\<close>

definition ring_wf :: "'a rte_ring \<Rightarrow> bool" where
  "ring_wf r \<longleftrightarrow> ring_size_ok (p_size (r_prod r)) (p_mask (r_prod r)) \<and>
     c_size (r_cons r) = p_size (r_prod r) \<and> c_mask (r_cons r) = p_mask (r_prod r) \<and>
     length (ring r) = unat (p_size (r_prod r)) \<and>
     p_head (r_prod r) = p_tail (r_prod r) \<and> c_head (r_cons r) = c_tail (r_cons r) \<and>
     ring_used r \<le> p_mask (r_prod r)"

definition ring_items :: "'a rte_ring \<Rightarrow> 'a list" where
  "ring_items r = get_slots (unat (ring_used r)) (unat (c_tail (r_cons r))) (ring r)"

definition ring_capacity :: "'a rte_ring \<Rightarrow> nat" where
  "ring_capacity r = unat (p_mask (r_prod r))"

text \<open>How many of \<open>n\<close> objects an operation moves when there is room (or content) for \<open>avail\<close>.\<close>

fun moved :: "rte_ring_queue_behavior \<Rightarrow> nat \<Rightarrow> nat \<Rightarrow> nat" where
  "moved RTE_RING_QUEUE_FIXED n avail = (if n \<le> avail then n else 0)"
| "moved RTE_RING_QUEUE_VARIABLE n avail = min n avail"

text \<open>The answers of the operations, by the number of objects in the ring.\<close>

definition enqueue_answer :: "rte_ring_queue_behavior \<Rightarrow> nat \<Rightarrow> nat \<Rightarrow> nat \<Rightarrow> nat \<Rightarrow> int" where
  "enqueue_answer b n used cap wm =
     (let m = moved b n (cap - used); over = (wm \<le> used + m) in
      case b of
        RTE_RING_QUEUE_FIXED \<Rightarrow> if cap - used < n then - ENOBUFS else if over then - EDQUOT else 0
      | RTE_RING_QUEUE_VARIABLE \<Rightarrow> if over \<and> (0 < m \<or> n = 0) then int m - 2 ^ 31 else int m)"

definition dequeue_answer :: "rte_ring_queue_behavior \<Rightarrow> nat \<Rightarrow> nat \<Rightarrow> int" where
  "dequeue_answer b n used =
     (case b of
        RTE_RING_QUEUE_FIXED \<Rightarrow> if used < n then - ENOENT else 0
      | RTE_RING_QUEUE_VARIABLE \<Rightarrow> int (min n used))"

lemma length_get_slots [simp]: "length (get_slots n h rng) = n"
  by (simp add: get_slots_def)

lemma length_ring_items [simp]: "length (ring_items r) = unat (ring_used r)"
  by (simp add: ring_items_def)

lemma ring_items_bounded: "ring_wf r \<Longrightarrow> length (ring_items r) \<le> ring_capacity r"
  by (simp add: ring_wf_def ring_capacity_def word_le_nat_alt)

lemma ring_capacity_bound: "ring_wf r \<Longrightarrow> ring_capacity r < 2 ^ 31"
  using unat_ring_mask [of "p_size (r_prod r)" "p_mask (r_prod r)"]
  by (auto simp: ring_wf_def ring_capacity_def elim: ring_size_okE)

lemma unat_add_no_wrap: "unat (v :: u32) + unat w < 2 ^ 32 \<Longrightarrow> unat (v + w) = unat v + unat w"
  by (simp add: unat_word_ariths)

lemma unat_sub_le: "w \<le> (v :: 'a::len word) \<Longrightarrow> unat (v - w) = unat v - unat w"
  by (rule unat_sub)

text \<open>The free entries as the code computes them, whatever the wrap-around.\<close>

lemma unat_free_entries:
  assumes "ring_wf r"
  shows "unat (p_mask (r_prod r) + c_tail (r_cons r) - p_tail (r_prod r)) = ring_capacity r - length (ring_items r)"
proof -
  have e: "p_mask (r_prod r) + c_tail (r_cons r) - p_tail (r_prod r) = p_mask (r_prod r) - ring_used r"
    by (simp add: ring_used_def)
  show ?thesis unfolding e using assms by (simp add: ring_wf_def ring_capacity_def unat_sub_le)
qed

lemma get_slots_append:
  "get_slots (n + m) h rng = get_slots n h rng @ get_slots m (h + n) rng"
  by (rule nth_equalityI) (auto simp: get_slots_def nth_append)

lemma get_slots_mod: "h mod length rng = h' mod length rng \<Longrightarrow> get_slots n h rng = get_slots n h' rng"
  unfolding get_slots_def by (intro map_cong refl) (metis mod_add_left_eq)

text \<open>The state change of an enqueue of \<open>m\<close> objects and of a dequeue of \<open>m\<close> objects.\<close>

definition after_enqueue :: "u32 \<Rightarrow> 'a list \<Rightarrow> 'a rte_ring \<Rightarrow> 'a rte_ring" where
  "after_enqueue m obj r =
     (let t = p_tail (r_prod r) + m in
      set_p_tail t (set_p_head t r)\<lparr>ring := put_slots (unat m) obj 0 (unat (p_tail (r_prod r))) (ring r)\<rparr>)"

definition after_dequeue :: "u32 \<Rightarrow> 'a rte_ring \<Rightarrow> 'a rte_ring" where
  "after_dequeue m r = (let t = c_tail (r_cons r) + m in set_c_tail t (set_c_head t r))"

lemma after_enqueue:
  assumes wf: "ring_wf r" and m: "unat m \<le> ring_capacity r - length (ring_items r)" and obj: "unat m \<le> length obj"
  shows "ring_wf (after_enqueue m obj r)" "ring_items (after_enqueue m obj r) = ring_items r @ take (unat m) obj"
proof -
  let ?r = "after_enqueue m obj r" and ?p = "unat (p_tail (r_prod r))" and ?c = "unat (c_tail (r_cons r))"
    and ?sz = "length (ring r)"
  define u where "u = unat (ring_used r)"
  have ok: "ring_size_ok (p_size (r_prod r)) (p_mask (r_prod r))" and sz: "?sz = ring_capacity r + 1"
    using wf unat_ring_mask by (auto simp: ring_wf_def ring_capacity_def)
  have room: "u + unat m \<le> ring_capacity r" using m ring_items_bounded [OF wf] by (simp add: u_def)
  have "ring_used ?r = ring_used r + m" by (simp add: ring_used_def after_enqueue_def Let_def set_index_defs)
  then have used: "unat (ring_used ?r) = u + unat m"
    using room ring_capacity_bound [OF wf] by (simp add: unat_add_no_wrap u_def)
  then show "ring_wf ?r"
    using wf room by (simp add: ring_wf_def after_enqueue_def Let_def set_index_defs word_le_nat_alt ring_capacity_def)
  have pos: "(?c + u) mod ?sz = ?p mod ?sz"
    using wrapped_index_mod [OF ok, of "c_tail (r_cons r)" u] wf
    by (simp add: u_def ring_wf_def ring_used_def)
  have slot: "(?c + u + j) mod ?sz = (?p + j) mod ?sz" for j
    using pos by (metis mod_add_left_eq)
  have new: "ring ?r = put_slots (unat m) obj 0 ?p (ring r)" "c_tail (r_cons ?r) = c_tail (r_cons r)"
    by (simp_all add: after_enqueue_def Let_def set_index_defs)
  have "put_slots (unat m) obj 0 ?p (ring r) ! ((?c + j) mod ?sz) = ring r ! ((?c + j) mod ?sz)" if "j < u" for j
  proof (rule put_slots_other)
    fix i assume "i < unat m"
    then have "u + i - j < ?sz" using room sz by simp
    then show "(?c + j) mod ?sz \<noteq> (?p + 0 + i) mod ?sz"
      using mod_add_distinct [of "u + i - j" ?sz "?c + j"] that room sz slot [of i] by (simp add: add.assoc)
  qed
  then have old: "get_slots u ?c (ring ?r) = ring_items r"
    by (simp add: ring_items_def get_slots_def new u_def)
  have "get_slots (unat m) (?c + u) (ring ?r) = take (unat m) obj"
    using put_slots_written [of _ "unat m" "ring r" obj 0 ?p] room sz obj
    by (intro nth_equalityI) (simp_all add: get_slots_def new slot [unfolded sz Suc_eq_plus1 [symmetric]])
  then show "ring_items ?r = ring_items r @ take (unat m) obj"
    using old by (simp add: ring_items_def [of ?r] used get_slots_append new(2))
qed

lemma after_dequeue:
  assumes wf: "ring_wf r" and m: "unat m \<le> length (ring_items r)"
  shows "ring_wf (after_dequeue m r)" "ring_items (after_dequeue m r) = drop (unat m) (ring_items r)"
    "get_slots (unat m) (unat (c_tail (r_cons r))) (ring r) = take (unat m) (ring_items r)"
proof -
  let ?r = "after_dequeue m r" and ?c = "unat (c_tail (r_cons r))"
  have ok: "ring_size_ok (p_size (r_prod r)) (p_mask (r_prod r))" using wf by (simp add: ring_wf_def)
  have "ring_used ?r = ring_used r - m" by (simp add: ring_used_def after_dequeue_def Let_def set_index_defs)
  then have used: "unat (ring_used ?r) = unat (ring_used r) - unat m"
    using m by (simp add: unat_sub_le word_le_nat_alt)
  then show "ring_wf ?r"
    using wf by (auto simp: ring_wf_def after_dequeue_def Let_def set_index_defs word_le_nat_alt)
  have split: "ring_items r = get_slots (unat m) ?c (ring r) @ get_slots (unat (ring_used r) - unat m) (?c + unat m) (ring r)"
    using m get_slots_append [of "unat m" "unat (ring_used r) - unat m" ?c "ring r"] by (simp add: ring_items_def)
  have "(?c + unat m) mod length (ring r) = unat (c_tail (r_cons r) + m) mod length (ring r)"
    using wrapped_index_mod [OF ok, of "c_tail (r_cons r)" "unat m"] wf by (simp add: ring_wf_def)
  then have "ring_items ?r = get_slots (unat (ring_used r) - unat m) (?c + unat m) (ring r)"
    unfolding ring_items_def used
    by (simp add: after_dequeue_def Let_def set_index_defs get_slots_mod [of "?c + unat m"])
  then show "ring_items ?r = drop (unat m) (ring_items r)"
    "get_slots (unat m) ?c (ring r) = take (unat m) (ring_items r)" unfolding split by simp_all
qed

text \<open>Every entry point is one of these two state changes; the single and the multi producer (and
  consumer) code agree when nothing interferes.\<close>

lemma int_quota_exceeded:
  fixes m :: u32
  assumes "unat m < 2 ^ 31"
  shows "int_of_u32 (m OR RTE_RING_QUOT_EXCEED) = int (unat m) - 2 ^ 31"
proof -
  have "bit m 31 \<longleftrightarrow> bit (unat m) 31" by (simp add: bit_unsigned_iff)
  then have "\<not> bit m 31" using assms by (simp add: bit_iff_odd)
  moreover have "bit (2147483648 :: u32) k \<longleftrightarrow> k = 31" for k
    using bit_exp_iff [of 31 k, where 'a = u32] by auto
  ultimately have "m OR RTE_RING_QUOT_EXCEED = m + 2 ^ 31"
    unfolding RTE_RING_QUOT_EXCEED_def push_bit_of_1 by (intro disjunctive_add [symmetric]) auto
  moreover have "unat (m + 2 ^ 31) = unat m + 2 ^ 31" using assms by (simp add: unat_word_ariths)
  ultimately show ?thesis by (simp add: int_of_u32_def)
qed

lemma do_enqueue_moves:
  assumes wf: "ring_wf r" and room: "enqueue_room b n (p_mask (r_prod r) + c_tail (r_cons r) - p_tail (r_prod r)) = Inr m"
    and m: "unat m \<le> ring_capacity r - length (ring_items r)" and obj: "unat m \<le> length obj"
  shows "rte_ring_sp_do_enqueue obj n b r = Some (enqueue_ret b (p_mask (r_prod r))
      (p_mask (r_prod r) + c_tail (r_cons r) - p_tail (r_prod r)) m (watermark (r_prod r)), after_enqueue m obj r)"
    "rte_ring_mp_do_enqueue obj n b r = rte_ring_sp_do_enqueue obj n b r"
proof -
  have "m \<le> p_mask (r_prod r)" using m by (simp add: word_le_nat_alt ring_capacity_def)
  then have "ENQUEUE_PTRS (p_size (r_prod r)) (p_mask (r_prod r)) (p_tail (r_prod r)) m obj (ring r) =
      Some (put_slots (unat m) obj 0 (unat (p_tail (r_prod r))) (ring r))"
    using wf obj by (intro ENQUEUE_PTRS_spec) (auto simp: ring_wf_def)
  moreover have "p_head (r_prod r) = p_tail (r_prod r)" using wf by (simp add: ring_wf_def)
  ultimately show "rte_ring_sp_do_enqueue obj n b r = Some (enqueue_ret b (p_mask (r_prod r))
      (p_mask (r_prod r) + c_tail (r_cons r) - p_tail (r_prod r)) m (watermark (r_prod r)), after_enqueue m obj r)"
    "rte_ring_mp_do_enqueue obj n b r = rte_ring_sp_do_enqueue obj n b r"
    using room by (simp_all add: rte_ring_sp_do_enqueue_def rte_ring_mp_do_enqueue_def Let_def
        rte_atomic32_cmpset_def set_index_defs after_enqueue_def)
qed

lemma enqueue_ret_answer:
  assumes wf: "ring_wf r" and m: "unat m = moved b n (ring_capacity r - length (ring_items r))"
    and some: "n \<le> ring_capacity r - length (ring_items r) \<or> b = RTE_RING_QUEUE_VARIABLE \<and> 0 < unat m"
  shows "enqueue_ret b (p_mask (r_prod r)) (p_mask (r_prod r) + c_tail (r_cons r) - p_tail (r_prod r)) m (watermark (r_prod r))
    = enqueue_answer b n (length (ring_items r)) (ring_capacity r) (unat (watermark (r_prod r)))"
proof -
  let ?f = "p_mask (r_prod r) + c_tail (r_cons r) - p_tail (r_prod r)"
  have ml: "unat m \<le> ring_capacity r - length (ring_items r)" using m by (cases b) auto
  then have m31: "unat m < 2 ^ 31" using ring_capacity_bound [OF wf] by simp
  have used: "(p_mask (r_prod r) + 1) - ?f + m = ring_used r + 1 + m" by (simp add: ring_used_def)
  have "unat (ring_used r + 1) = unat (ring_used r) + 1" "unat (ring_used r + 1 + m) = unat (ring_used r) + 1 + unat m"
    using ml m31 ring_capacity_bound [OF wf] ring_items_bounded [OF wf] by (simp_all add: unat_word_ariths)
  then have over: "watermark (r_prod r) < (p_mask (r_prod r) + 1) - ?f + m \<longleftrightarrow>
      unat (watermark (r_prod r)) \<le> length (ring_items r) + unat m"
    unfolding used word_less_nat_alt by (simp add: less_Suc_eq_le)
  show ?thesis
    using some m m31 int_quota_exceeded [OF m31] int_of_u32_def [of m] unfolding enqueue_ret_def over enqueue_answer_def Let_def
    by (cases b) auto
qed

lemma enqueue_room_cases:
  assumes "ring_wf r"
  defines "free \<equiv> p_mask (r_prod r) + c_tail (r_cons r) - p_tail (r_prod r)"
    and "avail \<equiv> ring_capacity r - length (ring_items r)"
  shows "enqueue_room b n free =
    (if unat n \<le> avail \<or> b = RTE_RING_QUEUE_VARIABLE \<and> 0 < avail then Inr (of_nat (moved b (unat n) avail))
     else Inl (enqueue_answer b (unat n) (length (ring_items r)) (ring_capacity r) (unat (watermark (r_prod r)))))"
proof -
  have free: "unat free = avail" unfolding free_def avail_def by (rule unat_free_entries [OF assms(1)])
  then have "free = of_nat avail" by (metis of_nat_unat ucast_id)
  moreover have "free < n \<longleftrightarrow> avail < unat n" "free = 0 \<longleftrightarrow> avail = 0"
    using free by (auto simp: word_less_nat_alt unat_eq_zero)
  ultimately show ?thesis
    by (cases b) (auto simp: enqueue_room_def enqueue_answer_def Let_def avail_def)
qed

lemma do_enqueue:
  fixes b :: rte_ring_queue_behavior
  assumes wf: "ring_wf r" and obj: "unat n \<le> length obj"
  defines "avail \<equiv> ring_capacity r - length (ring_items r)"
  defines "m \<equiv> of_nat (moved b (unat n) avail) :: u32"
  defines "ret \<equiv> enqueue_answer b (unat n) (length (ring_items r)) (ring_capacity r) (unat (watermark (r_prod r)))"
  shows "rte_ring_sp_do_enqueue obj n b r =
      Some (ret, if unat n \<le> avail \<or> b = RTE_RING_QUEUE_VARIABLE \<and> 0 < avail then after_enqueue m obj r else r)"
    "rte_ring_mp_do_enqueue obj n b r = rte_ring_sp_do_enqueue obj n b r"
    "unat m = moved b (unat n) avail"
proof -
  let ?go = "unat n \<le> avail \<or> b = RTE_RING_QUEUE_VARIABLE \<and> 0 < avail"
  have le: "moved b (unat n) avail \<le> unat n" "moved b (unat n) avail \<le> avail" by (cases b; simp)+
  then show um: "unat m = moved b (unat n) avail"
    using unat_less_two_power [of n] by (simp add: m_def unat_of_nat take_bit_nat_eq_self)
  have head: "p_head (r_prod r) = p_tail (r_prod r)" using wf by (simp add: ring_wf_def)
  have room: "enqueue_room b n (p_mask (r_prod r) + c_tail (r_cons r) - p_tail (r_prod r)) = (if ?go then Inr m else Inl ret)"
    using enqueue_room_cases [OF wf, of b n] unfolding m_def ret_def avail_def .
  have "(rte_ring_sp_do_enqueue obj n b r = Some (ret, if ?go then after_enqueue m obj r else r)) \<and>
      rte_ring_mp_do_enqueue obj n b r = rte_ring_sp_do_enqueue obj n b r"
  proof (cases ?go)
    case True
    then have "b = RTE_RING_QUEUE_VARIABLE \<and> 0 < unat m \<or> unat n \<le> avail" using um by auto
    then show ?thesis
      using True room um le obj enqueue_ret_answer [OF wf, of m b "unat n"] do_enqueue_moves [OF wf, of b n m obj]
      by (auto simp: ret_def avail_def)
  next
    case False
    then show ?thesis
      using room head by (auto simp: rte_ring_sp_do_enqueue_def rte_ring_mp_do_enqueue_def Let_def)
  qed
  then show "rte_ring_sp_do_enqueue obj n b r = Some (ret, if ?go then after_enqueue m obj r else r)"
      "rte_ring_mp_do_enqueue obj n b r = rte_ring_sp_do_enqueue obj n b r" by blast+
qed

lemma do_dequeue:
  fixes b :: rte_ring_queue_behavior
  assumes wf: "ring_wf r" and obj: "unat n \<le> length obj"
  defines "m \<equiv> of_nat (moved b (unat n) (length (ring_items r))) :: u32"
  shows "rte_ring_sc_do_dequeue obj n b r =
      Some (dequeue_answer b (unat n) (length (ring_items r)), take (unat m) (ring_items r) @ drop (unat m) obj,
        after_dequeue m r)"
    "rte_ring_mc_do_dequeue obj n b r = rte_ring_sc_do_dequeue obj n b r"
    "unat m = moved b (unat n) (length (ring_items r))"
proof -
  have le: "moved b (unat n) (length (ring_items r)) \<le> unat n" "moved b (unat n) (length (ring_items r)) \<le> length (ring_items r)"
    by (cases b; simp)+
  then show um: "unat m = moved b (unat n) (length (ring_items r))"
    using unat_less_two_power [of n] by (simp add: m_def unat_of_nat take_bit_nat_eq_self)
  have eq: "c_head (r_cons r) = c_tail (r_cons r)" "c_size (r_cons r) = p_size (r_prod r)"
    "p_tail (r_prod r) - c_tail (r_cons r) = ring_used r"
    using wf by (simp_all add: ring_wf_def ring_used_def)
  have small: "unat m < 2 ^ 31" using um le ring_items_bounded [OF wf] ring_capacity_bound [OF wf] by simp
  have "m \<le> p_mask (r_prod r)"
    using um le ring_items_bounded [OF wf] by (simp add: word_le_nat_alt ring_capacity_def)
  then have copy: "DEQUEUE_PTRS (p_size (r_prod r)) (p_mask (r_prod r)) (c_tail (r_cons r)) m (ring r) obj =
      Some (take (unat m) (ring_items r) @ drop (unat m) obj)"
    using wf um le obj after_dequeue(3) [OF wf, of m] DEQUEUE_PTRS_spec [of _ _ "ring r" m obj "c_tail (r_cons r)"]
    by (simp add: ring_wf_def)
  have enough: "ring_used r < n \<longleftrightarrow> length (ring_items r) < unat n" by (simp add: word_less_nat_alt)
  have none: "after_dequeue 0 r = r"
    using eq(1) by (simp add: after_dequeue_def Let_def set_index_defs flip: eq(1))
  let ?go = "unat n \<le> length (ring_items r) \<or> b = RTE_RING_QUEUE_VARIABLE \<and> 0 < length (ring_items r)"
  have room: "dequeue_room b n (ring_used r) =
      (if ?go then Inr m else Inl (dequeue_answer b (unat n) (length (ring_items r))))"
    using enough by (cases b)
      (auto simp: dequeue_room_def dequeue_answer_def m_def min_def word_less_nat_alt unat_eq_zero)
  have ret: "dequeue_ret b m = dequeue_answer b (unat n) (length (ring_items r))" if ?go
    using that um small int_of_u32_def [of m] by (cases b) (auto simp: dequeue_ret_def dequeue_answer_def)
  have stay: "take (unat m) (ring_items r) @ drop (unat m) obj = obj \<and> after_dequeue m r = r" if "\<not> ?go"
    using that none by (cases b) (auto simp: m_def)
  show "rte_ring_sc_do_dequeue obj n b r =
      Some (dequeue_answer b (unat n) (length (ring_items r)), take (unat m) (ring_items r) @ drop (unat m) obj,
        after_dequeue m r)"
    using room ret stay copy eq
    by (cases ?go) (auto simp: rte_ring_sc_do_dequeue_def Let_def after_dequeue_def set_index_defs)
  show "rte_ring_mc_do_dequeue obj n b r = rte_ring_sc_do_dequeue obj n b r"
    using room copy eq
    by (cases ?go) (auto simp: rte_ring_sc_do_dequeue_def rte_ring_mc_do_dequeue_def Let_def
        rte_atomic32_cmpset_def set_index_defs)
qed

lemma after_enqueue_capacity [simp]: "ring_capacity (after_enqueue m obj r) = ring_capacity r"
  by (simp add: ring_capacity_def after_enqueue_def Let_def set_index_defs)

lemma after_dequeue_capacity [simp]: "ring_capacity (after_dequeue m r) = ring_capacity r"
  by (simp add: ring_capacity_def after_dequeue_def Let_def set_index_defs)

lemma enqueue_bulk_agree:
  "ring_wf r \<Longrightarrow> unat n \<le> length obj \<Longrightarrow>
    rte_ring_enqueue_bulk obj n r = rte_ring_sp_do_enqueue obj n RTE_RING_QUEUE_FIXED r"
  by (simp add: rte_ring_enqueue_bulk_def rte_ring_sp_enqueue_bulk_def rte_ring_mp_enqueue_bulk_def do_enqueue(2))

lemma dequeue_bulk_agree:
  "ring_wf r \<Longrightarrow> unat n \<le> length obj \<Longrightarrow>
    rte_ring_dequeue_bulk obj n r = rte_ring_sc_do_dequeue obj n RTE_RING_QUEUE_FIXED r"
  by (simp add: rte_ring_dequeue_bulk_def rte_ring_sc_dequeue_bulk_def rte_ring_mc_dequeue_bulk_def do_dequeue(2))

lemma rte_ring_enqueue_bulk_1: "rte_ring_enqueue x r = rte_ring_enqueue_bulk [x] 1 r"
  by (simp add: rte_ring_enqueue_def rte_ring_sp_enqueue_def rte_ring_mp_enqueue_def rte_ring_enqueue_bulk_def)

lemma rte_ring_dequeue_bulk_1: "rte_ring_dequeue obj_p r = rte_ring_dequeue_bulk obj_p 1 r"
  by (simp add: rte_ring_dequeue_def rte_ring_sc_dequeue_def rte_ring_mc_dequeue_def rte_ring_dequeue_bulk_def)

section \<open>The ring is a bounded queue\<close>

text \<open>A client of the one-object operations: a push is accepted unless the answer is
  \<^verbatim>\<open>-ENOBUFS\<close>; a pop reads the one slot it passes.\<close>

definition ring_push :: "'a \<Rightarrow> 'a rte_ring \<Rightarrow> (bool \<times> 'a rte_ring) option" where
  "ring_push x r = map_option (\<lambda>(ret, r'). (ret \<noteq> - ENOBUFS, r')) (rte_ring_enqueue x r)"

definition ring_pop :: "'a \<Rightarrow> 'a rte_ring \<Rightarrow> ('a option \<times> 'a rte_ring) option" where
  "ring_pop junk r = map_option (\<lambda>(ret, objs, r'). (if ret = 0 then Some (hd objs) else None, r')) (rte_ring_dequeue [junk] r)"

lemma enqueue_1:
  assumes wf: "ring_wf r"
  shows "rte_ring_enqueue x r =
    (if length (ring_items r) < ring_capacity r
     then Some (if unat (watermark (r_prod r)) \<le> length (ring_items r) + 1 then - EDQUOT else 0, after_enqueue 1 [x] r)
     else Some (- ENOBUFS, r))"
proof -
  have "unat (1 :: u32) \<le> length [x]" by simp
  note enq = enqueue_bulk_agree [OF wf this] do_enqueue(1) [OF wf this, of RTE_RING_QUEUE_FIXED]
  show ?thesis unfolding rte_ring_enqueue_bulk_1 enq
    by (auto simp: enqueue_answer_def Let_def simp del: length_ring_items)
qed

lemma after_dequeue_0: "ring_wf r \<Longrightarrow> after_dequeue 0 r = r"
  by (simp add: ring_wf_def after_dequeue_def Let_def set_index_defs)

lemma dequeue_1:
  assumes wf: "ring_wf r"
  shows "rte_ring_dequeue [junk] r =
    (case ring_items r of [] \<Rightarrow> Some (- ENOENT, [junk], r) | y # ys \<Rightarrow> Some (0, [y], after_dequeue 1 r))"
proof -
  have "unat (1 :: u32) \<le> length [junk]" by simp
  note deq = dequeue_bulk_agree [OF wf this] do_dequeue(1) [OF wf this, of RTE_RING_QUEUE_FIXED]
  show ?thesis unfolding rte_ring_dequeue_bulk_1 deq
    by (auto simp: dequeue_answer_def after_dequeue_0 [OF wf] split: list.split simp del: length_ring_items)
qed

interpretation rr: bounded_fifo ring_push "ring_pop junk" ring_items ring_capacity ring_wf
proof unfold_locales
  fix r :: "'a rte_ring" and x
  assume wf: "ring_wf r"
  show "length (ring_items r) \<le> ring_capacity r" using wf by (rule ring_items_bounded)
  show "\<exists>r'. ring_push x r = Some (False, r') \<and> ring_wf r' \<and> ring_capacity r' = ring_capacity r \<and>
      ring_items r' = ring_items r" if "length (ring_items r) = ring_capacity r"
    using that wf by (simp add: ring_push_def enqueue_1 [OF wf] del: length_ring_items)
  show "\<exists>r'. ring_push x r = Some (True, r') \<and> ring_wf r' \<and> ring_capacity r' = ring_capacity r \<and>
      ring_items r' = ring_items r @ [x]" if "length (ring_items r) < ring_capacity r"
    using that after_enqueue [OF wf, of 1 "[x]"]
    by (simp add: ring_push_def enqueue_1 [OF wf] ENOBUFS_def EDQUOT_def del: length_ring_items)
  show "\<exists>r'. ring_pop junk r = Some (None, r') \<and> ring_wf r' \<and> ring_capacity r' = ring_capacity r \<and> ring_items r' = []"
    if "ring_items r = []"
    using that wf by (simp add: ring_pop_def dequeue_1 [OF wf] ENOENT_def)
  show "\<exists>r'. ring_pop junk r = Some (Some y, r') \<and> ring_wf r' \<and> ring_capacity r' = ring_capacity r \<and>
      ring_items r' = ys" if "ring_items r = y # ys" for y ys
    using that after_dequeue [OF wf, of 1] by (simp add: ring_pop_def dequeue_1 [OF wf] del: length_ring_items)
qed

section \<open>Creation\<close>

lemma and_minus_one_eq_0:
  "0 < (n :: nat) \<Longrightarrow> (n - 1) AND n = 0 \<Longrightarrow> \<exists>k. n = 2 ^ k"
proof (induction n rule: less_induct)
  case (less n)
  show ?case
  proof (cases "even n")
    case True
    then obtain m where m: "n = 2 * m" "0 < m" using less.prems(1) by (auto elim: evenE)
    then have "(n - 1) div 2 = m - 1" "n div 2 = m" by linarith+
    then have "(m - 1) AND m = 0" using less.prems(2) and_nat_rec [of "n - 1" n] by auto
    then obtain k where "m = 2 ^ k" using less.IH [of m] m by auto
    then have "n = 2 ^ Suc k" using m by simp
    then show ?thesis by blast
  next
    case False
    then obtain m where m: "n = 2 * m + 1" by (auto elim: oddE)
    then have "m AND m = 0" using less.prems(2) and_nat_rec [of "n - 1" n] by auto
    then show ?thesis using m by (auto intro: exI [of _ 0])
  qed
qed

lemma POWEROF2_ring_size_ok:
  assumes "POWEROF2 count" "count \<noteq> 0"
  shows "ring_size_ok count (count - 1)"
proof -
  have pos: "0 < unat count" using assms(2) by (simp add: unat_gt_0)
  have "unat (count - 1) AND unat count = unat ((count - 1) AND count)" by (simp add: unsigned_and_eq)
  also have "\<dots> = 0" using assms(1) by (simp add: POWEROF2_def)
  finally obtain k where k: "unat count = 2 ^ k"
    using and_minus_one_eq_0 [OF pos] assms(2) by (auto simp: unat_minus_one)
  have "(2 :: nat) ^ k < 2 ^ 32" using unat_less_two_power [of count] k by simp
  then have "k < 32" by (rule power_less_imp_less_exp [rotated]) simp
  then show ?thesis using k by (auto simp: ring_size_ok_def)
qed

lemma rte_ring_create_wf:
  assumes "rte_ring_create name count flags mem = Inr r" "count \<noteq> 0"
  shows "ring_wf r" "ring_items r = []" "ring_capacity r = unat count - 1"
  using assms POWEROF2_ring_size_ok [of count]
  by (auto simp: rte_ring_create_def ring_wf_def ring_items_def ring_used_def ring_capacity_def get_slots_def
      unat_minus_one split: if_splits option.splits)

text \<open>An example state: one object, the consumer index is about to wrap around.\<close>

definition wrapped_ring :: "nat rte_ring" where
  "wrapped_ring = \<lparr>ring_name = ''r'', ring_flags = 0,
     r_prod = \<lparr>watermark = 3, sp_enqueue = True, p_size = 4, p_mask = 3, p_head = 0, p_tail = 0\<rparr>,
     r_cons = \<lparr>sc_dequeue = False, c_size = 4, c_mask = 3, c_head = 0xffffffff, c_tail = 0xffffffff\<rparr>,
     ring = [10, 20, 30, 40]\<rparr>"

lemma wrapped_ring:
  "ring_wf wrapped_ring" "ring_items wrapped_ring = [40]" "ring_capacity wrapped_ring = 3"
  "unat (watermark (r_prod wrapped_ring)) = 3"
proof -
  have "unat (4 :: u32) = 2 ^ 2" by simp
  then have "ring_size_ok 4 3" unfolding ring_size_ok_def by (intro conjI exI [of _ 2]) simp_all
  then show "ring_wf wrapped_ring" by (simp add: wrapped_ring_def ring_wf_def ring_used_def)
qed (simp_all add: wrapped_ring_def ring_items_def ring_used_def ring_capacity_def get_slots_def)

lemma rte_ring_create_watermark:
  "rte_ring_create name count flags mem = Inr r \<Longrightarrow> watermark (r_prod r) = count"
  by (auto simp: rte_ring_create_def split: if_splits option.splits)

lemma set_water_mark_keeps:
  assumes wf: "ring_wf q"
  shows "unat wm \<le> ring_capacity q \<Longrightarrow> \<exists>q'. rte_ring_set_water_mark wm q = (0, q') \<and> ring_wf q' \<and>
      ring_items q' = ring_items q \<and> watermark (r_prod q') = (if wm = 0 then p_size (r_prod q) else wm)"
    "ring_capacity q < unat wm \<Longrightarrow> rte_ring_set_water_mark wm q = (- EINVAL, q)"
proof -
  have "unat (p_size (r_prod q)) = ring_capacity q + 1"
    using wf unat_ring_mask [of "p_size (r_prod q)" "p_mask (r_prod q)"] by (simp add: ring_wf_def ring_capacity_def)
  then have cmp: "p_size (r_prod q) \<le> wm \<longleftrightarrow> ring_capacity q < unat wm" by (simp add: word_le_nat_alt Suc_le_eq)
  show "\<exists>q'. rte_ring_set_water_mark wm q = (0, q') \<and> ring_wf q' \<and>
      ring_items q' = ring_items q \<and> watermark (r_prod q') = (if wm = 0 then p_size (r_prod q) else wm)"
    if "unat wm \<le> ring_capacity q"
    using that wf cmp by (simp add: rte_ring_set_water_mark_def Let_def ring_wf_def ring_items_def ring_used_def)
  show "rte_ring_set_water_mark wm q = (- EINVAL, q)" if "ring_capacity q < unat wm"
    using that cmp by (simp add: rte_ring_set_water_mark_def)
qed

section \<open>Properties\<close>



text \<open>C2. Dequeue of several objects: the single-consumer and the multi-consumer code agree; the table
  receives the oldest objects in order and keeps its other slots, the ring loses exactly those,
  nothing is accessed outside the arrays; a FIXED dequeue of more than the ring holds answers
  \<^verbatim>\<open>-ENOENT\<close> and changes nothing, a VARIABLE one takes what there is and answers how many.\<close>

theorem rte_ring_dequeue_refines:
  assumes "ring_wf r" "unat n \<le> length obj_table"
  shows "\<exists>r'. rte_ring_sc_do_dequeue obj_table n b r =
      Some (dequeue_answer b (unat n) (length (ring_items r)),
        take (moved b (unat n) (length (ring_items r))) (ring_items r) @
        drop (moved b (unat n) (length (ring_items r))) obj_table, r') \<and>
    rte_ring_mc_do_dequeue obj_table n b r = rte_ring_sc_do_dequeue obj_table n b r \<and>
    ring_wf r' \<and> ring_capacity r' = ring_capacity r \<and>
    ring_items r' = drop (moved b (unat n) (length (ring_items r))) (ring_items r)"
proof -
  let ?m = "moved b (unat n) (length (ring_items r))"
  have "?m \<le> length (ring_items r)" by (cases b; simp)
  then show ?thesis
    using do_dequeue [OF assms, of b] after_dequeue(1,2) [OF assms(1), of "of_nat ?m"] by simp
qed

theorem rte_ring_dequeue_refines_witness:
  "\<exists>r'. rte_ring_mc_do_dequeue [0, 0] 2 RTE_RING_QUEUE_VARIABLE wrapped_ring = Some (1, [40, 0], r') \<and>
    ring_items r' = []"
  using rte_ring_dequeue_refines [OF wrapped_ring(1), of 2 "[0, 0]" RTE_RING_QUEUE_VARIABLE]
  by (auto simp: wrapped_ring dequeue_answer_def simp del: length_ring_items)

text \<open>C3. A ring from \<^verbatim>\<open>rte_ring_create\<close> used through the one-object operations, whatever its
  flags, is a FIFO queue of capacity \<open>count - 1\<close>: for every sequence of pushes and pops the client
  sees exactly the answers of the list, over any number of wrap-arounds of the indices.\<close>

theorem rte_ring_is_fifo:
  assumes "rte_ring_create name count flags mem = Inr r" "count \<noteq> 0"
  shows "\<exists>r'. queue_run ring_push (ring_pop junk) ops r = Some (fst (fifo_run (unat count - 1) ops []), r') \<and>
    ring_items r' = snd (fifo_run (unat count - 1) ops [])"
  using rr.run_refines [OF rte_ring_create_wf(1) [OF assms], of junk ops] rte_ring_create_wf(2,3) [OF assms] by auto

theorem rte_ring_is_fifo_witness:
  "\<exists>r r'. rte_ring_create ''q'' 2 RING_F_SP_ENQ (Some (\<lambda>_. 0 :: nat)) = Inr r \<and>
    queue_run ring_push (ring_pop 0) [Push 5, Push 6, Pop, Pop] r =
      Some ([Pushed True, Pushed False, Popped (Some 5), Popped None], r')"
proof -
  obtain r where r: "rte_ring_create ''q'' 2 RING_F_SP_ENQ (Some (\<lambda>_. 0 :: nat)) = Inr r"
    by (simp add: rte_ring_create_def POWEROF2_def RTE_RING_SZ_MASK_def)
  from rte_ring_is_fifo [OF r, of 0 "[Push 5, Push 6, Pop, Pop]"] r show ?thesis by auto
qed

text \<open>C31. The status functions of a ring in a consistent state: \<^verbatim>\<open>rte_ring_count\<close> is the number
  of objects, \<^verbatim>\<open>rte_ring_free_count\<close> the number that still fit, and \<^verbatim>\<open>rte_ring_full\<close> and
  \<^verbatim>\<open>rte_ring_empty\<close> say whether one of them is zero.\<close>

theorem rte_ring_counts:
  assumes "ring_wf r"
  shows "unat (rte_ring_count r) = length (ring_items r) \<and>
    unat (rte_ring_free_count r) = ring_capacity r - length (ring_items r) \<and>
    (rte_ring_full r \<longleftrightarrow> length (ring_items r) = ring_capacity r) \<and> (rte_ring_empty r \<longleftrightarrow> ring_items r = [])"
proof -
  have ok: "ring_size_ok (p_size (r_prod r)) (p_mask (r_prod r))" and used: "ring_used r \<le> p_mask (r_prod r)"
    using assms by (simp_all add: ring_wf_def)
  have sz: "unat (p_size (r_prod r)) = unat (p_mask (r_prod r)) + 1" using unat_ring_mask [OF ok] by simp
  have "c_tail (r_cons r) - p_tail (r_prod r) - 1 = (p_mask (r_prod r) - ring_used r) - p_size (r_prod r)"
    using ok by (auto simp: ring_size_ok_def ring_used_def)
  moreover have "unat ((x - p_size (r_prod r)) AND p_mask (r_prod r)) = unat x mod unat (p_size (r_prod r))" for x
    using wrapped_index_mod [OF ok, of "x - p_size (r_prod r)" "unat (p_size (r_prod r))"] unat_mask_index [OF ok]
    by simp
  ultimately have free: "unat (rte_ring_free_count r) = ring_capacity r - length (ring_items r)"
    using used sz by (simp add: rte_ring_free_count_def unat_sub_le ring_capacity_def)
  moreover have "unat (rte_ring_count r) = length (ring_items r)"
    using used sz unat_mask_index [OF ok, of "ring_used r"]
    by (simp add: rte_ring_count_def word_le_nat_alt flip: ring_used_def)
  moreover have "rte_ring_full r \<longleftrightarrow> unat (rte_ring_free_count r) = 0"
    by (simp add: rte_ring_full_def rte_ring_free_count_def unat_eq_zero)
  moreover have "rte_ring_empty r \<longleftrightarrow> ring_used r = 0"
    by (auto simp: rte_ring_empty_def ring_used_def)
  ultimately show ?thesis
    using ring_items_bounded [OF assms] by (auto simp: unat_eq_zero simp flip: length_0_conv)
qed

theorem rte_ring_counts_witness:
  "unat (rte_ring_count wrapped_ring) = 1 \<and> unat (rte_ring_free_count wrapped_ring) = 2 \<and> \<not> rte_ring_full wrapped_ring"
  using rte_ring_counts [OF wrapped_ring(1)] by (simp add: wrapped_ring del: length_ring_items)



text \<open>C40. A count of zero passes the power-of-two test: \<^verbatim>\<open>rte_ring_create\<close> returns a ring without
  slots, which reports \<open>2^32 - 1\<close> free entries, and the first enqueue writes outside the ring.\<close>

theorem rte_ring_create_count_0:
  "\<exists>r. rte_ring_create name 0 flags (Some junk) = Inr r \<and> ring r = [] \<and>
     unat (rte_ring_free_count r) = 2 ^ 32 - 1 \<and> rte_ring_enqueue x r = None"
proof -
  obtain r where r: "rte_ring_create name 0 flags (Some junk) = Inr r"
    by (simp add: rte_ring_create_def POWEROF2_def RTE_RING_SZ_MASK_def)
  then have "ring r = []" "p_size (r_prod r) = 0" "p_mask (r_prod r) = - 1" "p_head (r_prod r) = 0"
    "p_tail (r_prod r) = 0" "c_tail (r_cons r) = 0"
    by (auto simp: rte_ring_create_def split: if_splits)
  then have "rte_ring_enqueue x r = None" "unat (rte_ring_free_count r) = 2 ^ 32 - 1"
    by (simp_all add: rte_ring_enqueue_bulk_1 rte_ring_enqueue_bulk_def rte_ring_sp_enqueue_bulk_def rte_ring_mp_enqueue_bulk_def
        rte_ring_sp_do_enqueue_def rte_ring_mp_do_enqueue_def rte_atomic32_cmpset_def set_index_defs Let_def
        enqueue_room_def ENQUEUE_PTRS_def copy1_def rd_def wr_def rte_ring_free_count_def
        unsigned_minus_1_eq_mask mask_eq_exp_minus_1)
  then show ?thesis using r \<open>ring r = []\<close> by blast
qed

end
