(* ===== verification/Mpmc_Ring.thy ===== *)
theory Mpmc_Ring
  imports Fifo_Spec
begin

text \<open>
  Model of \<^verbatim>\<open>mpmc::Ring\<close> of \<^verbatim>\<open>src/cpp-util/lockfreeQueue.h\<close>, the bounded queue for several
  producers and consumers. Each operation is a small state machine whose steps are the accesses to
  the shared atomics, in the order of the code: \<^verbatim>\<open>pc\<close> is the program counter of a thread
  together with its local variables, and one step function per operation executes the next access.
  The steps of several threads interleave arbitrarily in the relation \<open>mpmc_step\<close>; an operation that
  runs alone is the iteration of its steps. The 64-bit tickets \<^verbatim>\<open>head_\<close> and \<^verbatim>\<open>tail_\<close> are
  naturals: they would need \<open>2^64\<close> operations to wrap.

  A step aborts (\<^const>\<open>None\<close>) if it accesses a slot outside the array, constructs an object where
  one is alive, or moves out of a slot without an object.
\<close>

section \<open>Data\<close>

record 'a slot =
  slot_turn :: nat
  storage :: "'a option"

record 'a mpmc =
  m_capacity :: nat
  m_slots :: "'a slot list"
  m_head :: nat
  m_tail :: nat

text \<open>\<^verbatim>\<open>allocated\<close> is whether the allocator returned memory of the right alignment; the one slot
  more than the capacity that is allocated is never constructed and never used.\<close>

definition Ring_new :: "nat \<Rightarrow> bool \<Rightarrow> 'a mpmc option" where
  "Ring_new capacity allocated =
     (if capacity < 1 then None
      else if \<not> allocated then None
      else Some \<lparr>m_capacity = capacity, m_slots = replicate capacity \<lparr>slot_turn = 0, storage = None\<rparr>,
             m_head = 0, m_tail = 0\<rparr>)"

definition idx :: "'a mpmc \<Rightarrow> nat \<Rightarrow> nat" where
  "idx r i = i mod m_capacity r"

definition turn :: "'a mpmc \<Rightarrow> nat \<Rightarrow> nat" where
  "turn r i = i div m_capacity r"

text \<open>The accesses to the slot of a ticket.\<close>

definition load_turn :: "'a mpmc \<Rightarrow> nat \<Rightarrow> nat option" where
  "load_turn r t = map_option slot_turn (rd (m_slots r) (idx r t))"

definition store_turn :: "nat \<Rightarrow> nat \<Rightarrow> 'a mpmc \<Rightarrow> 'a mpmc option" where
  "store_turn t v r = do {
     s \<leftarrow> rd (m_slots r) (idx r t);
     ss \<leftarrow> wr (m_slots r) (idx r t) (s\<lparr>slot_turn := v\<rparr>);
     Some (r\<lparr>m_slots := ss\<rparr>) }"

definition Slot_construct :: "nat \<Rightarrow> 'a \<Rightarrow> 'a mpmc \<Rightarrow> 'a mpmc option" where
  "Slot_construct t v r = do {
     s \<leftarrow> rd (m_slots r) (idx r t);
     assert (storage s = None);
     ss \<leftarrow> wr (m_slots r) (idx r t) (s\<lparr>storage := Some v\<rparr>);
     Some (r\<lparr>m_slots := ss\<rparr>) }"

text \<open>\<^verbatim>\<open>v = slot.move(); slot.destroy();\<close>\<close>

definition Slot_move_destroy :: "nat \<Rightarrow> 'a mpmc \<Rightarrow> ('a \<times> 'a mpmc) option" where
  "Slot_move_destroy t r = do {
     s \<leftarrow> rd (m_slots r) (idx r t);
     v \<leftarrow> storage s;
     ss \<leftarrow> wr (m_slots r) (idx r t) (s\<lparr>storage := None\<rparr>);
     Some (v, r\<lparr>m_slots := ss\<rparr>) }"

section \<open>The operations, step by step\<close>

text \<open>Where a thread is in an operation. The arguments are its locals: the ticket \<^verbatim>\<open>head\<close> or
  \<^verbatim>\<open>tail\<close> and the value being pushed. \<open>Emplace\<close> and \<open>PopCall\<close> are about to take a ticket with
  \<^verbatim>\<open>fetch_add\<close>, \<open>EmplaceSpin\<close> and \<open>PopSpin\<close> wait for the turn of their slot, \<open>EmplaceConstruct\<close> and
  \<open>PopMove\<close> own the slot, \<open>EmplaceStore\<close> and \<open>PopStore\<close> are about to publish the new turn;
  \<open>TryEmplace\<close> is about to load \<^verbatim>\<open>head_\<close>, \<open>TryEmplaceTurn\<close> to load the turn,
  \<open>TryEmplaceCas\<close> to compare-exchange \<^verbatim>\<open>head_\<close> and \<open>TryEmplaceReload\<close> to load it again,
  the same for \<open>TryPop\<close>; \<open>Pushed_ret\<close> and \<open>Popped_ret\<close> have returned.\<close>

datatype 'a pc =
    Idle
  | Emplace 'a
  | EmplaceSpin nat 'a
  | EmplaceConstruct nat 'a
  | EmplaceStore nat 'a
  | TryEmplace 'a
  | TryEmplaceTurn nat 'a
  | TryEmplaceCas nat 'a
  | TryEmplaceReload nat 'a
  | PopCall
  | PopSpin nat
  | PopMove nat
  | PopStore nat 'a
  | TryPop
  | TryPopTurn nat
  | TryPopCas nat
  | TryPopReload nat
  | Pushed_ret bool
  | Popped_ret "'a option"

fun emplace_step :: "'a mpmc \<Rightarrow> 'a pc \<Rightarrow> ('a mpmc \<times> 'a pc) option" where
  "emplace_step r (Emplace v) = Some (r\<lparr>m_head := m_head r + 1\<rparr>, EmplaceSpin (m_head r) v)"
| "emplace_step r (EmplaceSpin head v) = do {
     t \<leftarrow> load_turn r head;
     Some (r, if turn r head * 2 \<noteq> t then EmplaceSpin head v else EmplaceConstruct head v) }"
| "emplace_step r (EmplaceConstruct head v) = do {
     r \<leftarrow> Slot_construct head v r;
     Some (r, EmplaceStore head v) }"
| "emplace_step r (EmplaceStore head v) = do {
     r \<leftarrow> store_turn head (turn r head * 2 + 1) r;
     Some (r, Pushed_ret True) }"
| "emplace_step r _ = None"

fun try_emplace_step :: "'a mpmc \<Rightarrow> 'a pc \<Rightarrow> ('a mpmc \<times> 'a pc) option" where
  "try_emplace_step r (TryEmplace v) = Some (r, TryEmplaceTurn (m_head r) v)"
| "try_emplace_step r (TryEmplaceTurn head v) = do {
     t \<leftarrow> load_turn r head;
     Some (r, if turn r head * 2 = t then TryEmplaceCas head v else TryEmplaceReload head v) }"
| "try_emplace_step r (TryEmplaceCas head v) =
     (if m_head r = head then Some (r\<lparr>m_head := head + 1\<rparr>, EmplaceConstruct head v)
      else Some (r, TryEmplaceTurn (m_head r) v))"
| "try_emplace_step r (TryEmplaceReload head v) =
     Some (r, if m_head r = head then Pushed_ret False else TryEmplaceTurn (m_head r) v)"
| "try_emplace_step r _ = None"

fun pop_step :: "'a mpmc \<Rightarrow> 'a pc \<Rightarrow> ('a mpmc \<times> 'a pc) option" where
  "pop_step r PopCall = Some (r\<lparr>m_tail := m_tail r + 1\<rparr>, PopSpin (m_tail r))"
| "pop_step r (PopSpin tail) = do {
     t \<leftarrow> load_turn r tail;
     Some (r, if turn r tail * 2 + 1 \<noteq> t then PopSpin tail else PopMove tail) }"
| "pop_step r (PopMove tail) = do {
     (v, r) \<leftarrow> Slot_move_destroy tail r;
     Some (r, PopStore tail v) }"
| "pop_step r (PopStore tail v) = do {
     r \<leftarrow> store_turn tail (turn r tail * 2 + 2) r;
     Some (r, Popped_ret (Some v)) }"
| "pop_step r _ = None"

fun try_pop_step :: "'a mpmc \<Rightarrow> 'a pc \<Rightarrow> ('a mpmc \<times> 'a pc) option" where
  "try_pop_step r TryPop = Some (r, TryPopTurn (m_tail r))"
| "try_pop_step r (TryPopTurn tail) = do {
     t \<leftarrow> load_turn r tail;
     Some (r, if turn r tail * 2 + 1 = t then TryPopCas tail else TryPopReload tail) }"
| "try_pop_step r (TryPopCas tail) =
     (if m_tail r = tail then Some (r\<lparr>m_tail := tail + 1\<rparr>, PopMove tail)
      else Some (r, TryPopTurn (m_tail r)))"
| "try_pop_step r (TryPopReload tail) =
     Some (r, if m_tail r = tail then Popped_ret None else TryPopTurn (m_tail r))"
| "try_pop_step r _ = None"

text \<open>The next step of a thread; after the compare-exchange \<^verbatim>\<open>try_emplace\<close> and \<^verbatim>\<open>try_pop\<close> end
  with the same two accesses as \<^verbatim>\<open>emplace\<close> and \<^verbatim>\<open>pop\<close>.\<close>

fun thread_step :: "'a mpmc \<Rightarrow> 'a pc \<Rightarrow> ('a mpmc \<times> 'a pc) option" where
  "thread_step r (TryEmplace v) = try_emplace_step r (TryEmplace v)"
| "thread_step r (TryEmplaceTurn h v) = try_emplace_step r (TryEmplaceTurn h v)"
| "thread_step r (TryEmplaceCas h v) = try_emplace_step r (TryEmplaceCas h v)"
| "thread_step r (TryEmplaceReload h v) = try_emplace_step r (TryEmplaceReload h v)"
| "thread_step r TryPop = try_pop_step r TryPop"
| "thread_step r (TryPopTurn t) = try_pop_step r (TryPopTurn t)"
| "thread_step r (TryPopCas t) = try_pop_step r (TryPopCas t)"
| "thread_step r (TryPopReload t) = try_pop_step r (TryPopReload t)"
| "thread_step r PopCall = pop_step r PopCall"
| "thread_step r (PopSpin t) = pop_step r (PopSpin t)"
| "thread_step r (PopMove t) = pop_step r (PopMove t)"
| "thread_step r (PopStore t v) = pop_step r (PopStore t v)"
| "thread_step r c = emplace_step r c"

definition running :: "'a pc \<Rightarrow> bool" where
  "running c \<longleftrightarrow> (case c of Idle \<Rightarrow> False | Pushed_ret _ \<Rightarrow> False | Popped_ret _ \<Rightarrow> False | _ \<Rightarrow> True)"

text \<open>An operation that runs alone, for at most \<open>fuel\<close> steps.\<close>

fun run_alone :: "nat \<Rightarrow> 'a mpmc \<Rightarrow> 'a pc \<Rightarrow> ('a mpmc \<times> 'a pc) option" where
  "run_alone 0 r c = (if running c then None else Some (r, c))"
| "run_alone (Suc fuel) r c =
     (if running c then do { (r, c) \<leftarrow> thread_step r c; run_alone fuel r c } else Some (r, c))"

definition try_push :: "'a \<Rightarrow> 'a mpmc \<Rightarrow> (bool \<times> 'a mpmc) option" where
  "try_push v r = do {
     (r, c) \<leftarrow> run_alone 5 r (TryEmplace v);
     case c of Pushed_ret b \<Rightarrow> Some (b, r) | _ \<Rightarrow> None }"

definition try_pop :: "'a mpmc \<Rightarrow> ('a option \<times> 'a mpmc) option" where
  "try_pop r = do {
     (r, c) \<leftarrow> run_alone 5 r TryPop;
     case c of Popped_ret v \<Rightarrow> Some (v, r) | _ \<Rightarrow> None }"

definition Ring_size :: "'a mpmc \<Rightarrow> int" where
  "Ring_size r = int (m_head r) - int (m_tail r)"

definition Ring_empty :: "'a mpmc \<Rightarrow> bool" where
  "Ring_empty r \<longleftrightarrow> Ring_size r \<le> 0"

section \<open>Several threads\<close>

text \<open>The shared ring, the threads, and two logs that the code does not have: \<open>hist\<close>, the values in
  the order their tickets were taken, and \<open>taken\<close>, the values moved out with their tickets.\<close>

record 'a mpmc_sys =
  sys_ring :: "'a mpmc"
  pcs :: "nat \<Rightarrow> 'a pc"
  hist :: "'a list"
  taken :: "(nat \<times> 'a) list"

fun push_value :: "'a pc \<Rightarrow> 'a list" where
  "push_value (Emplace v) = [v]"
| "push_value (TryEmplaceCas h v) = [v]"
| "push_value _ = []"

fun moved_out :: "'a pc \<Rightarrow> 'a pc \<Rightarrow> (nat \<times> 'a) list" where
  "moved_out (PopMove t) (PopStore t' v) = [(t, v)]"
| "moved_out _ _ = []"

inductive mpmc_step :: "'a mpmc_sys \<Rightarrow> 'a mpmc_sys \<Rightarrow> bool" where
  call: "\<not> running (pcs s p) \<Longrightarrow> c \<in> {Emplace v, TryEmplace v, PopCall, TryPop} \<Longrightarrow>
    mpmc_step s (s\<lparr>pcs := (pcs s)(p := c)\<rparr>)"
| run: "running (pcs s p) \<Longrightarrow> thread_step (sys_ring s) (pcs s p) = Some (r', c') \<Longrightarrow>
    mpmc_step s (s\<lparr>sys_ring := r', pcs := (pcs s)(p := c'),
      hist := hist s @ (if m_head r' = m_head (sys_ring s) then [] else push_value (pcs s p)),
      taken := taken s @ moved_out (pcs s p) c'\<rparr>)"

inductive mpmc_reachable :: "nat \<Rightarrow> 'a mpmc_sys \<Rightarrow> bool" for n where
  start: "Ring_new n True = Some r \<Longrightarrow>
    mpmc_reachable n \<lparr>sys_ring = r, pcs = (\<lambda>_. Idle), hist = [], taken = []\<rparr>"
| step: "mpmc_reachable n s \<Longrightarrow> mpmc_step s s' \<Longrightarrow> mpmc_reachable n s'"

section \<open>The invariant\<close>

definition turn_of :: "'a mpmc \<Rightarrow> nat \<Rightarrow> nat" where
  "turn_of r t = slot_turn (m_slots r ! idx r t)"

definition storage_of :: "'a mpmc \<Rightarrow> nat \<Rightarrow> 'a option" where
  "storage_of r t = storage (m_slots r ! idx r t)"

fun push_ticket :: "'a pc \<Rightarrow> nat option" where
  "push_ticket (EmplaceSpin h v) = Some h"
| "push_ticket (EmplaceConstruct h v) = Some h"
| "push_ticket (EmplaceStore h v) = Some h"
| "push_ticket _ = None"

fun pop_ticket :: "'a pc \<Rightarrow> nat option" where
  "pop_ticket (PopSpin t) = Some t"
| "pop_ticket (PopMove t) = Some t"
| "pop_ticket (PopStore t v) = Some t"
| "pop_ticket _ = None"

text \<open>What a thread may rely on, by its program counter.\<close>

fun thread_ok :: "'a mpmc \<Rightarrow> 'a list \<Rightarrow> (nat \<times> 'a) list \<Rightarrow> 'a pc \<Rightarrow> bool" where
  "thread_ok r hs tk (EmplaceSpin h v) \<longleftrightarrow> h < m_head r \<and> hs ! h = v \<and> turn_of r h \<le> 2 * turn r h"
| "thread_ok r hs tk (EmplaceConstruct h v) \<longleftrightarrow> h < m_head r \<and> hs ! h = v \<and> turn_of r h = 2 * turn r h"
| "thread_ok r hs tk (EmplaceStore h v) \<longleftrightarrow>
     h < m_head r \<and> hs ! h = v \<and> turn_of r h = 2 * turn r h \<and> storage_of r h = Some v"
| "thread_ok r hs tk (TryEmplaceCas h v) \<longleftrightarrow> 2 * turn r h \<le> turn_of r h"
| "thread_ok r hs tk (PopSpin t) \<longleftrightarrow> t < m_tail r \<and> turn_of r t \<le> 2 * turn r t + 1 \<and> t \<notin> fst ` set tk"
| "thread_ok r hs tk (PopMove t) \<longleftrightarrow> t < m_tail r \<and> turn_of r t = 2 * turn r t + 1 \<and> t \<notin> fst ` set tk"
| "thread_ok r hs tk (PopStore t v) \<longleftrightarrow> t < m_tail r \<and> turn_of r t = 2 * turn r t + 1 \<and> storage_of r t = None"
| "thread_ok r hs tk (TryPopCas t) \<longleftrightarrow> 2 * turn r t + 1 \<le> turn_of r t"
| "thread_ok r hs tk _ \<longleftrightarrow> True"

definition ring_ok :: "'a mpmc \<Rightarrow> bool" where
  "ring_ok r \<longleftrightarrow> 0 < m_capacity r \<and> length (m_slots r) = m_capacity r \<and>
     (\<forall>t\<ge>m_head r. turn_of r t \<le> 2 * turn r t) \<and> (\<forall>t\<ge>m_tail r. turn_of r t \<le> 2 * turn r t + 1)"

text \<open>A slot holds an object exactly while its turn says so, but for the thread that is about to
  publish the change.\<close>

definition nobody :: "('a \<Rightarrow> 'a pc) \<Rightarrow> (nat \<Rightarrow> 'a pc) \<Rightarrow> bool" where
  "nobody at ps \<longleftrightarrow> (\<forall>p v. ps p \<noteq> at v)"

definition slots_ok :: "'a mpmc \<Rightarrow> (nat \<Rightarrow> 'a pc) \<Rightarrow> 'a list \<Rightarrow> bool" where
  "slots_ok r ps hs \<longleftrightarrow>
     (\<forall>t. turn_of r t = 2 * turn r t \<and> nobody (EmplaceStore t) ps \<longrightarrow> storage_of r t = None) \<and>
     (\<forall>t. turn_of r t = 2 * turn r t + 1 \<and> nobody (PopStore t) ps \<longrightarrow> storage_of r t = Some (hs ! t))"

definition tickets_unique :: "(nat \<Rightarrow> 'a pc) \<Rightarrow> bool" where
  "tickets_unique ps \<longleftrightarrow> (\<forall>p q t. p \<noteq> q \<longrightarrow>
     \<not> (push_ticket (ps p) = Some t \<and> push_ticket (ps q) = Some t) \<and>
     \<not> (pop_ticket (ps p) = Some t \<and> pop_ticket (ps q) = Some t))"

definition taken_ok :: "'a mpmc \<Rightarrow> 'a list \<Rightarrow> (nat \<times> 'a) list \<Rightarrow> bool" where
  "taken_ok r hs tk \<longleftrightarrow> distinct (map fst tk) \<and> (\<forall>(t, v)\<in>set tk. t < m_tail r \<and> t < length hs \<and> v = hs ! t)"

definition mpmc_inv :: "'a mpmc_sys \<Rightarrow> bool" where
  "mpmc_inv s \<longleftrightarrow> ring_ok (sys_ring s) \<and> length (hist s) = m_head (sys_ring s) \<and>
     (\<forall>p. thread_ok (sys_ring s) (hist s) (taken s) (pcs s p)) \<and>
     tickets_unique (pcs s) \<and> slots_ok (sys_ring s) (pcs s) (hist s) \<and> taken_ok (sys_ring s) (hist s) (taken s)"

lemma mpmc_invD:
  assumes "mpmc_inv s"
  shows "ring_ok (sys_ring s)" "length (hist s) = m_head (sys_ring s)"
    "\<And>p. thread_ok (sys_ring s) (hist s) (taken s) (pcs s p)"
    "tickets_unique (pcs s)" "slots_ok (sys_ring s) (pcs s) (hist s)" "taken_ok (sys_ring s) (hist s) (taken s)"
  using assms by (simp_all add: mpmc_inv_def)

text \<open>Tickets that share a slot.\<close>

lemma same_slot_same_turn: "idx r t = idx r u \<Longrightarrow> turn r t = turn r u \<Longrightarrow> t = u"
  unfolding idx_def turn_def by (metis div_mult_mod_eq)

lemma same_slot_less:
  assumes "idx r t = idx r u" "t < u"
  shows "turn r t < turn r u"
proof -
  have "turn r t \<le> turn r u" using assms(2) by (simp add: turn_def div_le_mono)
  moreover have "turn r t \<noteq> turn r u" using same_slot_same_turn [OF assms(1)] assms(2) by blast
  ultimately show ?thesis by simp
qed

lemma same_slot_turn_of: "idx r t = idx r u \<Longrightarrow> turn_of r t = turn_of r u"
  by (simp add: turn_of_def)

definition with_turn :: "nat \<Rightarrow> nat \<Rightarrow> 'a mpmc \<Rightarrow> 'a mpmc" where
  "with_turn t v r = r\<lparr>m_slots := (m_slots r)[idx r t := (m_slots r ! idx r t)\<lparr>slot_turn := v\<rparr>]\<rparr>"

definition with_storage :: "nat \<Rightarrow> 'a option \<Rightarrow> 'a mpmc \<Rightarrow> 'a mpmc" where
  "with_storage t v r = r\<lparr>m_slots := (m_slots r)[idx r t := (m_slots r ! idx r t)\<lparr>storage := v\<rparr>]\<rparr>"

text \<open>The slot accesses succeed on a ring of the right size, and change one slot.\<close>

definition shape_ok :: "'a mpmc \<Rightarrow> bool" where
  "shape_ok r \<longleftrightarrow> 0 < m_capacity r \<and> length (m_slots r) = m_capacity r"

lemma ring_ok_shape [simp]: "ring_ok r \<Longrightarrow> shape_ok r"
  by (simp add: ring_ok_def shape_ok_def)

lemma idx_in_range: "shape_ok r \<Longrightarrow> idx r t < length (m_slots r)"
  by (simp add: shape_ok_def idx_def)

lemma load_turn_ok: "shape_ok r \<Longrightarrow> load_turn r t = Some (turn_of r t)"
  using idx_in_range [of r t] by (simp add: load_turn_def turn_of_def)

lemma store_turn_ok:
  "shape_ok r \<Longrightarrow> store_turn t v r = Some (with_turn t v r)"
  using idx_in_range [of r t] by (simp add: store_turn_def with_turn_def)

lemma Slot_construct_ok:
  "shape_ok r \<Longrightarrow> storage_of r t = None \<Longrightarrow>
    Slot_construct t v r = Some (with_storage t (Some v) r)"
  using idx_in_range [of r t] by (simp add: Slot_construct_def storage_of_def with_storage_def)

lemma Slot_move_destroy_ok:
  "shape_ok r \<Longrightarrow> storage_of r t = Some v \<Longrightarrow> Slot_move_destroy t r =
    Some (v, with_storage t None r)"
  using idx_in_range [of r t] by (simp add: Slot_move_destroy_def storage_of_def with_storage_def)

lemma Slot_access_fails:
  "storage_of r t \<noteq> None \<Longrightarrow> Slot_construct t v r = None" "storage_of r t = None \<Longrightarrow> Slot_move_destroy t r = None"
  by (auto simp: Slot_construct_def Slot_move_destroy_def storage_of_def rd_def assert_def)

lemma with_turn:
  "shape_ok r \<Longrightarrow> turn_of (with_turn t v r) u = (if idx r u = idx r t then v else turn_of r u)"
  "shape_ok r \<Longrightarrow> storage_of (with_turn t v r) u = storage_of r u"
  using idx_in_range [of r t]
  by (auto simp: with_turn_def turn_of_def storage_of_def idx_def nth_list_update)

lemma with_storage:
  "shape_ok r \<Longrightarrow> storage_of (with_storage t v r) u = (if idx r u = idx r t then v else storage_of r u)"
  "shape_ok r \<Longrightarrow> turn_of (with_storage t v r) u = turn_of r u"
  using idx_in_range [of r t]
  by (auto simp: with_storage_def turn_of_def storage_of_def idx_def nth_list_update)

lemma with_fields [simp]:
  "turn (with_turn t w r) u = turn r u" "m_head (with_turn t w r) = m_head r" "m_tail (with_turn t w r) = m_tail r"
  "m_capacity (with_turn t w r) = m_capacity r" "length (m_slots (with_turn t w r)) = length (m_slots r)"
  "idx (with_turn t w r) u = idx r u"
  "turn (with_storage t v r) u = turn r u" "m_head (with_storage t v r) = m_head r" "m_tail (with_storage t v r) = m_tail r"
  "m_capacity (with_storage t v r) = m_capacity r" "length (m_slots (with_storage t v r)) = length (m_slots r)"
  "idx (with_storage t v r) u = idx r u"
  by (simp_all add: with_turn_def with_storage_def turn_def idx_def)

lemma after_tickets [simp]:
  "turn_of (r\<lparr>m_head := h\<rparr>) t = turn_of r t" "turn_of (r\<lparr>m_tail := h\<rparr>) t = turn_of r t"
  "storage_of (r\<lparr>m_head := h\<rparr>) t = storage_of r t" "storage_of (r\<lparr>m_tail := h\<rparr>) t = storage_of r t"
  "turn (r\<lparr>m_head := h\<rparr>) t = turn r t" "turn (r\<lparr>m_tail := h\<rparr>) t = turn r t"
  by (simp_all add: turn_of_def storage_of_def turn_def idx_def)

section \<open>Every step keeps the invariant\<close>

definition publishing :: "'a pc \<Rightarrow> bool" where
  "publishing c \<longleftrightarrow> (case c of EmplaceStore _ _ \<Rightarrow> True | PopStore _ _ \<Rightarrow> True | _ \<Rightarrow> False)"

lemma not_publishing: "\<not> publishing c \<Longrightarrow> c \<noteq> EmplaceStore t v" "\<not> publishing c \<Longrightarrow> c \<noteq> PopStore t v"
  by (auto simp: publishing_def)

lemma nobody_upd:
  "(\<And>w. ps p \<noteq> at w) \<Longrightarrow> nobody at (ps(p := c)) \<longleftrightarrow> (\<forall>w. c \<noteq> at w) \<and> nobody at ps"
  unfolding nobody_def by (metis fun_upd_apply)

lemma tickets_unique_upd:
  assumes "tickets_unique ps"
    and "\<And>q t. q \<noteq> p \<Longrightarrow> push_ticket c = Some t \<Longrightarrow> push_ticket (ps q) \<noteq> Some t"
    and "\<And>q t. q \<noteq> p \<Longrightarrow> pop_ticket c = Some t \<Longrightarrow> pop_ticket (ps q) \<noteq> Some t"
  shows "tickets_unique (ps(p := c))"
  using assms unfolding tickets_unique_def by (metis fun_upd_apply)

lemma tickets_unique_same:
  assumes "tickets_unique ps" "push_ticket c = push_ticket (ps p)" "pop_ticket c = pop_ticket (ps p)"
  shows "tickets_unique (ps(p := c))"
  using assms unfolding tickets_unique_def by (auto simp: fun_upd_def)

lemma tickets_unique_none:
  "tickets_unique ps \<Longrightarrow> push_ticket c = None \<Longrightarrow> pop_ticket c = None \<Longrightarrow> tickets_unique (ps(p := c))"
  by (rule tickets_unique_upd) auto

lemma thread_ok_tickets:
  "thread_ok r hs tk c \<Longrightarrow> push_ticket c = Some t \<Longrightarrow> t < m_head r"
  "thread_ok r hs tk c \<Longrightarrow> pop_ticket c = Some t \<Longrightarrow> t < m_tail r"
  by (cases c; auto)+

lemma thread_ok_mono:
  assumes "thread_ok r hs tk c" "length hs = m_head r"
    and "m_slots r' = m_slots r" "m_capacity r' = m_capacity r" "m_head r \<le> m_head r'" "m_tail r \<le> m_tail r'"
  shows "thread_ok r' (hs @ x) tk c"
  using assms by (cases c) (auto simp: turn_of_def storage_of_def turn_def idx_def nth_append)

text \<open>Steps that touch no slot: the loads, the ticket counters, the calls and the returns.\<close>

lemma quiet_step:
  assumes inv: "mpmc_inv s"
    and r': "m_slots r' = m_slots (sys_ring s)" "m_capacity r' = m_capacity (sys_ring s)"
      "m_head (sys_ring s) \<le> m_head r'" "m_tail (sys_ring s) \<le> m_tail r'"
    and len: "length (hist s @ x) = m_head r'"
    and ok: "thread_ok r' (hist s @ x) (taken s) c'"
    and uniq: "tickets_unique ((pcs s)(p := c'))"
    and pub: "\<not> publishing (pcs s p)" "\<not> publishing c'"
  shows "mpmc_inv (s\<lparr>sys_ring := r', pcs := (pcs s)(p := c'), hist := hist s @ x\<rparr>)"
proof -
  note D = mpmc_invD [OF inv]
  have eq: "turn_of r' t = turn_of (sys_ring s) t" "storage_of r' t = storage_of (sys_ring s) t"
    "turn r' t = turn (sys_ring s) t" for t
    using r' by (simp_all add: turn_of_def storage_of_def turn_def idx_def)
  have "ring_ok r'" using D(1) r' by (auto simp: ring_ok_def eq)
  moreover have "thread_ok r' (hist s @ x) (taken s) (((pcs s)(p := c')) q)" for q
    using ok thread_ok_mono [OF D(3) [of q] D(2) r'] by simp
  moreover have "slots_ok r' ((pcs s)(p := c')) (hist s @ x)"
  proof -
    have old: "t < length (hist s)" if "turn_of (sys_ring s) t = 2 * turn (sys_ring s) t + 1" for t
      using that D(1,2) by (auto simp: ring_ok_def not_less dest!: spec [of _ t] intro: ccontr)
    have stores: "nobody (EmplaceStore t) ((pcs s)(p := c')) \<longleftrightarrow> nobody (EmplaceStore t) (pcs s)"
      "nobody (PopStore t) ((pcs s)(p := c')) \<longleftrightarrow> nobody (PopStore t) (pcs s)" for t
      using pub by (simp_all add: nobody_upd not_publishing del: fun_upd_apply)
    show ?thesis
      using D(5) old unfolding slots_ok_def eq stores by (simp add: nth_append)
  qed
  moreover have "taken_ok r' (hist s @ x) (taken s)"
    using D(6) r' by (auto simp: taken_ok_def nth_append split: prod.splits)
  ultimately show ?thesis using len uniq by (simp add: mpmc_inv_def)
qed

text \<open>The four steps that change a slot. Two owners of one slot are two tickets of different turns.\<close>

lemma construct_step:
  assumes inv: "mpmc_inv s" and pc: "pcs s p = EmplaceConstruct h v"
  shows "storage_of (sys_ring s) h = None"
    "mpmc_inv (s\<lparr>sys_ring := with_storage h (Some v) (sys_ring s), pcs := (pcs s)(p := EmplaceStore h v)\<rparr>)"
proof -
  let ?r = "sys_ring s" let ?r' = "with_storage h (Some v) ?r" and ?ps = "(pcs s)(p := EmplaceStore h v)"
  note D = mpmc_invD [OF inv]
  have me: "h < m_head ?r" "hist s ! h = v" "turn_of ?r h = 2 * turn ?r h" using D(3) [of p] pc by simp_all
  have other: "push_ticket (pcs s q) \<noteq> Some h" if "q \<noteq> p" for q
    using D(4) that pc unfolding tickets_unique_def by (metis push_ticket.simps(2))
  have owner: "t = h" if "idx ?r t = idx ?r h" "turn_of ?r t = 2 * turn ?r t" for t
    using that me(3) same_slot_turn_of [OF that(1)] by (intro same_slot_same_turn [OF that(1)]) simp
  have odd: "turn_of ?r t \<noteq> 2 * turn ?r t + 1" if "idx ?r t = idx ?r h" for t
    using me(3) same_slot_turn_of [OF that] by (simp add: double_not_eq_Suc_double)
  have "pcs s q \<noteq> EmplaceStore h w" for q w using other [of q] pc by (cases "q = p") auto
  then have "nobody (EmplaceStore h) (pcs s)" by (simp add: nobody_def)
  then show "storage_of ?r h = None" using D(5) me(3) unfolding slots_ok_def by blast
  have "ring_ok ?r'" using D(1) by (simp add: ring_ok_def with_storage)
  moreover have "thread_ok ?r' (hist s) (taken s) (?ps q)" for q
    using D(3) [of q] me other [of q] owner odd D(1)
    by (cases "pcs s q") (auto simp: with_storage)
  moreover have "tickets_unique ?ps" using D(4) pc by (intro tickets_unique_same) simp_all
  moreover have "slots_ok ?r' ?ps (hist s)"
  proof -
    have "nobody (EmplaceStore t) ?ps \<longleftrightarrow> h \<noteq> t \<and> nobody (EmplaceStore t) (pcs s)"
      "nobody (PopStore t) ?ps \<longleftrightarrow> nobody (PopStore t) (pcs s)" for t
      using pc by (simp_all add: nobody_upd del: fun_upd_apply)
    then show ?thesis using D(5) owner odd unfolding slots_ok_def with_storage [OF ring_ok_shape [OF D(1)]] with_fields by metis
  qed
  moreover have "taken_ok ?r' (hist s) (taken s)" using D(6) by (simp add: taken_ok_def)
  ultimately show "mpmc_inv (s\<lparr>sys_ring := ?r', pcs := ?ps\<rparr>)" using D(2) by (simp add: mpmc_inv_def)
qed

lemma publish_push_step:
  assumes inv: "mpmc_inv s" and pc: "pcs s p = EmplaceStore h v"
  shows "mpmc_inv (s\<lparr>sys_ring := with_turn h (turn (sys_ring s) h * 2 + 1) (sys_ring s), pcs := (pcs s)(p := Pushed_ret True)\<rparr>)"
proof -
  let ?r = "sys_ring s" and ?ps = "(pcs s)(p := Pushed_ret True)"
  define r' where "r' = with_turn h (turn ?r h * 2 + 1) ?r"
  note D = mpmc_invD [OF inv]
  have me: "h < m_head ?r" "hist s ! h = v" "turn_of ?r h = 2 * turn ?r h" "storage_of ?r h = Some v"
    using D(3) [of p] pc by simp_all
  have other: "push_ticket (pcs s q) \<noteq> Some h" if "q \<noteq> p" for q
    using D(4) that pc unfolding tickets_unique_def by (metis push_ticket.simps(3))
  have slot: "turn_of ?r t = 2 * turn ?r h" if "idx ?r t = idx ?r h" for t
    using me(3) same_slot_turn_of [OF that] by simp
  have later: "turn ?r h < turn ?r t" if "idx ?r t = idx ?r h" "turn ?r h \<le> turn ?r t" "t \<noteq> h" for t
    using that same_slot_same_turn [OF that(1)] by (cases "turn ?r t = turn ?r h") auto
  have turn': "turn_of r' t = (if idx ?r t = idx ?r h then turn ?r h * 2 + 1 else turn_of ?r t)" for t
    unfolding r'_def by (rule with_turn(1) [OF ring_ok_shape [OF D(1)]])
  have sto': "storage_of r' t = storage_of ?r t" for t unfolding r'_def by (rule with_turn(2) [OF ring_ok_shape [OF D(1)]])
  have fields: "turn r' t = turn ?r t" "m_head r' = m_head ?r" "m_tail r' = m_tail ?r" "m_capacity r' = m_capacity ?r"
    "length (m_slots r') = length (m_slots ?r)" "idx r' t = idx ?r t" for t by (simp_all add: r'_def)
  have "turn_of r' t \<le> 2 * turn ?r t" if "m_head ?r \<le> t" for t
    using D(1) that same_slot_less [of ?r h t] me(1) by (auto simp: turn' ring_ok_def)
  moreover have "turn_of r' t \<le> 2 * turn ?r t + 1" if "m_tail ?r \<le> t" for t
    using D(1) that slot [of t] by (force simp: turn' ring_ok_def)
  ultimately have "ring_ok r'" using D(1) by (simp add: ring_ok_def fields)
  moreover have "thread_ok r' (hist s) (taken s) (?ps q)" for q
  proof (cases "q = p")
    case False
    have "turn ?r h < turn ?r t" if "push_ticket (pcs s q) = Some t" "idx ?r t = idx ?r h" for t
    proof (rule later)
      show "turn ?r h \<le> turn ?r t" using D(3) [of q] that slot [OF that(2)] by (cases "pcs s q") auto
    qed (use that other [OF False] in auto)
    then have "\<forall>t. push_ticket (pcs s q) = Some t \<and> idx ?r t = idx ?r h \<longrightarrow> turn ?r h < turn ?r t" by blast
    then show ?thesis
      using False D(3) [of q] by (cases "pcs s q") (auto simp: turn' sto' fields slot)
  qed simp
  moreover have "tickets_unique ?ps" using D(4) by (rule tickets_unique_none) simp_all
  moreover have "slots_ok r' ?ps (hist s)"
  proof -
    have "nobody (EmplaceStore t) ?ps \<longleftrightarrow> nobody (EmplaceStore t) (pcs s)" if "idx ?r t \<noteq> idx ?r h" for t
      using pc that by (subst nobody_upd) auto
    moreover have "nobody (PopStore t) ?ps \<longleftrightarrow> nobody (PopStore t) (pcs s)" for t
      using pc by (subst nobody_upd) auto
    moreover have "t = h" if "idx ?r t = idx ?r h" "turn ?r h * 2 + 1 = 2 * turn ?r t + 1" for t
      using that by (intro same_slot_same_turn [OF that(1)]) simp
    moreover have "turn ?r h * 2 + 1 \<noteq> 2 * turn ?r t" for t by presburger
    ultimately show ?thesis
      using D(5) me(2,4) unfolding slots_ok_def turn' sto' fields by (auto split: if_splits)
  qed
  moreover have "taken_ok r' (hist s) (taken s)" using D(6) by (simp add: taken_ok_def fields)
  ultimately have "mpmc_inv (s\<lparr>sys_ring := r', pcs := ?ps\<rparr>)" using D(2) by (simp add: mpmc_inv_def fields)
  then show ?thesis by (simp only: r'_def)
qed

lemma odd_turn_claimed: "ring_ok r \<Longrightarrow> turn_of r t = 2 * turn r t + 1 \<Longrightarrow> t < m_head r"
  by (auto simp: ring_ok_def not_less dest!: spec [of _ t] intro: ccontr)

lemma move_step:
  assumes inv: "mpmc_inv s" and pc: "pcs s p = PopMove t"
  shows "storage_of (sys_ring s) t = Some (hist s ! t)"
    "mpmc_inv (s\<lparr>sys_ring := with_storage t None (sys_ring s), pcs := (pcs s)(p := PopStore t v),
       taken := taken s @ [(t, hist s ! t)]\<rparr>)"
proof -
  let ?r = "sys_ring s" let ?r' = "with_storage t None ?r" and ?ps = "(pcs s)(p := PopStore t v)"
    and ?tk = "taken s @ [(t, hist s ! t)]"
  note D = mpmc_invD [OF inv]
  have me: "t < m_tail ?r" "t \<notin> fst ` set (taken s)" "turn_of ?r t = 2 * turn ?r t + 1" using D(3) [of p] pc by simp_all
  have other: "pop_ticket (pcs s q) \<noteq> Some t" if "q \<noteq> p" for q
    using D(4) that pc unfolding tickets_unique_def by (metis pop_ticket.simps(2))
  have owner: "u = t" if "idx ?r u = idx ?r t" "turn_of ?r u = 2 * turn ?r u + 1" for u
    using that me(3) same_slot_turn_of [OF that(1)] by (intro same_slot_same_turn [OF that(1)]) simp
  have even: "turn_of ?r u \<noteq> 2 * turn ?r u" if "idx ?r u = idx ?r t" for u
    using me(3) same_slot_turn_of [OF that] by (simp add: Suc_double_not_eq_double)
  have "pcs s q \<noteq> PopStore t w" for q w using other [of q] pc by (cases "q = p") auto
  then have "nobody (PopStore t) (pcs s)" by (simp add: nobody_def)
  then show "storage_of ?r t = Some (hist s ! t)" using D(5) me(3) unfolding slots_ok_def by blast
  have "ring_ok ?r'" using D(1) by (simp add: ring_ok_def with_storage)
  moreover have "thread_ok ?r' (hist s) ?tk (?ps q)" for q
    using D(3) [of q] me other [of q] owner even D(1)
    by (cases "pcs s q") (auto simp: with_storage)
  moreover have "tickets_unique ?ps" using D(4) pc by (intro tickets_unique_same) simp_all
  moreover have "slots_ok ?r' ?ps (hist s)"
  proof -
    have "nobody (PopStore u) ?ps \<longleftrightarrow> t \<noteq> u \<and> nobody (PopStore u) (pcs s)"
      "nobody (EmplaceStore u) ?ps \<longleftrightarrow> nobody (EmplaceStore u) (pcs s)" for u
      using pc by (simp_all add: nobody_upd del: fun_upd_apply)
    then show ?thesis using D(5) owner even unfolding slots_ok_def with_storage [OF ring_ok_shape [OF D(1)]] with_fields by metis
  qed
  moreover have "taken_ok ?r' (hist s) ?tk"
    using D(2,6) me odd_turn_claimed [OF D(1) me(3)] by (auto simp: taken_ok_def)
  ultimately show "mpmc_inv (s\<lparr>sys_ring := ?r', pcs := ?ps, taken := ?tk\<rparr>)" using D(2) by (simp add: mpmc_inv_def)
qed

lemma publish_pop_step:
  assumes inv: "mpmc_inv s" and pc: "pcs s p = PopStore t v"
  shows "mpmc_inv (s\<lparr>sys_ring := with_turn t (turn (sys_ring s) t * 2 + 2) (sys_ring s), pcs := (pcs s)(p := Popped_ret w)\<rparr>)"
proof -
  let ?r = "sys_ring s" and ?ps = "(pcs s)(p := Popped_ret w)"
  define r' where "r' = with_turn t (turn ?r t * 2 + 2) ?r"
  note D = mpmc_invD [OF inv]
  have me: "t < m_tail ?r" "turn_of ?r t = 2 * turn ?r t + 1" "storage_of ?r t = None"
    using D(3) [of p] pc by simp_all
  have other: "pop_ticket (pcs s q) \<noteq> Some t" if "q \<noteq> p" for q
    using D(4) that pc unfolding tickets_unique_def by (metis pop_ticket.simps(3))
  have slot: "turn_of ?r u = 2 * turn ?r t + 1" if "idx ?r u = idx ?r t" for u
    using me(2) same_slot_turn_of [OF that] by simp
  have later: "turn ?r t < turn ?r u" if "idx ?r u = idx ?r t" "turn ?r t \<le> turn ?r u" "u \<noteq> t" for u
    using that same_slot_same_turn [OF that(1)] by (cases "turn ?r u = turn ?r t") auto
  have turn': "turn_of r' u = (if idx ?r u = idx ?r t then turn ?r t * 2 + 2 else turn_of ?r u)" for u
    unfolding r'_def by (rule with_turn(1) [OF ring_ok_shape [OF D(1)]])
  have sto': "storage_of r' u = storage_of ?r u" for u unfolding r'_def by (rule with_turn(2) [OF ring_ok_shape [OF D(1)]])
  have fields: "turn r' u = turn ?r u" "m_head r' = m_head ?r" "m_tail r' = m_tail ?r" "m_capacity r' = m_capacity ?r"
    "length (m_slots r') = length (m_slots ?r)" "idx r' u = idx ?r u" for u by (simp_all add: r'_def)
  have "turn_of r' u \<le> 2 * turn ?r u" if "m_head ?r \<le> u" for u
  proof -
    have "turn_of ?r u \<le> 2 * turn ?r u" using D(1) that by (simp add: ring_ok_def)
    then show ?thesis using slot [of u] unfolding turn' by (cases "idx ?r u = idx ?r t") (simp_all, presburger)
  qed
  moreover have "turn_of r' u \<le> 2 * turn ?r u + 1" if "m_tail ?r \<le> u" for u
    using D(1) that same_slot_less [of ?r t u] me(1) by (auto simp: turn' ring_ok_def)
  ultimately have "ring_ok r'" using D(1) by (simp add: ring_ok_def fields)
  moreover have "thread_ok r' (hist s) (taken s) (?ps q)" for q
  proof (cases "q = p")
    case False
    have "turn ?r t < turn ?r u" if "pop_ticket (pcs s q) = Some u" "idx ?r u = idx ?r t" for u
    proof (rule later)
      show "turn ?r t \<le> turn ?r u" using D(3) [of q] that slot [OF that(2)] by (cases "pcs s q") auto
    qed (use that other [OF False] in auto)
    then have "\<forall>u. pop_ticket (pcs s q) = Some u \<and> idx ?r u = idx ?r t \<longrightarrow> turn ?r t < turn ?r u" by blast
    then show ?thesis
      using False D(3) [of q] by (cases "pcs s q") (auto simp: turn' sto' fields slot, presburger+)
  qed simp
  moreover have "tickets_unique ?ps" using D(4) by (rule tickets_unique_none) simp_all
  moreover have "slots_ok r' ?ps (hist s)"
  proof -
    have "nobody (PopStore u) ?ps \<longleftrightarrow> nobody (PopStore u) (pcs s)" if "idx ?r u \<noteq> idx ?r t" for u
      using pc that by (subst nobody_upd) auto
    moreover have "nobody (EmplaceStore u) ?ps \<longleftrightarrow> nobody (EmplaceStore u) (pcs s)" for u
      using pc by (subst nobody_upd) auto
    moreover have "turn ?r t * 2 + 2 \<noteq> 2 * turn ?r u + 1" for u by presburger
    moreover have "storage_of ?r u = None" if "idx ?r u = idx ?r t" for u
      using me(3) that by (simp add: storage_of_def)
    ultimately show ?thesis
      using D(5) unfolding slots_ok_def turn' sto' fields by (auto split: if_splits)
  qed
  moreover have "taken_ok r' (hist s) (taken s)" using D(6) by (simp add: taken_ok_def fields)
  ultimately have "mpmc_inv (s\<lparr>sys_ring := r', pcs := ?ps\<rparr>)" using D(2) by (simp add: mpmc_inv_def fields)
  then show ?thesis by (simp only: r'_def)
qed

text \<open>A thread with a new ticket shares it with nobody.\<close>

lemma fresh_push_ticket:
  assumes "mpmc_inv s" "push_ticket c = Some (m_head (sys_ring s))" "pop_ticket c = None"
  shows "tickets_unique ((pcs s)(p := c))"
  using mpmc_invD [OF assms(1)] assms(2,3) thread_ok_tickets(1) by (intro tickets_unique_upd) fastforce+

lemma fresh_pop_ticket:
  assumes "mpmc_inv s" "pop_ticket c = Some (m_tail (sys_ring s))" "push_ticket c = None"
  shows "tickets_unique ((pcs s)(p := c))"
  using mpmc_invD [OF assms(1)] assms(2,3) thread_ok_tickets(2) by (intro tickets_unique_upd) fastforce+

lemma fresh_pop_not_taken: "taken_ok r hs tk \<Longrightarrow> m_tail r \<notin> fst ` set tk"
  by (fastforce simp: taken_ok_def)

text \<open>The effect of one step of a thread on the whole system.\<close>

definition sys_after :: "'a mpmc_sys \<Rightarrow> nat \<Rightarrow> 'a mpmc \<Rightarrow> 'a pc \<Rightarrow> 'a mpmc_sys" where
  "sys_after s p r' c' = s\<lparr>sys_ring := r', pcs := (pcs s)(p := c'),
     hist := hist s @ (if m_head r' = m_head (sys_ring s) then [] else push_value (pcs s p)),
     taken := taken s @ moved_out (pcs s p) c'\<rparr>"

lemma quiet_same:
  assumes "mpmc_inv s" "thread_ok (sys_ring s) (hist s) (taken s) c'"
    and "tickets_unique ((pcs s)(p := c'))" "\<not> publishing (pcs s p)" "\<not> publishing c'"
  shows "mpmc_inv (sys_after s p (sys_ring s) c')"
proof -
  have "moved_out (pcs s p) c' = []" using assms(5) by (cases "pcs s p"; cases c'; simp add: publishing_def)
  then show ?thesis
    using quiet_step [OF assms(1), of "sys_ring s" "[]" c' p] assms mpmc_invD(2) [OF assms(1)]
    by (simp add: sys_after_def mpmc_inv_def)
qed

lemma step_emplace:
  assumes inv: "mpmc_inv s" and pc: "pcs s p \<in> {Emplace v, EmplaceSpin h v, EmplaceConstruct h v, EmplaceStore h v}"
  shows "\<exists>r' c'. thread_step (sys_ring s) (pcs s p) = Some (r', c') \<and> mpmc_inv (sys_after s p r' c')"
proof -
  let ?r = "sys_ring s"
  note D = mpmc_invD [OF inv]
  consider "pcs s p = Emplace v" | "pcs s p = EmplaceSpin h v" | "pcs s p = EmplaceConstruct h v" | "pcs s p = EmplaceStore h v"
    using pc by blast
  then show ?thesis
  proof cases
    case 1
    have "mpmc_inv (s\<lparr>sys_ring := ?r\<lparr>m_head := m_head ?r + 1\<rparr>, pcs := (pcs s)(p := EmplaceSpin (m_head ?r) v), hist := hist s @ [v]\<rparr>)"
      using 1 D(1,2) fresh_push_ticket [OF inv, of "EmplaceSpin (m_head ?r) v" p]
      by (intro quiet_step [OF inv]) (auto simp: publishing_def nth_append ring_ok_def)
    then show ?thesis using 1 by (simp add: sys_after_def mpmc_inv_def)
  next
    case 2
    then have "mpmc_inv (sys_after s p ?r c)" if "c = EmplaceSpin h v \<or> c = EmplaceConstruct h v \<and> turn_of ?r h = 2 * turn ?r h" for c
      using that D(3) [of p] by (intro quiet_same [OF inv] tickets_unique_same [OF D(4)]) (auto simp: publishing_def)
    then show ?thesis using 2 by (simp add: load_turn_ok [OF ring_ok_shape [OF D(1)]] mult.commute)
  next
    case 3
    then show ?thesis
      using construct_step [OF inv 3] by (simp add: Slot_construct_ok [OF ring_ok_shape [OF D(1)]] sys_after_def mpmc_inv_def)
  next
    case 4
    then show ?thesis
      using publish_push_step [OF inv 4] by (simp add: store_turn_ok [OF ring_ok_shape [OF D(1)]] sys_after_def mpmc_inv_def)
  qed
qed

lemma step_try_emplace:
  assumes inv: "mpmc_inv s" and pc: "pcs s p \<in> {TryEmplace v, TryEmplaceTurn h v, TryEmplaceCas h v, TryEmplaceReload h v}"
  shows "\<exists>r' c'. thread_step (sys_ring s) (pcs s p) = Some (r', c') \<and> mpmc_inv (sys_after s p r' c')"
proof -
  let ?r = "sys_ring s"
  note D = mpmc_invD [OF inv]
  have np: "\<not> publishing (pcs s p)" using pc by (auto simp: publishing_def)
  have quiet: "mpmc_inv (sys_after s p ?r c)"
    if "c = TryEmplaceTurn h' v \<or> c = Pushed_ret False \<or> c = TryEmplaceReload h' v \<or> c = TryEmplaceCas h' v \<and> 2 * turn ?r h' \<le> turn_of ?r h'" for c h'
    using that np by (intro quiet_same [OF inv] tickets_unique_none [OF D(4)]) (auto simp: publishing_def)
  consider "pcs s p = TryEmplace v" | "pcs s p = TryEmplaceTurn h v" | "pcs s p = TryEmplaceCas h v" | "pcs s p = TryEmplaceReload h v"
    using pc by blast
  then show ?thesis
  proof cases
    case 2
    then show ?thesis
      using quiet [of "TryEmplaceCas h v" h] quiet [of "TryEmplaceReload h v" h] by (auto simp: load_turn_ok [OF ring_ok_shape [OF D(1)]] mult.commute)
  next
    case 3
    show ?thesis
    proof (cases "m_head ?r = h")
      case True
      have "turn_of ?r h = 2 * turn ?r h" using D(1) D(3) [of p] 3 True by (auto simp: ring_ok_def intro: antisym)
      then have "mpmc_inv (s\<lparr>sys_ring := ?r\<lparr>m_head := h + 1\<rparr>, pcs := (pcs s)(p := EmplaceConstruct h v), hist := hist s @ [v]\<rparr>)"
        using 3 D(1,2) True fresh_push_ticket [OF inv, of "EmplaceConstruct h v" p]
        by (intro quiet_step [OF inv]) (auto simp: publishing_def nth_append)
      then show ?thesis using 3 True by (simp add: sys_after_def mpmc_inv_def)
    qed (use 3 quiet in auto)
  qed (use quiet in auto)
qed

lemma step_pop:
  assumes inv: "mpmc_inv s" and pc: "pcs s p \<in> {PopCall, PopSpin t, PopMove t, PopStore t v}"
  shows "\<exists>r' c'. thread_step (sys_ring s) (pcs s p) = Some (r', c') \<and> mpmc_inv (sys_after s p r' c')"
proof -
  let ?r = "sys_ring s"
  note D = mpmc_invD [OF inv]
  consider "pcs s p = PopCall" | "pcs s p = PopSpin t" | "pcs s p = PopMove t" | "pcs s p = PopStore t v"
    using pc by blast
  then show ?thesis
  proof cases
    case 1
    have "mpmc_inv (s\<lparr>sys_ring := ?r\<lparr>m_tail := m_tail ?r + 1\<rparr>, pcs := (pcs s)(p := PopSpin (m_tail ?r)), hist := hist s @ []\<rparr>)"
      using 1 D(1,2) fresh_pop_ticket [OF inv, of "PopSpin (m_tail ?r)" p] fresh_pop_not_taken [OF D(6)]
      by (intro quiet_step [OF inv]) (auto simp: publishing_def ring_ok_def)
    then show ?thesis using 1 by (simp add: sys_after_def mpmc_inv_def)
  next
    case 2
    then have "mpmc_inv (sys_after s p ?r c)" if "c = PopSpin t \<or> c = PopMove t \<and> turn_of ?r t = 2 * turn ?r t + 1" for c
      using that D(3) [of p] by (intro quiet_same [OF inv] tickets_unique_same [OF D(4)]) (auto simp: publishing_def)
    then show ?thesis using 2 by (simp add: load_turn_ok [OF ring_ok_shape [OF D(1)]] mult.commute)
  next
    case 3
    then show ?thesis
      using move_step [OF inv 3] by (simp add: Slot_move_destroy_ok [OF ring_ok_shape [OF D(1)]] sys_after_def mpmc_inv_def)
  next
    case 4
    then show ?thesis
      using publish_pop_step [OF inv 4] by (simp add: store_turn_ok [OF ring_ok_shape [OF D(1)]] sys_after_def mpmc_inv_def)
  qed
qed

lemma step_try_pop:
  assumes inv: "mpmc_inv s" and pc: "pcs s p \<in> {TryPop, TryPopTurn t, TryPopCas t, TryPopReload t}"
  shows "\<exists>r' c'. thread_step (sys_ring s) (pcs s p) = Some (r', c') \<and> mpmc_inv (sys_after s p r' c')"
proof -
  let ?r = "sys_ring s"
  note D = mpmc_invD [OF inv]
  have np: "\<not> publishing (pcs s p)" using pc by (auto simp: publishing_def)
  have quiet: "mpmc_inv (sys_after s p ?r c)"
    if "c = TryPopTurn t' \<or> c = Popped_ret None \<or> c = TryPopReload t' \<or> c = TryPopCas t' \<and> 2 * turn ?r t' + 1 \<le> turn_of ?r t'" for c t'
    using that np by (intro quiet_same [OF inv] tickets_unique_none [OF D(4)]) (auto simp: publishing_def)
  consider "pcs s p = TryPop" | "pcs s p = TryPopTurn t" | "pcs s p = TryPopCas t" | "pcs s p = TryPopReload t"
    using pc by blast
  then show ?thesis
  proof cases
    case 2
    then show ?thesis
      using quiet [of "TryPopCas t" t] quiet [of "TryPopReload t" t] by (auto simp: load_turn_ok [OF ring_ok_shape [OF D(1)]] mult.commute)
  next
    case 3
    show ?thesis
    proof (cases "m_tail ?r = t")
      case True
      have "turn_of ?r t = 2 * turn ?r t + 1" using D(1) D(3) [of p] 3 True by (auto simp: ring_ok_def intro: antisym)
      then have "mpmc_inv (s\<lparr>sys_ring := ?r\<lparr>m_tail := t + 1\<rparr>, pcs := (pcs s)(p := PopMove t), hist := hist s @ []\<rparr>)"
        using 3 D(1,2) True fresh_pop_ticket [OF inv, of "PopMove t" p] fresh_pop_not_taken [OF D(6)]
        by (intro quiet_step [OF inv]) (auto simp: publishing_def)
      then show ?thesis using 3 True by (simp add: sys_after_def mpmc_inv_def)
    qed (use 3 quiet in auto)
  qed (use quiet in auto)
qed

lemma thread_step_ok:
  assumes "mpmc_inv s" "running (pcs s p)"
  shows "\<exists>r' c'. thread_step (sys_ring s) (pcs s p) = Some (r', c') \<and> mpmc_inv (sys_after s p r' c')"
proof -
  have "(\<exists>v h. pcs s p \<in> {Emplace v, EmplaceSpin h v, EmplaceConstruct h v, EmplaceStore h v}) \<or>
      (\<exists>v h. pcs s p \<in> {TryEmplace v, TryEmplaceTurn h v, TryEmplaceCas h v, TryEmplaceReload h v}) \<or>
      (\<exists>t v. pcs s p \<in> {PopCall, PopSpin t, PopMove t, PopStore t v}) \<or>
      (\<exists>t. pcs s p \<in> {TryPop, TryPopTurn t, TryPopCas t, TryPopReload t})"
    using assms(2) by (cases "pcs s p") (simp_all add: running_def)
  then show ?thesis
    using step_emplace [OF assms(1)] step_try_emplace [OF assms(1)] step_pop [OF assms(1)] step_try_pop [OF assms(1)]
    by (elim disjE exE) metis+
qed

lemma mpmc_step_inv:
  assumes inv: "mpmc_inv s" and step: "mpmc_step s s'"
  shows "mpmc_inv s'"
  using step
proof cases
  case (call p c v)
  have "\<not> publishing (pcs s p)" using call(2) by (auto simp: publishing_def running_def split: pc.splits)
  moreover have "tickets_unique ((pcs s)(p := c))"
    using mpmc_invD(4) [OF inv] call(3) by (intro tickets_unique_none) auto
  ultimately have "mpmc_inv (s\<lparr>sys_ring := sys_ring s, pcs := (pcs s)(p := c), hist := hist s @ []\<rparr>)"
    using call(3) mpmc_invD(2) [OF inv] by (intro quiet_step [OF inv]) (auto simp: publishing_def)
  then show ?thesis using call(1) by (simp add: mpmc_inv_def)
next
  case (run p r' c')
  then show ?thesis using thread_step_ok [OF inv run(2)] by (auto simp: sys_after_def)
qed

lemma mpmc_reachable_inv: "mpmc_reachable n s \<Longrightarrow> mpmc_inv s"
proof (induction rule: mpmc_reachable.induct)
  case (start r)
  then have r: "r = \<lparr>m_capacity = n, m_slots = replicate n \<lparr>slot_turn = 0, storage = None\<rparr>, m_head = 0, m_tail = 0\<rparr>" "0 < n"
    by (auto simp: Ring_new_def split: if_splits)
  have "turn_of r t = 0" "storage_of r t = None" for t using r by (simp_all add: turn_of_def storage_of_def idx_def)
  then show ?case
    using r by (simp add: mpmc_inv_def ring_ok_def tickets_unique_def slots_ok_def taken_ok_def)
next
  case (step s s')
  then show ?case using mpmc_step_inv by blast
qed

section \<open>Tickets are used up\<close>

text \<open>Every ticket handed out is held by a thread or its slot has moved past it.\<close>

definition tickets_done :: "'a mpmc_sys \<Rightarrow> bool" where
  "tickets_done s \<longleftrightarrow>
     (\<forall>t<m_head (sys_ring s). (\<exists>p. push_ticket (pcs s p) = Some t) \<or> 2 * turn (sys_ring s) t + 1 \<le> turn_of (sys_ring s) t) \<and>
     (\<forall>t<m_tail (sys_ring s). (\<exists>p. pop_ticket (pcs s p) = Some t) \<or> 2 * turn (sys_ring s) t + 2 \<le> turn_of (sys_ring s) t)"

definition step_effect :: "'a mpmc \<Rightarrow> 'a pc \<Rightarrow> 'a mpmc \<Rightarrow> 'a pc \<Rightarrow> bool" where
  "step_effect r c r' c' \<longleftrightarrow>
     m_capacity r' = m_capacity r \<and> (\<forall>t. turn_of r t \<le> turn_of r' t) \<and>
     (\<forall>t. t < m_head r' \<longrightarrow> t < m_head r \<or> push_ticket c' = Some t) \<and>
     (\<forall>t. t < m_tail r' \<longrightarrow> t < m_tail r \<or> pop_ticket c' = Some t) \<and>
     (\<forall>t. push_ticket c = Some t \<longrightarrow> push_ticket c' = Some t \<or> 2 * turn r t + 1 \<le> turn_of r' t) \<and>
     (\<forall>t. pop_ticket c = Some t \<longrightarrow> pop_ticket c' = Some t \<or> 2 * turn r t + 2 \<le> turn_of r' t)"

lemma thread_step_effect:
  assumes ok: "ring_ok r" "thread_ok r hs tk c" and step: "thread_step r c = Some (r', c')"
  shows "step_effect r c r' c'"
  using step
proof (cases c)
  case (EmplaceConstruct h v)
  then show ?thesis
    using step ok by (cases "storage_of r h")
      (auto simp: Slot_construct_ok Slot_access_fails step_effect_def with_storage)
next
  case (PopMove t)
  then show ?thesis
    using step ok by (cases "storage_of r t")
      (auto simp: Slot_move_destroy_ok Slot_access_fails step_effect_def with_storage)
next
  case (EmplaceStore h v)
  then have "turn_of r t = 2 * turn r h" if "idx r t = idx r h" for t
    using ok(2) same_slot_turn_of [OF that] by simp
  then show ?thesis using EmplaceStore step ok by (auto simp: store_turn_ok step_effect_def with_turn)
next
  case (PopStore t v)
  then have "turn_of r u = 2 * turn r t + 1" if "idx r u = idx r t" for u
    using ok(2) same_slot_turn_of [OF that] by simp
  then show ?thesis using PopStore step ok by (auto simp: store_turn_ok step_effect_def with_turn)
qed (use ok in \<open>auto simp: load_turn_ok step_effect_def less_Suc_eq split: if_splits\<close>)

lemma tickets_done_step:
  assumes inv: "mpmc_inv s" and dn: "tickets_done s" and step: "mpmc_step s s'"
  shows "tickets_done s'"
  using step
proof cases
  case (call p c v)
  have "push_ticket (pcs s p) = None" "pop_ticket (pcs s p) = None"
    using call(2) by (auto simp: running_def split: pc.splits)
  then show ?thesis using dn call(1) unfolding tickets_done_def by (auto, metis option.distinct(1), metis option.distinct(1))
next
  case (run p r' c')
  note D = mpmc_invD [OF inv]
  have e: "step_effect (sys_ring s) (pcs s p) r' c'" using thread_step_effect [OF D(1) D(3) run(3)] .
  then have t: "turn r' t = turn (sys_ring s) t" for t by (simp add: step_effect_def turn_def)
  have "(\<exists>q. push_ticket (((pcs s)(p := c')) q) = Some t) \<or> 2 * turn r' t + 1 \<le> turn_of r' t" if "t < m_head r'" for t
  proof (cases "push_ticket c' = Some t")
    case False
    then have "t < m_head (sys_ring s)" using e that unfolding step_effect_def by blast
    then consider q where "push_ticket (pcs s q) = Some t" | "2 * turn (sys_ring s) t + 1 \<le> turn_of (sys_ring s) t"
      using dn by (auto simp: tickets_done_def)
    then show ?thesis
    proof cases
      case (1 q)
      then show ?thesis using e False unfolding t step_effect_def by (cases "q = p") (auto intro: exI [of _ q])
    next
      case 2
      then show ?thesis using e unfolding t step_effect_def by (meson order_trans)
    qed
  qed (auto intro: exI [of _ p])
  moreover have "(\<exists>q. pop_ticket (((pcs s)(p := c')) q) = Some t) \<or> 2 * turn r' t + 2 \<le> turn_of r' t" if "t < m_tail r'" for t
  proof (cases "pop_ticket c' = Some t")
    case False
    then have "t < m_tail (sys_ring s)" using e that unfolding step_effect_def by blast
    then consider q where "pop_ticket (pcs s q) = Some t" | "2 * turn (sys_ring s) t + 2 \<le> turn_of (sys_ring s) t"
      using dn by (auto simp: tickets_done_def)
    then show ?thesis
    proof cases
      case (1 q)
      then show ?thesis using e False unfolding t step_effect_def by (cases "q = p") (auto intro: exI [of _ q])
    next
      case 2
      then show ?thesis using e unfolding t step_effect_def by (meson order_trans)
    qed
  qed (auto intro: exI [of _ p])
  ultimately show ?thesis using run(1) by (simp add: tickets_done_def del: fun_upd_apply)
qed

lemma mpmc_reachable_done: "mpmc_reachable n s \<Longrightarrow> tickets_done s"
proof (induction rule: mpmc_reachable.induct)
  case (start r)
  then show ?case by (auto simp: tickets_done_def Ring_new_def split: if_splits)
next
  case (step s s')
  then show ?case using mpmc_reachable_inv tickets_done_step by blast
qed

section \<open>Running alone\<close>

text \<open>Between operations: tickets \<open>tail\<close> to \<open>head\<close> are in their slots, the others of the next round
  are free.\<close>

definition mpmc_wf :: "'a mpmc \<Rightarrow> bool" where
  "mpmc_wf r \<longleftrightarrow> shape_ok r \<and> m_tail r \<le> m_head r \<and> m_head r \<le> m_tail r + m_capacity r \<and>
     (\<forall>t. m_tail r \<le> t \<and> t < m_head r \<longrightarrow> turn_of r t = 2 * turn r t + 1 \<and> storage_of r t \<noteq> None) \<and>
     (\<forall>t. m_head r \<le> t \<and> t < m_tail r + m_capacity r \<longrightarrow> turn_of r t = 2 * turn r t \<and> storage_of r t = None)"

definition mpmc_items :: "'a mpmc \<Rightarrow> 'a list" where
  "mpmc_items r = map (\<lambda>t. the (storage_of r t)) [m_tail r..<m_head r]"

lemma idx_interval_inj:
  "idx r t = idx r u \<Longrightarrow> m_tail r \<le> t \<Longrightarrow> t < m_tail r + m_capacity r \<Longrightarrow> m_tail r \<le> u \<Longrightarrow> u < m_tail r + m_capacity r \<Longrightarrow> t = u"
  unfolding idx_def by (rule mod_interval_inj)

lemma next_round: "0 < m_capacity r \<Longrightarrow> idx r (t + m_capacity r) = idx r t" "0 < m_capacity r \<Longrightarrow> turn r (t + m_capacity r) = turn r t + 1"
  by (simp_all add: idx_def turn_def div_add_self2)

definition mpmc_pushed :: "'a \<Rightarrow> 'a mpmc \<Rightarrow> 'a mpmc" where
  "mpmc_pushed v r = with_turn (m_head r) (turn r (m_head r) * 2 + 1)
     (with_storage (m_head r) (Some v) (r\<lparr>m_head := m_head r + 1\<rparr>))"

definition mpmc_popped :: "'a mpmc \<Rightarrow> 'a mpmc" where
  "mpmc_popped r = with_turn (m_tail r) (turn r (m_tail r) * 2 + 2) (with_storage (m_tail r) None (r\<lparr>m_tail := m_tail r + 1\<rparr>))"

lemma shape_ok_upd [simp]:
  "shape_ok (r\<lparr>m_head := h\<rparr>) = shape_ok r" "shape_ok (r\<lparr>m_tail := h\<rparr>) = shape_ok r"
  "shape_ok (with_storage t v r) = shape_ok r" "shape_ok (with_turn t w r) = shape_ok r"
  "idx (r\<lparr>m_head := h\<rparr>) t = idx r t" "idx (r\<lparr>m_tail := h\<rparr>) t = idx r t"
  by (simp_all add: shape_ok_def idx_def)

lemma mpmc_pushed:
  assumes wf: "mpmc_wf r" and room: "m_head r < m_tail r + m_capacity r"
  shows "mpmc_wf (mpmc_pushed v r)" "mpmc_items (mpmc_pushed v r) = mpmc_items r @ [v]"
proof -
  let ?r = "mpmc_pushed v r"
  have sh: "shape_ok r" and le: "m_tail r \<le> m_head r" using wf by (simp_all add: mpmc_wf_def)
  have inj: "idx r t \<noteq> idx r (m_head r)" if "m_tail r \<le> t" "t < m_tail r + m_capacity r" "t \<noteq> m_head r" for t
    using idx_interval_inj [of r t "m_head r"] that le room by auto
  have f: "turn ?r t = turn r t" "m_tail ?r = m_tail r" "m_head ?r = m_head r + 1" "m_capacity ?r = m_capacity r" "shape_ok ?r" for t
    using sh by (simp_all add: mpmc_pushed_def)
  have t': "turn_of ?r t = (if idx r t = idx r (m_head r) then turn r (m_head r) * 2 + 1 else turn_of r t)"
    "storage_of ?r t = (if idx r t = idx r (m_head r) then Some v else storage_of r t)" for t
    using sh by (simp_all add: mpmc_pushed_def with_turn with_storage)
  show "mpmc_wf ?r" using wf inj room f(5) unfolding mpmc_wf_def f(1-4) t' by (auto simp: less_Suc_eq)
  show "mpmc_items ?r = mpmc_items r @ [v]"
    using inj le room unfolding mpmc_items_def f t' by auto
qed

lemma mpmc_popped:
  assumes wf: "mpmc_wf r" and some: "m_tail r < m_head r"
  shows "mpmc_wf (mpmc_popped r)" "mpmc_items r = the (storage_of r (m_tail r)) # mpmc_items (mpmc_popped r)"
proof -
  let ?r = "mpmc_popped r"
  have sh: "shape_ok r" and le: "m_head r \<le> m_tail r + m_capacity r" using wf by (simp_all add: mpmc_wf_def)
  have c: "0 < m_capacity r" using sh by (simp add: shape_ok_def)
  have inj: "idx r t \<noteq> idx r (m_tail r)" if "m_tail r < t" "t < m_tail r + m_capacity r" for t
    using idx_interval_inj [of r t "m_tail r"] that by auto
  have f: "turn ?r t = turn r t" "m_tail ?r = m_tail r + 1" "m_head ?r = m_head r" "m_capacity ?r = m_capacity r" "shape_ok ?r" for t
    using sh by (simp_all add: mpmc_popped_def)
  have t': "turn_of ?r t = (if idx r t = idx r (m_tail r) then turn r (m_tail r) * 2 + 2 else turn_of r t)"
    "storage_of ?r t = (if idx r t = idx r (m_tail r) then None else storage_of r t)" for t
    using sh by (simp_all add: mpmc_popped_def with_turn with_storage)
  show "mpmc_wf ?r" using wf inj some f(5) next_round [OF c, of "m_tail r"] unfolding mpmc_wf_def f(1-4) t' by (auto simp: less_Suc_eq)
  show "mpmc_items r = the (storage_of r (m_tail r)) # mpmc_items ?r"
    using inj le some unfolding mpmc_items_def f t' by (simp add: upt_conv_Cons [of "m_tail r"])
qed

lemma run_alone_5: "run_alone 5 = run_alone (Suc (Suc (Suc (Suc (Suc 0)))))"
  by (simp add: numeral_eq_Suc)

lemma try_push_room:
  assumes wf: "mpmc_wf r" and room: "m_head r < m_tail r + m_capacity r"
  shows "try_push v r = Some (True, mpmc_pushed v r)"
proof -
  have sh: "shape_ok r" and h: "turn_of r (m_head r) = 2 * turn r (m_head r)" "storage_of r (m_head r) = None"
    using wf room by (simp_all add: mpmc_wf_def)
  then show ?thesis
    by (simp add: try_push_def run_alone_5 running_def load_turn_ok Slot_construct_ok store_turn_ok mpmc_pushed_def mult.commute)
qed

lemma try_push_full:
  assumes wf: "mpmc_wf r" and full: "m_head r = m_tail r + m_capacity r"
  shows "try_push v r = Some (False, r)"
proof -
  have sh: "shape_ok r" and c: "0 < m_capacity r" using wf by (simp_all add: mpmc_wf_def shape_ok_def)
  have "turn_of r (m_tail r) = 2 * turn r (m_tail r) + 1" using wf full c by (simp add: mpmc_wf_def)
  then have "turn_of r (m_head r) \<noteq> 2 * turn r (m_head r)"
    using next_round [OF c, of "m_tail r"] same_slot_turn_of [of r "m_head r" "m_tail r"] by (simp add: full)
  then show ?thesis
    using sh by (simp add: try_push_def run_alone_5 running_def load_turn_ok mult.commute)
qed

lemma try_pop_some:
  assumes wf: "mpmc_wf r" and some: "m_tail r < m_head r"
  shows "try_pop r = Some (Some (the (storage_of r (m_tail r))), mpmc_popped r)"
proof -
  obtain v where sh: "shape_ok r" and t: "turn_of r (m_tail r) = 2 * turn r (m_tail r) + 1" "storage_of r (m_tail r) = Some v"
    using wf some by (auto simp: mpmc_wf_def)
  then show ?thesis
    by (simp add: try_pop_def run_alone_5 running_def load_turn_ok Slot_move_destroy_ok store_turn_ok mpmc_popped_def mult.commute)
qed

lemma try_pop_empty:
  assumes wf: "mpmc_wf r" and "m_head r = m_tail r"
  shows "try_pop r = Some (None, r)"
proof -
  have sh: "shape_ok r" "0 < m_capacity r" using wf by (simp_all add: mpmc_wf_def shape_ok_def)
  then have "turn_of r (m_tail r) = 2 * turn r (m_tail r)" using wf assms(2) by (simp add: mpmc_wf_def)
  then show ?thesis using sh by (simp add: try_pop_def run_alone_5 running_def load_turn_ok mult.commute)
qed

lemma length_mpmc_items: "length (mpmc_items r) = m_head r - m_tail r"
  by (simp add: mpmc_items_def)

interpretation mq: bounded_fifo try_push try_pop mpmc_items m_capacity mpmc_wf
proof unfold_locales
  fix r :: "'a mpmc" and v
  assume wf: "mpmc_wf r"
  then have le: "m_tail r \<le> m_head r" "m_head r \<le> m_tail r + m_capacity r" by (simp_all add: mpmc_wf_def)
  show "length (mpmc_items r) \<le> m_capacity r" using le by (simp add: length_mpmc_items)
  show "\<exists>r'. try_push v r = Some (False, r') \<and> mpmc_wf r' \<and> m_capacity r' = m_capacity r \<and> mpmc_items r' = mpmc_items r"
    if "length (mpmc_items r) = m_capacity r"
    using that le wf try_push_full [OF wf, of v] by (simp add: length_mpmc_items)
  show "\<exists>r'. try_push v r = Some (True, r') \<and> mpmc_wf r' \<and> m_capacity r' = m_capacity r \<and>
      mpmc_items r' = mpmc_items r @ [v]" if "length (mpmc_items r) < m_capacity r"
  proof -
    have "m_head r < m_tail r + m_capacity r" using that le by (simp add: length_mpmc_items)
    then show ?thesis using try_push_room [OF wf] mpmc_pushed [OF wf] by (simp add: mpmc_pushed_def)
  qed
  show "\<exists>r'. try_pop r = Some (None, r') \<and> mpmc_wf r' \<and> m_capacity r' = m_capacity r \<and> mpmc_items r' = []"
    if "mpmc_items r = []"
    using that le wf length_mpmc_items [of r] try_pop_empty [OF wf] by simp
  show "\<exists>r'. try_pop r = Some (Some y, r') \<and> mpmc_wf r' \<and> m_capacity r' = m_capacity r \<and> mpmc_items r' = ys"
    if "mpmc_items r = y # ys" for y ys
  proof -
    have "m_tail r < m_head r" using that length_mpmc_items [of r] by simp
    then show ?thesis using that try_pop_some [OF wf] mpmc_popped [OF wf] by (simp add: mpmc_popped_def)
  qed
qed

lemma Ring_new_wf:
  assumes "Ring_new n a = Some r"
  shows "mpmc_wf r" "mpmc_items r = []" "m_capacity r = n"
proof -
  have r: "r = \<lparr>m_capacity = n, m_slots = replicate n \<lparr>slot_turn = 0, storage = None\<rparr>, m_head = 0, m_tail = 0\<rparr>" "0 < n"
    using assms by (auto simp: Ring_new_def split: if_splits)
  show "mpmc_wf r" using r by (auto simp: mpmc_wf_def shape_ok_def turn_of_def storage_of_def idx_def turn_def)
  show "mpmc_items r = []" "m_capacity r = n" using r by (simp_all add: mpmc_items_def)
qed

section \<open>Waiting\<close>

text \<open>The only steps that change nothing are those of a thread that spins on the turn of its slot.\<close>

definition stuck :: "'a mpmc \<Rightarrow> 'a pc \<Rightarrow> bool" where
  "stuck r c \<longleftrightarrow> thread_step r c = Some (r, c)"

lemma stuck_cases:
  assumes "ring_ok r" "running c" "stuck r c" "thread_ok r hs tk c"
  shows "(\<exists>h v. c = EmplaceSpin h v \<and> turn_of r h < 2 * turn r h) \<or> (\<exists>t. c = PopSpin t \<and> turn_of r t < 2 * turn r t + 1)"
  using assms by (cases c) (auto simp: stuck_def running_def load_turn_ok split: if_splits Option.bind_splits)

lemma round_ticket:
  assumes "0 < m_capacity r"
  obtains u where "idx r u = idx r t" "turn r u = j"
proof
  show "idx r (j * m_capacity r + t mod m_capacity r) = idx r t" "turn r (j * m_capacity r + t mod m_capacity r) = j"
    using assms by (simp_all add: idx_def turn_def)
qed

lemma same_slot_earlier:
  assumes "idx r u = idx r t" "turn r u < turn r t"
  shows "u + m_capacity r \<le> t"
proof -
  have "t = turn r t * m_capacity r + idx r t" "u = turn r u * m_capacity r + idx r u" by (simp_all add: idx_def turn_def)
  moreover have "(turn r u + 1) * m_capacity r \<le> turn r t * m_capacity r" using assms(2) by (intro mult_right_mono) auto
  ultimately show ?thesis using assms(1) by (simp add: algebra_simps)
qed

text \<open>If nobody can move, a push or pop of round \<open>j\<close> that the slot waits for has not even been called.\<close>

lemma all_stuck:
  assumes "mpmc_inv s" "tickets_done s" and all: "\<And>p. running (pcs s p) \<Longrightarrow> stuck (sys_ring s) (pcs s p)"
  shows "turn_of (sys_ring s) u = 2 * turn (sys_ring s) u \<Longrightarrow> m_head (sys_ring s) \<le> u"
    "turn_of (sys_ring s) u = 2 * turn (sys_ring s) u + 1 \<Longrightarrow> m_tail (sys_ring s) \<le> u"
proof -
  let ?r = "sys_ring s"
  note D = mpmc_invD [OF assms(1)]
  have st: "(\<exists>h v. pcs s p = EmplaceSpin h v \<and> turn_of ?r h < 2 * turn ?r h) \<or> (\<exists>t. pcs s p = PopSpin t \<and> turn_of ?r t < 2 * turn ?r t + 1)"
    if "running (pcs s p)" for p
    using stuck_cases [OF D(1) that all [OF that] D(3)] .
  have run: "running (pcs s p)" if "push_ticket (pcs s p) = Some t \<or> pop_ticket (pcs s p) = Some t" for p t
    using that by (cases "pcs s p") (auto simp: running_def)
  show "m_head ?r \<le> u" if eq: "turn_of ?r u = 2 * turn ?r u"
  proof (rule ccontr)
    assume "\<not> m_head ?r \<le> u"
    then have "(\<exists>p. push_ticket (pcs s p) = Some u) \<or> 2 * turn ?r u + 1 \<le> turn_of ?r u"
      using assms(2) unfolding tickets_done_def by (meson not_le)
    then obtain p where p: "push_ticket (pcs s p) = Some u" using eq by auto
    then have "running (pcs s p)" using run by blast
    then show False using st [of p] p eq by auto
  qed
  show "m_tail ?r \<le> u" if eq: "turn_of ?r u = 2 * turn ?r u + 1"
  proof (rule ccontr)
    assume "\<not> m_tail ?r \<le> u"
    then have "(\<exists>p. pop_ticket (pcs s p) = Some u) \<or> 2 * turn ?r u + 2 \<le> turn_of ?r u"
      using assms(2) unfolding tickets_done_def by (meson not_le)
    then obtain p where p: "pop_ticket (pcs s p) = Some u" using eq by auto
    then have "running (pcs s p)" using run by blast
    then show False using st [of p] p eq by auto
  qed
qed

section \<open>Schedules\<close>

text \<open>A schedule as data: thread \<open>p\<close> starts the operation \<open>c\<close> (\<^const>\<open>Some\<close>) or makes its next step.\<close>

fun exec_schedule :: "(nat \<times> 'a pc option) list \<Rightarrow> 'a mpmc_sys \<Rightarrow> 'a mpmc_sys option" where
  "exec_schedule [] s = Some s"
| "exec_schedule ((p, Some c) # sch) s =
     (if \<not> running (pcs s p) \<and> (case c of Emplace _ \<Rightarrow> True | TryEmplace _ \<Rightarrow> True | PopCall \<Rightarrow> True | TryPop \<Rightarrow> True | _ \<Rightarrow> False)
      then exec_schedule sch (s\<lparr>pcs := (pcs s)(p := c)\<rparr>) else None)"
| "exec_schedule ((p, None) # sch) s =
     (if running (pcs s p)
      then do { (r', c') \<leftarrow> thread_step (sys_ring s) (pcs s p); exec_schedule sch (sys_after s p r' c') } else None)"

lemma exec_schedule_reachable: "mpmc_reachable n s \<Longrightarrow> exec_schedule sch s = Some s' \<Longrightarrow> mpmc_reachable n s'"
proof (induction sch arbitrary: s)
  case (Cons x sch)
  obtain p oc where x: "x = (p, oc)" by fastforce
  show ?case
  proof (cases oc)
    case None
    then obtain r' c' where st: "running (pcs s p)" "thread_step (sys_ring s) (pcs s p) = Some (r', c')"
      "exec_schedule sch (sys_after s p r' c') = Some s'"
      using Cons.prems x by (auto split: if_splits Option.bind_splits)
    then have "mpmc_step s (sys_after s p r' c')" unfolding sys_after_def by (intro mpmc_step.run)
    then show ?thesis using Cons st(3) by (blast intro: mpmc_reachable.step)
  next
    case (Some c)
    then obtain v where c: "\<not> running (pcs s p)" "c \<in> {Emplace v, TryEmplace v, PopCall, TryPop}"
      "exec_schedule sch (s\<lparr>pcs := (pcs s)(p := c)\<rparr>) = Some s'"
      using Cons.prems x by (cases c) (auto split: if_splits)
    then have "mpmc_step s (s\<lparr>pcs := (pcs s)(p := c)\<rparr>)" by (intro mpmc_step.call)
    then show ?thesis using Cons c(3) by (blast intro: mpmc_reachable.step)
  qed
qed simp

definition mpmc_start :: "nat \<Rightarrow> 'a mpmc_sys" where
  "mpmc_start n = \<lparr>sys_ring = \<lparr>m_capacity = n, m_slots = replicate n \<lparr>slot_turn = 0, storage = None\<rparr>, m_head = 0, m_tail = 0\<rparr>,
     pcs = (\<lambda>_. Idle), hist = [], taken = []\<rparr>"

lemma mpmc_start_reachable: "0 < n \<Longrightarrow> mpmc_reachable n (mpmc_start n)"
  unfolding mpmc_start_def by (rule mpmc_reachable.start) (simp add: Ring_new_def)

lemmas schedule_simps = mpmc_start_def sys_after_def running_def load_turn_def store_turn_def Slot_construct_def
  Slot_move_destroy_def idx_def turn_def

section \<open>Properties\<close>







end
