(* ===== verification/Spsc_Ring.thy ===== *)
theory Spsc_Ring
  imports Fifo_Spec
begin

text \<open>
  Model of \<^verbatim>\<open>SPSCRing\<close> of \<^verbatim>\<open>src/cpp-util/lockfreeQueue.h\<close>, the bounded queue for one producer
  and one consumer, each with a private copy of the index of the other side. As in \<open>Mpmc_Ring\<close> every
  access to a shared atomic or to a slot is one step, and the steps of the two threads interleave. A
  step aborts when it leaves the slots, constructs over a live object, reads or destroys a dead one, or
  fails the \<^verbatim>\<open>assert\<close> of \<^verbatim>\<open>pop\<close>. The model of \<^verbatim>\<open>front\<close> includes the read through the pointer
  it returns. The differences of \<^verbatim>\<open>size\<close> are integers: the slots fit into memory, so no index
  reaches \<open>2 ^ 63\<close> and \<^verbatim>\<open>ptrdiff_t\<close> is exact.
\<close>

section \<open>Data\<close>

record 'a spsc =
  q_capacity :: nat
  q_padding :: nat
  q_slots :: "'a option list"
  writeIdx :: nat
  readIdxCache :: nat
  readIdx :: nat
  writeIdxCache :: nat

text \<open>The constructor computes in \<^verbatim>\<open>size_t\<close>; \<open>padding\<close> is \<^verbatim>\<open>kPadding\<close>, which depends on the size of
  the elements.\<close>

definition spsc_capacity :: "u64 \<Rightarrow> u64 \<Rightarrow> u64" where
  "spsc_capacity padding capacity =
     (let capacity = (if capacity < 1 then 1 else capacity);
          capacity = capacity + 1
      in if - 1 - 2 * padding < capacity then - 1 - 2 * padding else capacity)"

definition SPSCRing_new :: "u64 \<Rightarrow> u64 \<Rightarrow> 'a spsc" where
  "SPSCRing_new padding capacity =
     (let c = spsc_capacity padding capacity in
      \<lparr>q_capacity = unat c, q_padding = unat padding, q_slots = replicate (unat (c + 2 * padding)) None,
       writeIdx = 0, readIdxCache = 0, readIdx = 0, writeIdxCache = 0\<rparr>)"

definition next_idx :: "'a spsc \<Rightarrow> nat \<Rightarrow> nat" where
  "next_idx q i = (if i + 1 = q_capacity q then 0 else i + 1)"

definition construct_at :: "nat \<Rightarrow> 'a \<Rightarrow> 'a spsc \<Rightarrow> 'a spsc option" where
  "construct_at i v q = do {
     x \<leftarrow> rd (q_slots q) (i + q_padding q);
     assert (x = None);
     ss \<leftarrow> wr (q_slots q) (i + q_padding q) (Some v);
     Some (q\<lparr>q_slots := ss\<rparr>) }"

definition read_at :: "nat \<Rightarrow> 'a spsc \<Rightarrow> 'a option" where
  "read_at i q = do { x \<leftarrow> rd (q_slots q) (i + q_padding q); x }"

definition destroy_at :: "nat \<Rightarrow> 'a spsc \<Rightarrow> 'a spsc option" where
  "destroy_at i q = do {
     _ \<leftarrow> read_at i q;
     ss \<leftarrow> wr (q_slots q) (i + q_padding q) None;
     Some (q\<lparr>q_slots := ss\<rparr>) }"

section \<open>The producer\<close>

text \<open>\<open>WConstruct i n v\<close> and \<open>WStore i n v\<close> carry the locals \<^verbatim>\<open>writeIdx\<close> and \<^verbatim>\<open>nextWriteIdx\<close>;
  the flag of the reload states is whether the operation waits (\<^verbatim>\<open>emplace\<close>) or gives up
  (\<^verbatim>\<open>try_emplace\<close>).\<close>

datatype 'a wpc =
    WIdle
  | WCall bool 'a
  | WReload bool nat nat 'a
  | WConstruct nat nat 'a
  | WStore nat nat 'a
  | WRet bool

fun writer_step :: "'a spsc \<Rightarrow> 'a wpc \<Rightarrow> ('a spsc \<times> 'a wpc) option" where
  "writer_step q (WCall wait v) =
     (let w = writeIdx q; n = next_idx q w in
      Some (q, if n = readIdxCache q then WReload wait w n v else WConstruct w n v))"
| "writer_step q (WReload wait w n v) =
     (let q = q\<lparr>readIdxCache := readIdx q\<rparr> in
      Some (q, if n = readIdxCache q then (if wait then WReload wait w n v else WRet False) else WConstruct w n v))"
| "writer_step q (WConstruct w n v) = do { q \<leftarrow> construct_at w v q; Some (q, WStore w n v) }"
| "writer_step q (WStore w n v) = Some (q\<lparr>writeIdx := n\<rparr>, WRet True)"
| "writer_step q _ = None"

section \<open>The consumer\<close>

datatype 'a rpc =
    RIdle
  | RFront
  | RFrontReload nat
  | RFrontRead nat
  | RFrontRet "'a option"
  | RPop 'a
  | RPopDestroy nat 'a
  | RPopStore nat 'a
  | RPopRet

fun reader_step :: "'a spsc \<Rightarrow> 'a rpc \<Rightarrow> ('a spsc \<times> 'a rpc) option" where
  "reader_step q RFront =
     Some (q, if readIdx q = writeIdxCache q then RFrontReload (readIdx q) else RFrontRead (readIdx q))"
| "reader_step q (RFrontReload i) =
     (let q = q\<lparr>writeIdxCache := writeIdx q\<rparr> in
      Some (q, if writeIdxCache q = i then RFrontRet None else RFrontRead i))"
| "reader_step q (RFrontRead i) = do { v \<leftarrow> read_at i q; Some (q, RFrontRet (Some v)) }"
| "reader_step q (RPop v) = do {
     assert (writeIdx q \<noteq> readIdx q);
     Some (q, RPopDestroy (readIdx q) v) }"
| "reader_step q (RPopDestroy i v) = do { q \<leftarrow> destroy_at i q; Some (q, RPopStore i v) }"
| "reader_step q (RPopStore i v) = Some (q\<lparr>readIdx := next_idx q i\<rparr>, RPopRet)"
| "reader_step q _ = None"

definition spsc_size :: "'a spsc \<Rightarrow> int" where
  "spsc_size q =
     (let diff = int (writeIdx q) - int (readIdx q) in if diff < 0 then diff + int (q_capacity q) else diff)"

definition spsc_empty :: "'a spsc \<Rightarrow> bool" where
  "spsc_empty q \<longleftrightarrow> writeIdx q = readIdx q"

definition spsc_max :: "'a spsc \<Rightarrow> nat" where
  "spsc_max q = q_capacity q - 1"

section \<open>Operations that run alone\<close>

fun run_writer :: "nat \<Rightarrow> 'a spsc \<Rightarrow> 'a wpc \<Rightarrow> ('a spsc \<times> bool) option" where
  "run_writer fuel q (WRet b) = Some (q, b)"
| "run_writer 0 q c = None"
| "run_writer (Suc fuel) q c = do { (q, c) \<leftarrow> writer_step q c; run_writer fuel q c }"

fun run_reader :: "nat \<Rightarrow> 'a spsc \<Rightarrow> 'a rpc \<Rightarrow> ('a spsc \<times> 'a rpc) option" where
  "run_reader fuel q (RFrontRet v) = Some (q, RFrontRet v)"
| "run_reader fuel q RPopRet = Some (q, RPopRet)"
| "run_reader 0 q c = None"
| "run_reader (Suc fuel) q c = do { (q, c) \<leftarrow> reader_step q c; run_reader fuel q c }"

definition try_push :: "'a \<Rightarrow> 'a spsc \<Rightarrow> (bool \<times> 'a spsc) option" where
  "try_push v q = do { (q, b) \<leftarrow> run_writer 4 q (WCall False v); Some (b, q) }"

text \<open>The consumer's idiom: look at the front and remove it.\<close>

definition front_pop :: "'a spsc \<Rightarrow> ('a option \<times> 'a spsc) option" where
  "front_pop q = do {
     (q, c) \<leftarrow> run_reader 3 q RFront;
     case c of
       RFrontRet (Some v) \<Rightarrow> do { (q, _) \<leftarrow> run_reader 3 q (RPop v); Some (Some v, q) }
     | _ \<Rightarrow> Some (None, q) }"

text \<open>The destructor removes what is left. Its loop gets the fuel \<open>n\<close>.\<close>

fun SPSCRing_destroy :: "nat \<Rightarrow> 'a spsc \<Rightarrow> 'a spsc option" where
  "SPSCRing_destroy 0 q = None"
| "SPSCRing_destroy (Suc n) q = do {
     (x, q) \<leftarrow> front_pop q;
     case x of None \<Rightarrow> Some q | Some _ \<Rightarrow> SPSCRing_destroy n q }"

section \<open>Both threads\<close>

text \<open>The system: the ring, the two program counters, and the logs of the values published and of
  the values removed.\<close>

record 'a spsc_sys =
  sring :: "'a spsc"
  wpc :: "'a wpc"
  rpc :: "'a rpc"
  published :: "'a list"
  removed :: "'a list"

fun wlog :: "'a wpc \<Rightarrow> 'a list" where
  "wlog (WStore w n v) = [v]"
| "wlog _ = []"

fun rlog :: "'a rpc \<Rightarrow> 'a list" where
  "rlog (RPopStore i v) = [v]"
| "rlog _ = []"

text \<open>The consumer calls \<^verbatim>\<open>pop\<close> only after \<^verbatim>\<open>front\<close> gave it an element.\<close>

inductive spsc_step :: "'a spsc_sys \<Rightarrow> 'a spsc_sys \<Rightarrow> bool" where
  call_push: "wpc s = WIdle \<or> (\<exists>b. wpc s = WRet b) \<Longrightarrow> spsc_step s (s\<lparr>wpc := WCall wait v\<rparr>)"
| call_front: "rpc s \<in> {RIdle, RPopRet} \<or> (\<exists>x. rpc s = RFrontRet x) \<Longrightarrow> spsc_step s (s\<lparr>rpc := RFront\<rparr>)"
| call_pop: "rpc s = RFrontRet (Some v) \<Longrightarrow> spsc_step s (s\<lparr>rpc := RPop v\<rparr>)"
| run_write: "writer_step (sring s) (wpc s) = Some (q, c) \<Longrightarrow>
    spsc_step s (s\<lparr>sring := q, wpc := c, published := published s @ wlog (wpc s)\<rparr>)"
| run_read: "reader_step (sring s) (rpc s) = Some (q, c) \<Longrightarrow>
    spsc_step s (s\<lparr>sring := q, rpc := c, removed := removed s @ rlog (rpc s)\<rparr>)"

inductive spsc_reachable :: "'a spsc \<Rightarrow> 'a spsc_sys \<Rightarrow> bool" for q0 where
  start: "spsc_reachable q0 \<lparr>sring = q0, wpc = WIdle, rpc = RIdle, published = [], removed = []\<rparr>"
| step: "spsc_reachable q0 s \<Longrightarrow> spsc_step s s' \<Longrightarrow> spsc_reachable q0 s'"

section \<open>The invariant\<close>

text \<open>The indices are the numbers \<open>W\<close> of published and \<open>R\<close> of removed elements modulo the capacity;
  each private copy is an earlier value of the other side's index.\<close>

definition read_cache_ok :: "'a spsc \<Rightarrow> nat \<Rightarrow> nat \<Rightarrow> bool" where
  "read_cache_ok q R W \<longleftrightarrow> (\<exists>rc\<le>R. W < rc + q_capacity q \<and> readIdxCache q = rc mod q_capacity q)"

definition write_cache_ok :: "'a spsc \<Rightarrow> nat \<Rightarrow> nat \<Rightarrow> bool" where
  "write_cache_ok q R W \<longleftrightarrow> (\<exists>wc\<le>W. R \<le> wc \<and> writeIdxCache q = wc mod q_capacity q)"

fun writer_ok :: "'a spsc \<Rightarrow> nat \<Rightarrow> nat \<Rightarrow> 'a wpc \<Rightarrow> bool" where
  "writer_ok q R W (WReload b w n v) \<longleftrightarrow> w = W mod q_capacity q \<and> n = (W + 1) mod q_capacity q"
| "writer_ok q R W (WConstruct w n v) \<longleftrightarrow>
     w = W mod q_capacity q \<and> n = (W + 1) mod q_capacity q \<and> read_cache_ok q R (W + 1)"
| "writer_ok q R W (WStore w n v) \<longleftrightarrow>
     w = W mod q_capacity q \<and> n = (W + 1) mod q_capacity q \<and> read_cache_ok q R (W + 1)"
| "writer_ok q R W _ \<longleftrightarrow> True"

fun reader_ok :: "'a spsc \<Rightarrow> nat \<Rightarrow> 'a list \<Rightarrow> 'a rpc \<Rightarrow> bool" where
  "reader_ok q R ps (RFrontReload i) \<longleftrightarrow> i = R mod q_capacity q"
| "reader_ok q R ps (RFrontRead i) \<longleftrightarrow> i = R mod q_capacity q \<and> write_cache_ok q (R + 1) (length ps)"
| "reader_ok q R ps (RFrontRet (Some v)) \<longleftrightarrow> write_cache_ok q (R + 1) (length ps) \<and> v = ps ! R"
| "reader_ok q R ps (RPop v) \<longleftrightarrow> write_cache_ok q (R + 1) (length ps) \<and> v = ps ! R"
| "reader_ok q R ps (RPopDestroy i v) \<longleftrightarrow> i = R mod q_capacity q \<and> write_cache_ok q (R + 1) (length ps) \<and> v = ps ! R"
| "reader_ok q R ps (RPopStore i v) \<longleftrightarrow> i = R mod q_capacity q \<and> write_cache_ok q (R + 1) (length ps) \<and> v = ps ! R"
| "reader_ok q R ps _ \<longleftrightarrow> True"

definition q_at :: "'a spsc \<Rightarrow> nat \<Rightarrow> 'a option" where
  "q_at q t = q_slots q ! (t mod q_capacity q + q_padding q)"

fun being_published :: "'a wpc \<Rightarrow> 'a option" where
  "being_published (WStore w n v) = Some v"
| "being_published _ = None"

fun being_removed :: "'a rpc \<Rightarrow> bool" where
  "being_removed (RPopStore i v) \<longleftrightarrow> True"
| "being_removed _ \<longleftrightarrow> False"

definition expected :: "nat \<Rightarrow> 'a list \<Rightarrow> 'a wpc \<Rightarrow> 'a rpc \<Rightarrow> nat \<Rightarrow> 'a option" where
  "expected R ps wc rc t =
     (if t < length ps then (if t = R \<and> being_removed rc then None else Some (ps ! t))
      else if t = length ps then being_published wc else None)"

definition spsc_shape :: "'a spsc \<Rightarrow> bool" where
  "spsc_shape q \<longleftrightarrow> 2 \<le> q_capacity q \<and> length (q_slots q) = q_capacity q + 2 * q_padding q"

definition spsc_inv :: "'a spsc_sys \<Rightarrow> bool" where
  "spsc_inv s \<longleftrightarrow>
     (let q = sring s; c = q_capacity q; W = length (published s); R = length (removed s) in
      spsc_shape q \<and> writeIdx q = W mod c \<and> readIdx q = R mod c \<and> R \<le> W \<and> W < R + c \<and>
      take R (published s) = removed s \<and> read_cache_ok q R W \<and> write_cache_ok q R W \<and>
      writer_ok q R W (wpc s) \<and> reader_ok q R (published s) (rpc s) \<and>
      (\<forall>t. R \<le> t \<and> t < R + c \<longrightarrow> q_at q t = expected R (published s) (wpc s) (rpc s) t))"

lemma spsc_invD:
  assumes "spsc_inv s"
  shows "spsc_shape (sring s)" "writeIdx (sring s) = length (published s) mod q_capacity (sring s)"
    "readIdx (sring s) = length (removed s) mod q_capacity (sring s)" "length (removed s) \<le> length (published s)"
    "length (published s) < length (removed s) + q_capacity (sring s)"
    "take (length (removed s)) (published s) = removed s"
    "read_cache_ok (sring s) (length (removed s)) (length (published s))"
    "write_cache_ok (sring s) (length (removed s)) (length (published s))"
    "writer_ok (sring s) (length (removed s)) (length (published s)) (wpc s)"
    "reader_ok (sring s) (length (removed s)) (published s) (rpc s)"
    "\<And>t. length (removed s) \<le> t \<Longrightarrow> t < length (removed s) + q_capacity (sring s) \<Longrightarrow>
      q_at (sring s) t = expected (length (removed s)) (published s) (wpc s) (rpc s) t"
  using assms by (simp_all add: spsc_inv_def Let_def)

lemma next_idx_mod: "spsc_shape q \<Longrightarrow> next_idx q (t mod q_capacity q) = (t + 1) mod q_capacity q"
  by (auto simp: next_idx_def spsc_shape_def mod_Suc)

lemma slot_in_range: "spsc_shape q \<Longrightarrow> t mod q_capacity q + q_padding q < length (q_slots q)"
proof -
  assume q: "spsc_shape q"
  then have "t mod q_capacity q < q_capacity q" by (intro mod_less_divisor) (simp add: spsc_shape_def)
  then show ?thesis using q unfolding spsc_shape_def by linarith
qed

definition put_at :: "nat \<Rightarrow> 'a option \<Rightarrow> 'a spsc \<Rightarrow> 'a spsc" where
  "put_at t x q = q\<lparr>q_slots := (q_slots q)[t mod q_capacity q + q_padding q := x]\<rparr>"

lemma construct_at_ok: "spsc_shape q \<Longrightarrow> q_at q t = None \<Longrightarrow> construct_at (t mod q_capacity q) v q = Some (put_at t (Some v) q)"
  using slot_in_range [of q t] by (simp add: construct_at_def q_at_def put_at_def)

lemma read_at_ok: "spsc_shape q \<Longrightarrow> read_at (t mod q_capacity q) q = q_at q t"
  using slot_in_range [of q t] by (simp add: read_at_def q_at_def)

lemma destroy_at_ok: "spsc_shape q \<Longrightarrow> q_at q t = Some v \<Longrightarrow> destroy_at (t mod q_capacity q) q = Some (put_at t None q)"
  using slot_in_range [of q t] by (simp add: destroy_at_def read_at_ok) (simp add: put_at_def)

lemma q_at_put_at:
  "spsc_shape q \<Longrightarrow> q_at (put_at t x q) u = (if u mod q_capacity q = t mod q_capacity q then x else q_at q u)"
  using slot_in_range [of q t] slot_in_range [of q u] by (auto simp: q_at_def put_at_def nth_list_update)

lemma put_at_fields [simp]:
  "q_capacity (put_at t x q) = q_capacity q" "q_padding (put_at t x q) = q_padding q" "writeIdx (put_at t x q) = writeIdx q"
  "readIdx (put_at t x q) = readIdx q" "spsc_shape (put_at t x q) = spsc_shape q"
  "read_cache_ok (put_at t x q) = read_cache_ok q" "write_cache_ok (put_at t x q) = write_cache_ok q"
  by (auto simp: put_at_def spsc_shape_def read_cache_ok_def write_cache_ok_def fun_eq_iff)

lemma upd_fields [simp]:
  "q_at (q\<lparr>readIdxCache := i\<rparr>) t = q_at q t" "q_at (q\<lparr>writeIdxCache := i\<rparr>) t = q_at q t"
  "q_at (q\<lparr>writeIdx := i\<rparr>) t = q_at q t" "q_at (q\<lparr>readIdx := i\<rparr>) t = q_at q t"
  "spsc_shape (q\<lparr>readIdxCache := i\<rparr>) = spsc_shape q" "spsc_shape (q\<lparr>writeIdxCache := i\<rparr>) = spsc_shape q"
  "spsc_shape (q\<lparr>writeIdx := i\<rparr>) = spsc_shape q" "spsc_shape (q\<lparr>readIdx := i\<rparr>) = spsc_shape q"
  "read_cache_ok (q\<lparr>writeIdxCache := i\<rparr>) = read_cache_ok q" "read_cache_ok (q\<lparr>writeIdx := i\<rparr>) = read_cache_ok q"
  "read_cache_ok (q\<lparr>readIdx := i\<rparr>) = read_cache_ok q" "write_cache_ok (q\<lparr>readIdxCache := i\<rparr>) = write_cache_ok q"
  "write_cache_ok (q\<lparr>writeIdx := i\<rparr>) = write_cache_ok q" "write_cache_ok (q\<lparr>readIdx := i\<rparr>) = write_cache_ok q"
  by (auto simp: q_at_def spsc_shape_def read_cache_ok_def write_cache_ok_def fun_eq_iff)

lemma cache_ok_mono:
  "read_cache_ok q R W \<Longrightarrow> R \<le> R' \<Longrightarrow> read_cache_ok q R' W" "write_cache_ok q R W \<Longrightarrow> W \<le> W' \<Longrightarrow> write_cache_ok q R W'"
  "read_cache_ok q R (W + 1) \<Longrightarrow> read_cache_ok q R W" "write_cache_ok q (R + 1) W \<Longrightarrow> write_cache_ok q R W"
  "read_cache_ok q R W \<Longrightarrow> W < R + q_capacity q" "write_cache_ok q R W \<Longrightarrow> R \<le> W"
  by (auto simp: read_cache_ok_def write_cache_ok_def intro: order_trans)

lemma writer_ok_mono: "writer_ok q R W c \<Longrightarrow> R \<le> R' \<Longrightarrow> writer_ok q R' W c"
  by (cases c) (auto dest: cache_ok_mono)

lemma reader_ok_mono: "reader_ok q R ps c \<Longrightarrow> R \<le> length ps \<Longrightarrow> reader_ok q R (ps @ xs) c"
  by (cases "(q, R, ps, c)" rule: reader_ok.cases)
    (auto simp: nth_append dest: cache_ok_mono(2) [of _ _ _ "length ps + length xs"] cache_ok_mono(6))

lemma ok_cong:
  "q_capacity q' = q_capacity q \<Longrightarrow> read_cache_ok q' = read_cache_ok q \<Longrightarrow> writer_ok q' R W wc = writer_ok q R W wc"
  "q_capacity q' = q_capacity q \<Longrightarrow> write_cache_ok q' = write_cache_ok q \<Longrightarrow> reader_ok q' R ps rc = reader_ok q R ps rc"
  by (cases wc; simp) (cases "(q, R, ps, rc)" rule: reader_ok.cases; simp)

lemma ok_upd [simp]:
  "reader_ok (q\<lparr>readIdxCache := i\<rparr>) R ps rc = reader_ok q R ps rc" "reader_ok (q\<lparr>writeIdx := i\<rparr>) R ps rc = reader_ok q R ps rc"
  "reader_ok (q\<lparr>readIdx := i\<rparr>) R ps rc = reader_ok q R ps rc" "reader_ok (put_at t x q) R ps rc = reader_ok q R ps rc"
  "writer_ok (q\<lparr>writeIdxCache := i\<rparr>) R W wc = writer_ok q R W wc" "writer_ok (q\<lparr>readIdx := i\<rparr>) R W wc = writer_ok q R W wc"
  "writer_ok (q\<lparr>writeIdx := i\<rparr>) R W wc = writer_ok q R W wc" "writer_ok (put_at t x q) R W wc = writer_ok q R W wc"
  by (rule ok_cong(2), simp, simp)+ (rule ok_cong(1), simp, simp)+

lemma next_not_cached:
  assumes "read_cache_ok q R W" "(W + 1) mod q_capacity q \<noteq> readIdxCache q"
  shows "read_cache_ok q R (W + 1)"
proof -
  obtain rc where rc: "rc \<le> R" "W < rc + q_capacity q" "readIdxCache q = rc mod q_capacity q"
    using assms(1) by (auto simp: read_cache_ok_def)
  have "W + 1 \<noteq> rc + q_capacity q" using assms(2) rc(3) by (metis mod_add_self2)
  then show ?thesis using rc unfolding read_cache_ok_def by (intro exI [of _ rc]) simp
qed

lemma front_not_cached:
  assumes "write_cache_ok q R W" "R mod q_capacity q \<noteq> writeIdxCache q"
  shows "write_cache_ok q (R + 1) W"
proof -
  obtain wc where wc: "wc \<le> W" "R \<le> wc" "writeIdxCache q = wc mod q_capacity q"
    using assms(1) by (auto simp: write_cache_ok_def)
  then have "wc \<noteq> R" using assms(2) by auto
  then show ?thesis using wc unfolding write_cache_ok_def by (intro exI [of _ wc]) simp
qed

definition wrote :: "'a spsc_sys \<Rightarrow> 'a spsc \<Rightarrow> 'a wpc \<Rightarrow> 'a spsc_sys" where
  "wrote s q c = s\<lparr>sring := q, wpc := c, published := published s @ wlog (wpc s)\<rparr>"

definition did_read :: "'a spsc_sys \<Rightarrow> 'a spsc \<Rightarrow> 'a rpc \<Rightarrow> 'a spsc_sys" where
  "did_read s q c = s\<lparr>sring := q, rpc := c, removed := removed s @ rlog (rpc s)\<rparr>"

lemma writer_step_ok:
  assumes inv: "spsc_inv s" and run: "wpc s \<noteq> WIdle" "\<And>b. wpc s \<noteq> WRet b"
  shows "\<exists>q c. writer_step (sring s) (wpc s) = Some (q, c) \<and> spsc_inv (wrote s q c)"
proof -
  let ?q = "sring s" and ?R = "length (removed s)" and ?W = "length (published s)"
  let ?c = "q_capacity ?q"
  note D = spsc_invD [OF inv]
  have c: "0 < ?c" using D(1) by (simp add: spsc_shape_def)
  show ?thesis
  proof (cases "wpc s")
    case (WCall b v)
    have n: "next_idx ?q (writeIdx ?q) = (?W + 1) mod ?c" using next_idx_mod [OF D(1)] D(2) by simp
    have "spsc_inv (wrote s ?q x)" if "x = WReload b (writeIdx ?q) ((?W + 1) mod ?c) v \<or>
        x = WConstruct (writeIdx ?q) ((?W + 1) mod ?c) v \<and> (?W + 1) mod ?c \<noteq> readIdxCache ?q" for x
      using that D WCall next_not_cached [OF D(7)] by (auto simp: spsc_inv_def wrote_def Let_def expected_def)
    then show ?thesis using WCall by (auto simp: Let_def n)
  next
    case (WReload b w n v)
    let ?q' = "?q\<lparr>readIdxCache := readIdx ?q\<rparr>"
    have rc: "read_cache_ok ?q' ?R ?W" using D(3,5) by (auto simp: read_cache_ok_def)
    have "spsc_inv (wrote s ?q' x)" if "x = WReload b w n v \<or> x = WRet False \<or> x = WConstruct w n v \<and> n \<noteq> readIdx ?q" for x
      using that D WReload rc next_not_cached [OF rc]
      by (auto simp: spsc_inv_def wrote_def Let_def expected_def)
    then show ?thesis using WReload by (auto simp: Let_def)
  next
    case (WConstruct w n v)
    have w: "w = ?W mod ?c" "n = (?W + 1) mod ?c" "read_cache_ok ?q ?R (?W + 1)" using D(9) WConstruct by simp_all
    have "q_at ?q ?W = None" using D(11) [of ?W] D(4,5) WConstruct by (simp add: expected_def)
    then have st: "writer_step ?q (wpc s) = Some (put_at ?W (Some v) ?q, WStore w n v)"
      using construct_at_ok [OF D(1)] WConstruct w(1) by simp
    have "q_at (put_at ?W (Some v) ?q) t = expected ?R (published s) (WStore w n v) (rpc s) t" if "?R \<le> t" "t < ?R + ?c" for t
      using q_at_put_at [OF D(1)] D(11) [OF that] mod_interval_inj [of t ?c ?W ?R] that D(4,5) WConstruct
      by (auto simp: expected_def)
    then have "spsc_inv (wrote s (put_at ?W (Some v) ?q) (WStore w n v))"
      using D WConstruct w by (simp add: spsc_inv_def wrote_def Let_def)
    then show ?thesis using st by blast
  next
    case (WStore w n v)
    let ?q' = "?q\<lparr>writeIdx := n\<rparr>"
    have w: "n = (?W + 1) mod ?c" "read_cache_ok ?q ?R (?W + 1)" using D(9) WStore by simp_all
    have "reader_ok ?q' ?R (published s @ [v]) (rpc s)"
      using reader_ok_mono [OF D(10) D(4)] by simp
    moreover have br: "?R < ?W" if "being_removed (rpc s)"
      using that D(10) cache_ok_mono(6) [of ?q "?R + 1" ?W] by (cases "rpc s") simp_all
    have "q_at ?q t = expected ?R (published s @ [v]) (WRet True) (rpc s) t" if "?R \<le> t" "t < ?R + ?c" for t
      using D(11) [OF that] WStore D(4) br by (cases "being_removed (rpc s)") (auto simp: expected_def nth_append)
    moreover have "take ?R (published s @ [v]) = removed s" using D(4,6) by simp
    moreover have "write_cache_ok ?q ?R (Suc ?W)" using cache_ok_mono(2) [OF D(8)] by simp
    ultimately have "spsc_inv (wrote s ?q' (WRet True))"
      using D(1-4) w cache_ok_mono(5) [OF w(2)] WStore by (simp add: spsc_inv_def wrote_def Let_def)
    then show ?thesis using WStore by simp
  qed (use run in auto)
qed

lemma reader_step_ok:
  assumes inv: "spsc_inv s" and run: "rpc s \<notin> {RIdle, RPopRet}" "\<And>x. rpc s \<noteq> RFrontRet x"
  shows "\<exists>q c. reader_step (sring s) (rpc s) = Some (q, c) \<and> spsc_inv (did_read s q c)"
proof -
  let ?q = "sring s" and ?R = "length (removed s)" and ?W = "length (published s)"
  let ?c = "q_capacity ?q"
  note D = spsc_invD [OF inv]
  have c: "0 < ?c" using D(1) by (simp add: spsc_shape_def)
  show ?thesis
  proof (cases "rpc s")
    case RFront
    have "spsc_inv (did_read s ?q x)" if "x = RFrontReload (readIdx ?q) \<or> x = RFrontRead (readIdx ?q) \<and> readIdx ?q \<noteq> writeIdxCache ?q" for x
      using that D RFront front_not_cached [OF D(8)] by (auto simp: spsc_inv_def did_read_def Let_def expected_def)
    then show ?thesis using RFront by auto
  next
    case (RFrontReload i)
    let ?q' = "?q\<lparr>writeIdxCache := writeIdx ?q\<rparr>"
    have wc: "write_cache_ok ?q' ?R ?W" using D(2,4) by (auto simp: write_cache_ok_def)
    have "spsc_inv (did_read s ?q' x)" if "x = RFrontRet None \<or> x = RFrontRead i \<and> writeIdx ?q \<noteq> i" for x
      using that D RFrontReload wc front_not_cached [OF wc]
      by (auto simp: spsc_inv_def did_read_def Let_def expected_def)
    then show ?thesis using RFrontReload by (auto simp: Let_def)
  next
    case (RFrontRead i)
    have i: "i = ?R mod ?c" "write_cache_ok ?q (?R + 1) ?W" using D(10) RFrontRead by simp_all
    then have "q_at ?q ?R = Some (published s ! ?R)"
      using D(11) [of ?R] c cache_ok_mono(6) [OF i(2)] RFrontRead by (simp add: expected_def)
    then have st: "reader_step ?q (rpc s) = Some (?q, RFrontRet (Some (published s ! ?R)))"
      using read_at_ok [OF D(1)] RFrontRead i(1) by simp
    have "spsc_inv (did_read s ?q (RFrontRet (Some (published s ! ?R))))"
      using D RFrontRead i by (auto simp: spsc_inv_def did_read_def Let_def expected_def)
    then show ?thesis using st by blast
  next
    case (RPop v)
    have "write_cache_ok ?q (?R + 1) ?W" using D(10) RPop by simp
    from cache_ok_mono(6) [OF this] have "?R < ?W" by simp
    then have "writeIdx ?q \<noteq> readIdx ?q" using D(2-5) mod_add_distinct [of "?W - ?R" ?c ?R] by simp
    moreover have "spsc_inv (did_read s ?q (RPopDestroy (readIdx ?q) v))"
      using D RPop by (auto simp: spsc_inv_def did_read_def Let_def expected_def)
    ultimately show ?thesis using RPop by simp
  next
    case (RPopDestroy i v)
    have i: "i = ?R mod ?c" "write_cache_ok ?q (?R + 1) ?W" "v = published s ! ?R" using D(10) RPopDestroy by simp_all
    have lt: "?R < ?W" using cache_ok_mono(6) [OF i(2)] by simp
    then have "q_at ?q ?R = Some v"
      using D(11) [of ?R] c RPopDestroy i(3) by (simp add: expected_def)
    then have st: "reader_step ?q (rpc s) = Some (put_at ?R None ?q, RPopStore i v)"
      using destroy_at_ok [OF D(1)] RPopDestroy i(1) by simp
    have "q_at (put_at ?R None ?q) t = expected ?R (published s) (wpc s) (RPopStore i v) t" if "?R \<le> t" "t < ?R + ?c" for t
      using q_at_put_at [OF D(1)] D(11) [OF that] mod_interval_inj [of t ?c ?R ?R] that c lt RPopDestroy
      by (auto simp: expected_def)
    then have "spsc_inv (did_read s (put_at ?R None ?q) (RPopStore i v))"
      using D RPopDestroy i by (simp add: spsc_inv_def did_read_def Let_def)
    then show ?thesis using st by blast
  next
    case (RPopStore i v)
    let ?q' = "?q\<lparr>readIdx := next_idx ?q i\<rparr>"
    have i: "i = ?R mod ?c" "write_cache_ok ?q (?R + 1) ?W" "v = published s ! ?R" using D(10) RPopStore by simp_all
    have lt: "?R < ?W" using cache_ok_mono(6) [OF i(2)] by simp
    have "take (Suc ?R) (published s) = removed s @ [v]" using D(6) i(3) take_Suc_conv_app_nth [OF lt] by simp
    moreover have "q_at ?q t = expected (Suc ?R) (published s) (wpc s) RPopRet t" if t: "Suc ?R \<le> t" "t < Suc ?R + ?c" for t
    proof (cases "t < ?R + ?c")
      case True
      then show ?thesis using D(11) [of t] t RPopStore by (simp add: expected_def)
    next
      case False
      then have t: "t = ?R + ?c" using t by simp
      then have "q_at ?q t = q_at ?q ?R" by (simp add: q_at_def)
      also have "\<dots> = None" using D(11) [of ?R] c lt RPopStore by (simp add: expected_def)
      finally show ?thesis using t D(5) by (simp add: expected_def)
    qed
    moreover have "writer_ok ?q (Suc ?R) ?W (wpc s)" using writer_ok_mono [OF D(9)] by simp
    moreover have "read_cache_ok ?q (Suc ?R) ?W" using cache_ok_mono(1) [OF D(7)] by simp
    ultimately have "spsc_inv (did_read s ?q' RPopRet)"
      using D(1-5) i(1,2) lt next_idx_mod [OF D(1), of ?R] RPopStore by (simp add: spsc_inv_def did_read_def Let_def)
    then show ?thesis using RPopStore by simp
  qed (use run in auto)
qed

lemma writer_stepD:
  assumes "spsc_inv s" "writer_step (sring s) (wpc s) = Some (q, c)"
  shows "spsc_inv (wrote s q c)"
  using writer_step_ok [OF assms(1)] assms(2) by (cases "wpc s") auto

lemma reader_stepD:
  assumes "spsc_inv s" "reader_step (sring s) (rpc s) = Some (q, c)"
  shows "spsc_inv (did_read s q c)"
  using reader_step_ok [OF assms(1)] assms(2) by (cases "rpc s") auto

lemma call_inv:
  assumes inv: "spsc_inv s"
  shows "being_published (wpc s) = None \<Longrightarrow> spsc_inv (s\<lparr>wpc := WCall b v\<rparr>)"
    "\<not> being_removed (rpc s) \<Longrightarrow> spsc_inv (s\<lparr>rpc := RFront\<rparr>)"
    "rpc s = RFrontRet (Some v) \<Longrightarrow> spsc_inv (s\<lparr>rpc := RPop v\<rparr>)"
  using spsc_invD [OF inv] by (auto simp: spsc_inv_def Let_def expected_def)

lemma spsc_step_inv:
  assumes "spsc_inv s" "spsc_step s s'"
  shows "spsc_inv s'"
  using assms(2)
proof cases
  case (call_push wait v)
  then show ?thesis using call_inv(1) [OF assms(1)] by auto
next
  case call_front
  then show ?thesis using call_inv(2) [OF assms(1)] by auto
next
  case (call_pop v)
  then show ?thesis using call_inv(3) [OF assms(1)] by auto
next
  case (run_write q c)
  then show ?thesis using writer_stepD [OF assms(1)] by (simp add: wrote_def)
next
  case (run_read q c)
  then show ?thesis using reader_stepD [OF assms(1)] by (simp add: did_read_def)
qed

section \<open>Creation\<close>

lemma unat_minus_1_u64: "unat (- 1 :: u64) = 2 ^ 64 - 1"
  by (simp add: unsigned_minus_1_eq_mask mask_eq_exp_minus_1)

lemma spsc_capacity_value:
  assumes "padding \<le> 64" "capacity \<noteq> - 1"
  shows "unat (spsc_capacity padding capacity) = min (max 1 (unat capacity) + 1) (2 ^ 64 - 1 - 2 * unat padding)"
    "unat (spsc_capacity padding capacity + 2 * padding) = unat (spsc_capacity padding capacity) + 2 * unat padding"
proof -
  have p: "unat padding \<le> 64" using assms(1) by (simp add: word_le_nat_alt)
  then have pp: "unat (2 * padding) = 2 * unat padding" by (simp add: unat_word_ariths)
  define lim where "lim = - 1 - 2 * padding"
  have "2 * padding \<le> - 1" by simp
  from unat_sub [OF this] have lim: "unat lim = 2 ^ 64 - 1 - 2 * unat padding"
    unfolding lim_def pp unat_minus_1_u64 .
  define c1 where "c1 = (if capacity < 1 then 1 else capacity)"
  have c1: "unat c1 = max 1 (unat capacity)"
    by (auto simp: c1_def word_less_nat_alt max_def)
  have "unat capacity \<noteq> 2 ^ 64 - 1" using assms(2) unat_minus_1_u64 by (metis word_unat_eq_iff)
  moreover have "unat capacity < 2 ^ 64" using unat_less_two_power [of capacity] by simp
  ultimately have c2: "unat (c1 + 1) = max 1 (unat capacity) + 1" using c1 by (simp add: unat_word_ariths)
  have cap: "spsc_capacity padding capacity = (if lim < c1 + 1 then lim else c1 + 1)"
    by (simp add: spsc_capacity_def Let_def lim_def c1_def)
  then show v: "unat (spsc_capacity padding capacity) = min (max 1 (unat capacity) + 1) (2 ^ 64 - 1 - 2 * unat padding)"
    by (simp add: word_less_nat_alt lim c2)
  then have "unat (spsc_capacity padding capacity) + 2 * unat padding < 2 ^ 64" using p by simp
  then show "unat (spsc_capacity padding capacity + 2 * padding) = unat (spsc_capacity padding capacity) + 2 * unat padding"
    by (simp add: unat_word_ariths pp)
qed

definition spsc_start :: "'a spsc \<Rightarrow> 'a spsc_sys" where
  "spsc_start q = \<lparr>sring = q, wpc = WIdle, rpc = RIdle, published = [], removed = []\<rparr>"

lemma spsc_start_inv:
  assumes "padding \<le> 64" "capacity \<noteq> - 1"
  shows "spsc_inv (spsc_start (SPSCRing_new padding capacity))"
proof -
  let ?q = "SPSCRing_new padding capacity :: 'a spsc"
  have sh: "spsc_shape ?q"
    using spsc_capacity_value [OF assms] assms(1) by (auto simp: SPSCRing_new_def Let_def spsc_shape_def word_le_nat_alt)
  have "q_at ?q t = None" for t using slot_in_range [OF sh, of t] by (simp add: q_at_def SPSCRing_new_def Let_def)
  then show ?thesis
    using sh by (auto simp: spsc_inv_def spsc_start_def Let_def SPSCRing_new_def read_cache_ok_def write_cache_ok_def
        expected_def spsc_shape_def)
qed

section \<open>Running alone\<close>

definition spsc_items :: "'a spsc \<Rightarrow> 'a list" where
  "spsc_items q = map (\<lambda>k. the (q_at q (readIdx q + k))) [0..<nat (spsc_size q)]"

definition spsc_wf :: "'a spsc \<Rightarrow> bool" where
  "spsc_wf q \<longleftrightarrow> (\<exists>ps rs. spsc_inv \<lparr>sring = q, wpc = WIdle, rpc = RIdle, published = ps, removed = rs\<rparr>)"

lemma mod_distance:
  assumes "0 < c" "R \<le> W" "W < R + c"
  shows "(if int (W mod c) - int (R mod c) < 0 then int (W mod c) - int (R mod c) + int c else int (W mod c) - int (R mod c)) = int W - int R"
proof -
  define d where "d = W - R"
  have W: "W = R + d" "d < c" using assms by (simp_all add: d_def)
  have r: "R mod c < c" using assms(1) by simp
  have "W mod c = (R mod c + d) mod c" unfolding W(1) by (simp add: mod_simps)
  also have "\<dots> = (if R mod c + d < c then R mod c + d else R mod c + d - c)"
  proof -
    have "R mod c + d - c < c" using r W(2) by linarith
    then show ?thesis by (simp add: le_mod_geq)
  qed
  finally show ?thesis using r W by (auto split: if_splits)
qed

lemma spsc_size_inv:
  assumes "spsc_inv s"
  shows "spsc_size (sring s) = int (length (published s)) - int (length (removed s))"
proof -
  note D = spsc_invD [OF assms]
  have "0 < q_capacity (sring s)" using D(1) by (simp add: spsc_shape_def)
  from mod_distance [OF this D(4,5)] show ?thesis by (simp add: spsc_size_def Let_def D(2,3))
qed

lemma spsc_items_inv:
  assumes inv: "spsc_inv s" and idle: "\<not> being_removed (rpc s)"
  shows "spsc_items (sring s) = drop (length (removed s)) (published s)"
proof -
  let ?q = "sring s" and ?R = "length (removed s)" and ?W = "length (published s)"
  note D = spsc_invD [OF inv]
  have "q_at ?q (readIdx ?q + k) = Some (published s ! (?R + k))" if "k < ?W - ?R" for k
  proof -
    have "q_at ?q (readIdx ?q + k) = q_at ?q (?R + k)" by (simp add: q_at_def D(3) mod_simps)
    moreover have "?R + k < ?W" using that by linarith
    ultimately show ?thesis using D(11) [of "?R + k"] D(5) idle by (simp add: expected_def)
  qed
  moreover have "nat (spsc_size ?q) = ?W - ?R" using spsc_size_inv [OF inv] D(4) by simp
  ultimately show ?thesis by (intro nth_equalityI) (simp_all add: spsc_items_def)
qed

lemma spsc_idle:
  assumes inv: "spsc_inv s" and "being_published (wpc s) = None" "\<not> being_removed (rpc s)"
  shows "spsc_inv (s\<lparr>wpc := WIdle, rpc := RIdle\<rparr>)"
  using assms(2,3) spsc_invD [OF inv] by (auto simp: spsc_inv_def Let_def expected_def)

lemma writer_finishes:
  assumes inv: "spsc_inv s" and "wpc s = WConstruct w n v"
  shows "\<exists>q. run_writer (Suc (Suc f)) (sring s) (wpc s) = Some (q, True) \<and>
    spsc_inv (s\<lparr>sring := q, wpc := WRet True, published := published s @ [v]\<rparr>) \<and> q_capacity q = q_capacity (sring s)"
proof -
  obtain q1 where 1: "writer_step (sring s) (wpc s) = Some (q1, WStore w n v)" "q_capacity q1 = q_capacity (sring s)"
    using writer_step_ok [OF inv] assms(2) by (auto simp: construct_at_def split: Option.bind_splits)
  have i1: "spsc_inv (wrote s q1 (WStore w n v))" using writer_stepD [OF inv 1(1)] .
  have "spsc_inv (wrote (wrote s q1 (WStore w n v)) (q1\<lparr>writeIdx := n\<rparr>) (WRet True))"
    using writer_stepD [OF i1] by (simp add: wrote_def)
  then show ?thesis using 1 assms(2) by (simp add: wrote_def del: writer_step.simps(3))
qed

lemma spsc_wf_after:
  assumes "spsc_inv s" "being_published (wpc s) = None" "\<not> being_removed (rpc s)"
  shows "spsc_wf (sring s)" "spsc_items (sring s) = drop (length (removed s)) (published s)"
proof -
  have "spsc_inv \<lparr>sring = sring s, wpc = WIdle, rpc = RIdle, published = published s, removed = removed s\<rparr>"
    using spsc_idle [OF assms] by (simp add: spsc_inv_def Let_def)
  then show "spsc_wf (sring s)" unfolding spsc_wf_def by blast
  show "spsc_items (sring s) = drop (length (removed s)) (published s)" using assms by (simp add: spsc_items_inv)
qed

lemma writer_result:
  assumes inv: "spsc_inv s" and pc: "wpc s = WConstruct w n v" and rd: "rpc s = RIdle"
  shows "\<exists>q. run_writer (Suc (Suc f)) (sring s) (WConstruct w n v) = Some (q, True) \<and> spsc_wf q \<and>
    q_capacity q = q_capacity (sring s) \<and> spsc_items q = drop (length (removed s)) (published s) @ [v] \<and>
    length (published s) - length (removed s) < spsc_max q"
proof -
  obtain q where q: "run_writer (Suc (Suc f)) (sring s) (wpc s) = Some (q, True)" "q_capacity q = q_capacity (sring s)"
      "spsc_inv (s\<lparr>sring := q, wpc := WRet True, published := published s @ [v]\<rparr>)" (is "spsc_inv ?s'")
    using writer_finishes [OF inv pc] by blast
  have "length (published s) - length (removed s) < q_capacity (sring s) - 1"
    using spsc_invD(4,9) [OF inv] pc by (auto dest!: cache_ok_mono(5))
  then show ?thesis
    using q pc spsc_wf_after [OF q(3)] rd spsc_invD(4) [OF inv] by (simp add: spsc_max_def)
qed

lemma numeral_fuel: "run_writer 4 = run_writer (Suc (Suc (Suc (Suc 0))))" "run_reader 3 = run_reader (Suc (Suc (Suc 0)))"
  by (simp_all add: numeral_eq_Suc)

lemma try_push_alone:
  assumes "spsc_wf q"
  shows "\<exists>q'. try_push v q = Some (length (spsc_items q) < spsc_max q, q') \<and> spsc_wf q' \<and> q_capacity q' = q_capacity q \<and>
    spsc_items q' = spsc_items q @ (if length (spsc_items q) < spsc_max q then [v] else [])"
proof -
  obtain ps rs where inv0: "spsc_inv \<lparr>sring = q, wpc = WIdle, rpc = RIdle, published = ps, removed = rs\<rparr>" (is "spsc_inv ?s0")
    using assms by (auto simp: spsc_wf_def)
  have items: "spsc_items q = drop (length rs) ps" using spsc_wf_after(2) [OF inv0] by simp
  note D = spsc_invD [OF inv0, simplified]
  let ?s1 = "?s0\<lparr>wpc := WCall False v\<rparr>" and ?n = "(length ps + 1) mod q_capacity q" and ?w = "writeIdx q"
  have n: "next_idx q ?w = ?n" using next_idx_mod [OF D(1), of "length ps"] by (simp add: D(2))
  have inv1: "spsc_inv ?s1" using call_inv(1) [OF inv0] by simp
  show ?thesis
  proof (cases "?n = readIdxCache q")
    case False
    then have inv2: "spsc_inv (?s0\<lparr>wpc := WConstruct ?w ?n v\<rparr>)"
      using writer_stepD [OF inv1] n by (simp add: wrote_def Let_def)
    from writer_result [OF this, of ?w ?n v 1] obtain q' where
      "run_writer 3 q (WConstruct ?w ?n v) = Some (q', True)" "spsc_wf q'" "q_capacity q' = q_capacity q"
      "spsc_items q' = spsc_items q @ [v]" "length (spsc_items q) < spsc_max q"
      by (auto simp: items numeral_3_eq_3 spsc_max_def)
    then show ?thesis using False n by (simp add: try_push_def numeral_fuel Let_def numeral_3_eq_3)
  next
    case True
    let ?q = "q\<lparr>readIdxCache := readIdx q\<rparr>"
    have inv2: "spsc_inv (?s0\<lparr>wpc := WReload False ?w ?n v\<rparr>)"
      using writer_stepD [OF inv1] n True by (simp add: wrote_def Let_def)
    show ?thesis
    proof (cases "?n = readIdx q")
      case T: True
      then have inv3: "spsc_inv (?s0\<lparr>sring := ?q, wpc := WRet False\<rparr>)"
        using writer_stepD [OF inv2] by (simp add: wrote_def Let_def)
      have "length ps + 1 = length rs + q_capacity q"
        using T D(3,4,5) mod_interval_inj [of "length ps + 1" "q_capacity q" "length rs + q_capacity q" "length rs + 1"] by simp
      then have "\<not> length (spsc_items q) < spsc_max q" by (simp add: items spsc_max_def)
      then show ?thesis
        using spsc_wf_after [OF inv3] True T n by (simp add: try_push_def numeral_fuel Let_def items)
    next
      case F: False
      then have inv3: "spsc_inv (?s0\<lparr>sring := ?q, wpc := WConstruct ?w ?n v\<rparr>)"
        using writer_stepD [OF inv2] by (simp add: wrote_def Let_def)
      from writer_result [OF this, of ?w ?n v 0] obtain q' where
        "run_writer 2 ?q (WConstruct ?w ?n v) = Some (q', True)" "spsc_wf q'" "q_capacity q' = q_capacity q"
        "spsc_items q' = spsc_items q @ [v]" "length (spsc_items q) < spsc_max q"
        by (auto simp: items numeral_2_eq_2 spsc_max_def)
      then show ?thesis using True F n by (simp add: try_push_def numeral_fuel Let_def numeral_2_eq_2)
    qed
  qed
qed

text \<open>Removing the element that \<^verbatim>\<open>front\<close> has shown.\<close>

lemma pop_result:
  assumes inv: "spsc_inv s" and pc: "rpc s = RFrontRet (Some v)" and wr: "wpc s = WIdle"
  shows "\<exists>q. run_reader 3 (sring s) (RPop v) = Some (q, RPopRet) \<and> spsc_wf q \<and> q_capacity q = q_capacity (sring s) \<and>
    spsc_items q = drop (Suc (length (removed s))) (published s) \<and> drop (length (removed s)) (published s) = v # spsc_items q"
proof -
  have inv1: "spsc_inv (s\<lparr>rpc := RPop v\<rparr>)" (is "spsc_inv ?s1") using call_inv(3) [OF inv pc] .
  let ?i = "readIdx (sring s)"
  have st1: "reader_step (sring s) (RPop v) = Some (sring s, RPopDestroy ?i v)"
    using reader_step_ok [OF inv1] by (auto simp: assert_def split: if_splits)
  have inv2: "spsc_inv (s\<lparr>rpc := RPopDestroy ?i v\<rparr>)" (is "spsc_inv ?s2")
    using reader_stepD [OF inv1] st1 by (simp add: did_read_def)
  obtain q2 where st2: "reader_step (sring s) (RPopDestroy ?i v) = Some (q2, RPopStore ?i v)" "q_capacity q2 = q_capacity (sring s)"
    using reader_step_ok [OF inv2] by (auto simp: destroy_at_def split: Option.bind_splits)
  have inv3: "spsc_inv (s\<lparr>sring := q2, rpc := RPopStore ?i v\<rparr>)" (is "spsc_inv ?s3")
    using reader_stepD [OF inv2] st2 by (simp add: did_read_def)
  let ?q = "q2\<lparr>readIdx := next_idx q2 ?i\<rparr>"
  have inv4: "spsc_inv (s\<lparr>sring := ?q, rpc := RPopRet, removed := removed s @ [v]\<rparr>)"
    using reader_stepD [OF inv3] by (simp add: did_read_def)
  have "length (removed s) < length (published s)" "v = published s ! length (removed s)"
    using spsc_invD(10) [OF inv] pc by (auto dest!: cache_ok_mono(6))
  then have "drop (length (removed s)) (published s) = v # drop (Suc (length (removed s))) (published s)"
    by (simp add: Cons_nth_drop_Suc)
  moreover have "run_reader 3 (sring s) (RPop v) = Some (?q, RPopRet)"
    using st1 st2(1) by (simp add: numeral_fuel del: reader_step.simps(4,5))
  ultimately show ?thesis using spsc_wf_after [OF inv4] wr st2(2) by simp
qed

lemma front_read:
  assumes inv: "spsc_inv s" and pc: "rpc s = RFrontRead i"
  shows "\<exists>v. reader_step (sring s) (RFrontRead i) = Some (sring s, RFrontRet (Some v)) \<and> spsc_inv (s\<lparr>rpc := RFrontRet (Some v)\<rparr>)"
proof -
  obtain v where "reader_step (sring s) (RFrontRead i) = Some (sring s, RFrontRet (Some v))"
    using reader_step_ok [OF inv] pc by (auto split: Option.bind_splits)
  then show ?thesis using reader_stepD [OF inv] pc by (auto simp: did_read_def)
qed

lemma front_pop_alone:
  assumes "spsc_wf q"
  shows "\<exists>q'. front_pop q = Some (case spsc_items q of [] \<Rightarrow> None | x # _ \<Rightarrow> Some x, q') \<and> spsc_wf q' \<and>
    q_capacity q' = q_capacity q \<and> spsc_items q' = tl (spsc_items q)"
proof -
  obtain ps rs where inv0: "spsc_inv \<lparr>sring = q, wpc = WIdle, rpc = RIdle, published = ps, removed = rs\<rparr>" (is "spsc_inv ?s0")
    using assms by (auto simp: spsc_wf_def)
  have items: "spsc_items q = drop (length rs) ps" using spsc_wf_after(2) [OF inv0] by simp
  note D = spsc_invD [OF inv0, simplified]
  have inv1: "spsc_inv (?s0\<lparr>rpc := RFront\<rparr>)" using call_inv(2) [OF inv0] by simp
  let ?i = "readIdx q"
  have removes: ?thesis if inv: "spsc_inv (?s0\<lparr>sring := q', rpc := RFrontRead ?i\<rparr>)" and cap: "q_capacity q' = q_capacity q"
      and run: "\<And>v. reader_step q' (RFrontRead ?i) = Some (q', RFrontRet (Some v)) \<Longrightarrow> run_reader 3 q RFront = Some (q', RFrontRet (Some v))"
    for q'
  proof -
    obtain v where v: "reader_step q' (RFrontRead ?i) = Some (q', RFrontRet (Some v))"
        "spsc_inv (?s0\<lparr>sring := q', rpc := RFrontRet (Some v)\<rparr>)"
      using front_read [OF inv] by auto
    from pop_result [OF v(2)] obtain q'' where "run_reader 3 q' (RPop v) = Some (q'', RPopRet)" "spsc_wf q''"
        "q_capacity q'' = q_capacity q'" "drop (length rs) ps = v # spsc_items q''" by auto
    then show ?thesis using run [OF v(1)] cap by (simp add: front_pop_def items)
  qed
  show ?thesis
  proof (cases "?i = writeIdxCache q")
    case False
    show ?thesis
    proof (rule removes)
      show "spsc_inv (?s0\<lparr>sring := q, rpc := RFrontRead ?i\<rparr>)"
        using reader_stepD [OF inv1] False by (simp add: did_read_def)
      show "run_reader 3 q RFront = Some (q, RFrontRet (Some v))" if "reader_step q (RFrontRead ?i) = Some (q, RFrontRet (Some v))" for v
        using False that by (simp add: numeral_fuel del: reader_step.simps(3))
    qed simp
  next
    case True
    let ?q = "q\<lparr>writeIdxCache := writeIdx q\<rparr>"
    have inv2: "spsc_inv (?s0\<lparr>rpc := RFrontReload ?i\<rparr>)"
      using reader_stepD [OF inv1] True by (simp add: did_read_def)
    show ?thesis
    proof (cases "writeIdx q = ?i")
      case F: False
      show ?thesis
      proof (rule removes)
        show "spsc_inv (?s0\<lparr>sring := ?q, rpc := RFrontRead ?i\<rparr>)"
          using reader_stepD [OF inv2] F by (simp add: did_read_def Let_def)
        show "run_reader 3 q RFront = Some (?q, RFrontRet (Some v))" if "reader_step ?q (RFrontRead ?i) = Some (?q, RFrontRet (Some v))" for v
          using True F that by (simp add: numeral_fuel Let_def del: reader_step.simps(3))
      qed simp
    next
      case T: True
      then have inv3: "spsc_inv (?s0\<lparr>sring := ?q, rpc := RFrontRet None\<rparr>)"
        using reader_stepD [OF inv2] by (simp add: did_read_def Let_def)
      have "length ps = length rs"
        using T D(2-5) mod_interval_inj [of "length ps" "q_capacity q" "length rs" "length rs"] by simp
      then show ?thesis
        using spsc_wf_after [OF inv3] True T by (simp add: front_pop_def numeral_fuel Let_def items)
    qed
  qed
qed

interpretation sq: bounded_fifo try_push front_pop spsc_items spsc_max spsc_wf
proof unfold_locales
  fix q :: "'a spsc" and x
  assume wf: "spsc_wf q"
  then obtain ps rs where inv0: "spsc_inv \<lparr>sring = q, wpc = WIdle, rpc = RIdle, published = ps, removed = rs\<rparr>" (is "spsc_inv ?s0")
    by (auto simp: spsc_wf_def)
  show "length (spsc_items q) \<le> spsc_max q"
    using spsc_wf_after(2) [OF inv0] spsc_invD(4,5) [OF inv0] by (simp add: spsc_max_def)
qed (use try_push_alone front_pop_alone in \<open>force simp: spsc_max_def\<close>)+

lemma SPSCRing_new_wf:
  assumes "padding \<le> 64" "capacity \<noteq> - 1"
  shows "spsc_wf (SPSCRing_new padding capacity)" "spsc_items (SPSCRing_new padding capacity) = []"
    "spsc_max (SPSCRing_new padding capacity) = min (max 1 (unat capacity)) (2 ^ 64 - 2 - 2 * unat padding)"
  using spsc_wf_after [OF spsc_start_inv [OF assms]] spsc_capacity_value(1) [OF assms]
  by (auto simp: spsc_start_def spsc_max_def SPSCRing_new_def Let_def min_def)

lemma spsc_reachable_inv:
  assumes "spsc_reachable q s" "q = SPSCRing_new padding capacity" "padding \<le> 64" "capacity \<noteq> - 1"
  shows "spsc_inv s \<and> q_capacity (sring s) = q_capacity q"
  using assms(1)
proof induction
  case start
  then show ?case using spsc_start_inv [OF assms(3,4)] assms(2) by (simp add: spsc_start_def)
next
  case (step s s')
  have "q_capacity (sring s') = q_capacity (sring s)"
    using step.hyps(2)
  proof cases
    case (run_write r c)
    then show ?thesis by (cases "wpc s") (auto simp: construct_at_def Let_def split: Option.bind_splits)
  next
    case (run_read r c)
    then show ?thesis by (cases "rpc s") (auto simp: destroy_at_def Let_def split: Option.bind_splits)
  qed auto
  then show ?case using step spsc_step_inv by auto
qed

lemma SPSCRing_destroy_empties:
  "spsc_wf q \<Longrightarrow> length (spsc_items q) < n \<Longrightarrow>
    \<exists>q'. SPSCRing_destroy n q = Some q' \<and> spsc_wf q' \<and> spsc_items q' = []"
proof (induction n arbitrary: q)
  case (Suc n)
  obtain q1 where q1: "front_pop q = Some (case spsc_items q of [] \<Rightarrow> None | x # _ \<Rightarrow> Some x, q1)"
      "spsc_wf q1" "spsc_items q1 = tl (spsc_items q)"
    using front_pop_alone [OF Suc.prems(1)] by blast
  then show ?case
    using Suc.IH [OF q1(2)] Suc.prems(2) by (cases "spsc_items q") auto
qed simp

lemma spsc_wf_dead:
  assumes "spsc_wf q" "spsc_items q = []" "i < q_capacity q"
  shows "q_slots q ! (i + q_padding q) = None"
proof -
  obtain ps rs where inv: "spsc_inv \<lparr>sring = q, wpc = WIdle, rpc = RIdle, published = ps, removed = rs\<rparr>"
    using assms(1) by (auto simp: spsc_wf_def)
  note D = spsc_invD [OF inv, simplified]
  have W: "length ps = length rs" using spsc_wf_after(2) [OF inv] assms(2) D(4) by simp
  let ?c = "q_capacity q" and ?R = "length rs"
  obtain t where t: "?R \<le> t" "t < ?R + ?c" "t mod ?c = i"
  proof -
    define d where "d = (i + ?c - ?R mod ?c) mod ?c"
    have "?R mod ?c < ?c" using assms(3) by simp
    then have "(?R + d) mod ?c = i" 
    proof -
      have "(?R + d) mod ?c = (?R mod ?c + (i + ?c - ?R mod ?c)) mod ?c" by (simp add: d_def mod_simps)
      also have "\<dots> = (i + ?c) mod ?c" using \<open>?R mod ?c < ?c\<close> by simp
      finally show ?thesis using assms(3) by simp
    qed
    moreover have "d < ?c" using assms(3) by (simp add: d_def)
    ultimately show ?thesis using that [of "?R + d"] by simp
  qed
  then have "q_at q t = None" using D(11) [OF t(1,2)] W by (simp add: expected_def)
  then show ?thesis using t(3) by (simp add: q_at_def)
qed

section \<open>Properties\<close>

text \<open>C7. One producer and one consumer in any interleaving: no step of either thread leaves the slots,
  constructs over a live element, reads or destroys a dead one or fails the assertion of
  \<^verbatim>\<open>pop\<close>; the elements removed are, in order, the first elements published; an element shown
  by \<^verbatim>\<open>front\<close> is the one that the next \<^verbatim>\<open>pop\<close> removes; \<^verbatim>\<open>size\<close> is their
  difference and never exceeds the capacity.\<close>

theorem spsc_safety:
  fixes s :: "'a spsc_sys"
  assumes "padding \<le> 64" "capacity \<noteq> - 1" "spsc_reachable (SPSCRing_new padding capacity) s"
  shows "(wpc s = WIdle \<or> (\<exists>b. wpc s = WRet b) \<or> writer_step (sring s) (wpc s) \<noteq> None) \<and>
    (rpc s \<in> {RIdle, RPopRet} \<or> (\<exists>x. rpc s = RFrontRet x) \<or> reader_step (sring s) (rpc s) \<noteq> None) \<and>
    removed s = take (length (removed s)) (published s) \<and>
    (\<forall>v. rpc s = RFrontRet (Some v) \<longrightarrow> length (removed s) < length (published s) \<and> v = published s ! length (removed s)) \<and>
    spsc_size (sring s) = int (length (published s)) - int (length (removed s)) \<and>
    spsc_size (sring s) \<le> int (spsc_max (SPSCRing_new padding capacity :: 'a spsc))"
    (is "_ \<and> _ \<and> _ \<and> _ \<and> _ \<and> _ \<le> int (spsc_max ?q)")
proof -
  have inv: "spsc_inv s" and cap: "q_capacity (sring s) = q_capacity ?q"
    using spsc_reachable_inv [OF assms(3) refl assms(1,2)] by auto
  note D = spsc_invD [OF inv]
  have "wpc s = WIdle \<or> (\<exists>b. wpc s = WRet b) \<or> writer_step (sring s) (wpc s) \<noteq> None"
    using writer_step_ok [OF inv] by (cases "wpc s") auto
  moreover have "rpc s \<in> {RIdle, RPopRet} \<or> (\<exists>x. rpc s = RFrontRet x) \<or> reader_step (sring s) (rpc s) \<noteq> None"
    using reader_step_ok [OF inv] by (cases "rpc s") auto
  moreover have "length (removed s) < length (published s) \<and> v = published s ! length (removed s)"
    if "rpc s = RFrontRet (Some v)" for v
    using D(10) that by (auto dest!: cache_ok_mono(6))
  moreover have "spsc_size (sring s) \<le> int (spsc_max ?q)"
    using spsc_size_inv [OF inv] D(5) cap by (simp add: spsc_max_def)
  ultimately show ?thesis using spsc_size_inv [OF inv] D(6) by metis
qed

theorem spsc_safety_witness:
  "\<exists>s. spsc_reachable (SPSCRing_new 64 1) s \<and> rpc s = RFrontRet (Some True) \<and> published s = [True] \<and>
     spsc_size (sring s) = 1"
proof -
  let ?q = "SPSCRing_new 64 1 :: bool spsc"
  have q: "?q = \<lparr>q_capacity = 2, q_padding = 64, q_slots = replicate 130 None, writeIdx = 0, readIdxCache = 0,
      readIdx = 0, writeIdxCache = 0\<rparr>" by (simp add: SPSCRing_new_def spsc_capacity_def Let_def)
  let ?ss = "(replicate 130 None)[64 := Some True]"
  have r: "spsc_reachable ?q \<lparr>sring = ?q, wpc = WCall False True, rpc = RIdle, published = [], removed = []\<rparr>"
    using spsc_reachable.step [OF spsc_reachable.start spsc_step.call_push [where wait = False and v = True]] by simp
  have r: "spsc_reachable ?q \<lparr>sring = ?q, wpc = WConstruct 0 1 True, rpc = RIdle, published = [], removed = []\<rparr>"
    using spsc_reachable.step [OF r spsc_step.run_write] by (simp add: q next_idx_def Let_def)
  have r: "spsc_reachable ?q \<lparr>sring = ?q\<lparr>q_slots := ?ss\<rparr>, wpc = WStore 0 1 True, rpc = RIdle, published = [], removed = []\<rparr>"
    using spsc_reachable.step [OF r spsc_step.run_write] by (simp add: q construct_at_def)
  have r: "spsc_reachable ?q \<lparr>sring = ?q\<lparr>q_slots := ?ss, writeIdx := 1\<rparr>, wpc = WRet True, rpc = RIdle, published = [True], removed = []\<rparr>"
    using spsc_reachable.step [OF r spsc_step.run_write] by (simp add: q)
  have r: "spsc_reachable ?q \<lparr>sring = ?q\<lparr>q_slots := ?ss, writeIdx := 1\<rparr>, wpc = WRet True, rpc = RFront, published = [True], removed = []\<rparr>"
    using spsc_reachable.step [OF r spsc_step.call_front] by (simp add: q)
  have r: "spsc_reachable ?q \<lparr>sring = ?q\<lparr>q_slots := ?ss, writeIdx := 1\<rparr>, wpc = WRet True, rpc = RFrontReload 0, published = [True], removed = []\<rparr>"
    using spsc_reachable.step [OF r spsc_step.run_read] by (simp add: q)
  have r: "spsc_reachable ?q \<lparr>sring = ?q\<lparr>q_slots := ?ss, writeIdx := 1, writeIdxCache := 1\<rparr>, wpc = WRet True, rpc = RFrontRead 0, published = [True], removed = []\<rparr>"
    using spsc_reachable.step [OF r spsc_step.run_read] by (simp add: q)
  have "spsc_reachable ?q \<lparr>sring = ?q\<lparr>q_slots := ?ss, writeIdx := 1, writeIdxCache := 1\<rparr>, wpc = WRet True, rpc = RFrontRet (Some True), published = [True], removed = []\<rparr>"
    (is "spsc_reachable ?q ?s")
    using spsc_reachable.step [OF r spsc_step.run_read] by (simp add: q read_at_def)
  then show ?thesis using spsc_safety [of 64 1 ?s] by (intro exI [of _ ?s]) simp
qed

text \<open>C33. The capacity the constructor settles on, in \<^verbatim>\<open>size_t\<close> arithmetic: at least one element fits,
  the capacity asked for is honoured unless it leaves no room for the padding, and the number of slots
  allocated does not wrap. The one exception is \<^verbatim>\<open>SIZE_MAX\<close>: it wraps to zero before the clamp
  that was meant for it.\<close>

theorem spsc_capacity_bounds:
  fixes q :: "'a spsc"
  assumes "padding \<le> 64" "q = SPSCRing_new padding capacity"
  shows "(capacity = - 1 \<longrightarrow> q_capacity q = 0) \<and>
    (capacity \<noteq> - 1 \<longrightarrow> spsc_max q = min (max 1 (unat capacity)) (2 ^ 64 - 2 - 2 * unat padding) \<and>
      length (q_slots q) = q_capacity q + 2 * unat padding \<and> 2 \<le> q_capacity q)"
proof (cases "capacity = - 1")
  case True
  then show ?thesis by (simp add: assms(2) SPSCRing_new_def spsc_capacity_def Let_def)
next
  case False
  have "q_padding q = unat padding" by (simp add: assms(2) SPSCRing_new_def Let_def)
  moreover have "spsc_shape q" "spsc_max q = min (max 1 (unat capacity)) (2 ^ 64 - 2 - 2 * unat padding)"
    using spsc_invD(1) [OF spsc_start_inv [OF assms(1) False]] unfolding assms(2)
    by (simp_all only: spsc_start_def spsc_sys.simps SPSCRing_new_wf(3) [OF assms(1) False])
  ultimately show ?thesis using False by (simp add: spsc_shape_def)
qed

theorem spsc_capacity_bounds_witness:
  "q_capacity (SPSCRing_new 8 (- 1) :: nat spsc) = 0 \<and> spsc_max (SPSCRing_new 8 0 :: nat spsc) = 1 \<and>
   length (q_slots (SPSCRing_new 8 5 :: nat spsc)) = 22"
proof -
  have "q_capacity (SPSCRing_new 8 5 :: nat spsc) = 6" by (simp add: SPSCRing_new_def spsc_capacity_def Let_def)
  then show ?thesis
    using spsc_capacity_bounds [of 8 "SPSCRing_new 8 (- 1) :: nat spsc" "- 1"]
      spsc_capacity_bounds [of 8 "SPSCRing_new 8 0 :: nat spsc" 0] spsc_capacity_bounds [of 8 "SPSCRing_new 8 5 :: nat spsc" 5] by simp
qed

text \<open>C8. With no concurrent access, \<^verbatim>\<open>try_push\<close> and \<^verbatim>\<open>front\<close>/\<^verbatim>\<open>pop\<close> return within
  a fixed number of accesses and are the operations of a FIFO list of the capacity; the loop of the
  destructor then ends after one round per element and leaves no live element in the slots.\<close>

theorem spsc_is_fifo:
  fixes ops :: "'a qop list"
  assumes "padding \<le> 64" "capacity \<noteq> - 1"
  shows "\<exists>q' q''. queue_run try_push front_pop ops (SPSCRing_new padding capacity) =
      Some (fst (fifo_run (spsc_max (SPSCRing_new padding capacity :: 'a spsc)) ops []), q') \<and>
    spsc_items q' = snd (fifo_run (spsc_max (SPSCRing_new padding capacity :: 'a spsc)) ops []) \<and>
    SPSCRing_destroy (length (spsc_items q') + 1) q' = Some q'' \<and>
    (\<forall>i < q_capacity q''. q_slots q'' ! (i + q_padding q'') = None)"
proof -
  let ?q = "SPSCRing_new padding capacity :: 'a spsc"
  have "spsc_items ?q = []" by (rule SPSCRing_new_wf(2) [OF assms])
  then obtain q' where q': "queue_run try_push front_pop ops ?q = Some (fst (fifo_run (spsc_max ?q) ops []), q')"
      "spsc_wf q'" "spsc_items q' = snd (fifo_run (spsc_max ?q) ops [])"
    using sq.run_refines [OF SPSCRing_new_wf(1) [OF assms], of ops] by auto
  obtain q'' where "SPSCRing_destroy (length (spsc_items q') + 1) q' = Some q''" "spsc_wf q''" "spsc_items q'' = []"
    using SPSCRing_destroy_empties [OF q'(2)] by (metis less_add_one)
  with q' show ?thesis using spsc_wf_dead by blast
qed

theorem spsc_is_fifo_witness:
  "\<exists>q'. queue_run try_push front_pop [Push CHR ''a'', Push CHR ''b'', Pop, Pop, Push CHR ''c''] (SPSCRing_new 64 1) =
     Some ([Pushed True, Pushed False, Popped (Some CHR ''a''), Popped None, Pushed True], q') \<and> spsc_items q' = ''c''"
proof -
  have m: "spsc_max (SPSCRing_new 64 1 :: char spsc) = 1"
    by (simp add: spsc_max_def SPSCRing_new_def spsc_capacity_def Let_def)
  show ?thesis
    using spsc_is_fifo [of 64 1 "[Push CHR ''a'', Push CHR ''b'', Pop, Pop, Push CHR ''c'']"] by (auto simp: m)
qed

end
