(* ===== verification/Lru_Table.thy ===== *)
theory Lru_Table
  imports Util_Prelude
begin

text \<open>
  The data structures below \<^verbatim>\<open>LRUCache\<close> of \<^verbatim>\<open>src/cpp-util/lrucache.h\<close>: the entries in a
  heap, the circular doubly linked lists threaded through \<^verbatim>\<open>next\<close> and \<^verbatim>\<open>prev\<close>, and the
  class \<^verbatim>\<open>HashTable\<close> with its chains threaded through \<^verbatim>\<open>next_hash\<close>.

  The heap is a partial map from addresses to entries, so that following a pointer to an entry that
  was freed aborts. The pointers keep the code's level of detail; lemmas then describe each
  operation by the lists of addresses that the pointers form.
\<close>

section \<open>Entries and the heap\<close>

record 'v LRUEntry =
  e_value :: 'v
  next_hash :: "nat option"
  e_next :: nat
  e_prev :: nat
  key_data :: bytes
  refs :: nat
  e_hash :: u32
  in_cache :: bool

type_synonym 'v heap = "nat \<Rightarrow> 'v LRUEntry option"

definition modify :: "nat \<Rightarrow> ('v LRUEntry \<Rightarrow> 'v LRUEntry) \<Rightarrow> 'v heap \<Rightarrow> 'v heap option" where
  "modify a f h = do { e \<leftarrow> h a; Some (h(a \<mapsto> f e)) }"

definition entry_key :: "nat \<Rightarrow> 'v heap \<Rightarrow> bytes option" where
  "entry_key a h = do { e \<leftarrow> h a; assert (e_next e \<noteq> a); Some (key_data e) }"

section \<open>Doubly linked lists\<close>

definition LRU_Remove :: "nat \<Rightarrow> 'v heap \<Rightarrow> 'v heap option" where
  "LRU_Remove a h = do {
     e \<leftarrow> h a;
     h \<leftarrow> modify (e_next e) (e_prev_update (\<lambda>_. e_prev e)) h;
     e \<leftarrow> h a;
     modify (e_prev e) (e_next_update (\<lambda>_. e_next e)) h }"

definition LRU_Append :: "nat \<Rightarrow> nat \<Rightarrow> 'v heap \<Rightarrow> 'v heap option" where
  "LRU_Append lst a h = do {
     h \<leftarrow> modify a (e_next_update (\<lambda>_. lst)) h;
     l \<leftarrow> h lst;
     h \<leftarrow> modify a (e_prev_update (\<lambda>_. e_prev l)) h;
     e \<leftarrow> h a;
     h \<leftarrow> modify (e_prev e) (e_next_update (\<lambda>_. a)) h;
     e \<leftarrow> h a;
     modify (e_next e) (e_prev_update (\<lambda>_. a)) h }"

section \<open>The hash table\<close>

record HashTable =
  t_length :: nat
  t_elems :: nat
  t_list :: "nat option list"

text \<open>What \<^verbatim>\<open>LRUEntry **\<close> points to: a bucket of the table or the \<^verbatim>\<open>next_hash\<close> of an entry.\<close>

datatype loc = Bucket nat | NextHash nat

fun load_loc :: "loc \<Rightarrow> 'v heap \<Rightarrow> HashTable \<Rightarrow> nat option option" where
  "load_loc (Bucket i) h t = rd (t_list t) i"
| "load_loc (NextHash a) h t = do { e \<leftarrow> h a; Some (next_hash e) }"

fun store_loc :: "loc \<Rightarrow> nat option \<Rightarrow> 'v heap \<Rightarrow> HashTable \<Rightarrow> ('v heap \<times> HashTable) option" where
  "store_loc (Bucket i) p h t = do { l \<leftarrow> wr (t_list t) i p; Some (h, t\<lparr>t_list := l\<rparr>) }"
| "store_loc (NextHash a) p h t = do { h \<leftarrow> modify a (next_hash_update (\<lambda>_. p)) h; Some (h, t) }"

definition bucket_of :: "u32 \<Rightarrow> nat \<Rightarrow> nat" where
  "bucket_of hash n = unat (hash AND of_nat (n - 1))"

text \<open>The loop of \<^verbatim>\<open>FindPointer\<close>; a cyclic chain would make it undefined.\<close>

partial_function (option) find_from :: "bytes \<Rightarrow> u32 \<Rightarrow> 'v heap \<Rightarrow> HashTable \<Rightarrow> loc \<Rightarrow> loc option" where
  "find_from key hash h t ptr = do {
     p \<leftarrow> load_loc ptr h t;
     case p of
       None \<Rightarrow> Some ptr
     | Some a \<Rightarrow> do {
         e \<leftarrow> h a;
         found \<leftarrow> (if e_hash e \<noteq> hash then Some False else do { k \<leftarrow> entry_key a h; Some (key = k) });
         if found then Some ptr else find_from key hash h t (NextHash a) } }"

definition FindPointer :: "bytes \<Rightarrow> u32 \<Rightarrow> 'v heap \<Rightarrow> HashTable \<Rightarrow> loc option" where
  "FindPointer key hash h t = find_from key hash h t (Bucket (bucket_of hash (t_length t)))"

definition HT_Lookup :: "bytes \<Rightarrow> u32 \<Rightarrow> 'v heap \<Rightarrow> HashTable \<Rightarrow> nat option option" where
  "HT_Lookup key hash h t = do { ptr \<leftarrow> FindPointer key hash h t; load_loc ptr h t }"

text \<open>The loops of \<^verbatim>\<open>Resize\<close>: the length, one bucket, all buckets.\<close>

function new_length :: "nat \<Rightarrow> nat \<Rightarrow> nat" where
  "new_length n elems = (if 0 < n \<and> n < elems then new_length (2 * n) elems else n)"
  by pat_completeness auto
termination by (relation "measure (\<lambda>(n, elems). elems - n)") auto

declare new_length.simps [simp del]

partial_function (option) migrate ::
  "nat \<Rightarrow> nat option \<Rightarrow> 'v heap \<Rightarrow> nat option list \<Rightarrow> nat \<Rightarrow> ('v heap \<times> nat option list \<times> nat) option" where
  "migrate n p h l count = (case p of
       None \<Rightarrow> Some (h, l, count)
     | Some a \<Rightarrow> do {
         e \<leftarrow> h a;
         q \<leftarrow> rd l (bucket_of (e_hash e) n);
         h \<leftarrow> modify a (next_hash_update (\<lambda>_. q)) h;
         l \<leftarrow> wr l (bucket_of (e_hash e) n) (Some a);
         migrate n (next_hash e) h l (count + 1) })"

primrec migrate_all ::
  "nat \<Rightarrow> nat option list \<Rightarrow> 'v heap \<Rightarrow> nat option list \<Rightarrow> nat \<Rightarrow> ('v heap \<times> nat option list \<times> nat) option" where
  "migrate_all n [] h l count = Some (h, l, count)"
| "migrate_all n (p # ps) h l count = do {
     (h, l, count) \<leftarrow> migrate n p h l count;
     migrate_all n ps h l count }"

definition Resize :: "'v heap \<Rightarrow> HashTable \<Rightarrow> ('v heap \<times> HashTable) option" where
  "Resize h t = do {
     let n = new_length 4 (t_elems t);
     (h, l, count) \<leftarrow> migrate_all n (t_list t) h (replicate n None) 0;
     assert (t_elems t = count);
     Some (h, t\<lparr>t_list := l, t_length := n\<rparr>) }"

definition HashTable_new :: "'v heap \<Rightarrow> ('v heap \<times> HashTable) option" where
  "HashTable_new h = Resize h \<lparr>t_length = 0, t_elems = 0, t_list = []\<rparr>"

definition HT_Insert :: "nat \<Rightarrow> 'v heap \<Rightarrow> HashTable \<Rightarrow> (nat option \<times> 'v heap \<times> HashTable) option" where
  "HT_Insert a h t = do {
     e \<leftarrow> h a;
     k \<leftarrow> entry_key a h;
     ptr \<leftarrow> FindPointer k (e_hash e) h t;
     old \<leftarrow> load_loc ptr h t;
     nh \<leftarrow> (case old of None \<Rightarrow> Some None | Some b \<Rightarrow> do { eb \<leftarrow> h b; Some (next_hash eb) });
     h \<leftarrow> modify a (next_hash_update (\<lambda>_. nh)) h;
     (h, t) \<leftarrow> store_loc ptr (Some a) h t;
     if old = None then do {
       let t = t\<lparr>t_elems := t_elems t + 1\<rparr>;
       (h, t) \<leftarrow> (if t_length t < t_elems t then Resize h t else Some (h, t));
       Some (old, h, t) }
     else Some (old, h, t) }"

definition HT_Remove :: "bytes \<Rightarrow> u32 \<Rightarrow> 'v heap \<Rightarrow> HashTable \<Rightarrow> (nat option \<times> 'v heap \<times> HashTable) option" where
  "HT_Remove key hash h t = do {
     ptr \<leftarrow> FindPointer key hash h t;
     result \<leftarrow> load_loc ptr h t;
     case result of
       None \<Rightarrow> Some (None, h, t)
     | Some a \<Rightarrow> do {
         e \<leftarrow> h a;
         (h, t) \<leftarrow> store_loc ptr (next_hash e) h t;
         Some (Some a, h, t\<lparr>t_elems := t_elems t - 1\<rparr>) } }"

section \<open>Linked lists: what the pointers form\<close>

text \<open>\<open>seg h a xs b\<close>: from \<open>a\<close> the nodes \<open>xs\<close> lead to \<open>b\<close>, with the \<^verbatim>\<open>prev\<close> pointers leading
  back. A circular list with sentinel \<open>a\<close> is \<open>seg h a xs a\<close>.\<close>

definition nx :: "'v heap \<Rightarrow> nat \<Rightarrow> nat option" where "nx h a = map_option e_next (h a)"
definition pv :: "'v heap \<Rightarrow> nat \<Rightarrow> nat option" where "pv h a = map_option e_prev (h a)"
definition nh :: "'v heap \<Rightarrow> nat \<Rightarrow> nat option option" where "nh h a = map_option next_hash (h a)"

fun seg :: "'v heap \<Rightarrow> nat \<Rightarrow> nat list \<Rightarrow> nat \<Rightarrow> bool" where
  "seg h a [] b \<longleftrightarrow> nx h a = Some b \<and> pv h b = Some a"
| "seg h a (x # xs) b \<longleftrightarrow> nx h a = Some x \<and> pv h x = Some a \<and> seg h x xs b"

lemma seg_append [simp]: "seg h a (xs @ x # ys) b \<longleftrightarrow> seg h a xs x \<and> seg h x ys b"
  by (induction xs arbitrary: a) auto

lemma seg_ends: "seg h a xs b \<Longrightarrow> nx h a = Some (hd (xs @ [b]))" "seg h a xs b \<Longrightarrow> pv h b = Some (last (a # xs))"
  by (induction xs arbitrary: a) auto

lemma seg_cong:
  "(\<And>x. x \<in> set (a # xs) \<Longrightarrow> nx h' x = nx h x) \<Longrightarrow> (\<And>x. x \<in> set (xs @ [b]) \<Longrightarrow> pv h' x = pv h x) \<Longrightarrow>
    seg h' a xs b = seg h a xs b"
  by (induction xs arbitrary: a) auto

lemma seg_join:
  assumes "seg h a xs e" "seg h e ys b" "distinct (a # xs)" "distinct (ys @ [b])" "set xs \<inter> set (ys @ [b]) = {}"
    "\<And>x. nx h' x = (if x = last (a # xs) then Some (hd (ys @ [b])) else nx h x)"
    "\<And>x. pv h' x = (if x = hd (ys @ [b]) then Some (last (a # xs)) else pv h x)" "a \<notin> set ys" "e \<notin> set ys" "e \<noteq> b"
  shows "seg h' a (xs @ ys) b"
  using assms
proof (induction xs arbitrary: a)
  case Nil
  show ?case
  proof (cases ys)
    case (Cons y ys')
    then have "seg h' y ys' b = seg h y ys' b" using Nil.prems by (intro seg_cong) auto
    then show ?thesis using Nil.prems Cons by auto
  qed (use Nil.prems in auto)
next
  case (Cons x xs)
  have "hd (ys @ [b]) \<in> set (ys @ [b])" by (cases ys) auto
  then have "x \<noteq> hd (ys @ [b])" "a \<noteq> last (x # xs)" using Cons.prems(3,5) last_in_set [of "x # xs"] by auto
  moreover have "seg h' x (xs @ ys) b"
    using Cons.prems by (intro Cons.IH) auto
  ultimately show ?case using Cons.prems by auto
qed

lemma modify_simps [simp]:
  "h a = Some e \<Longrightarrow> modify a f h = Some (h(a \<mapsto> f e))" "h a = None \<Longrightarrow> modify a f h = None"
  by (simp_all add: modify_def)

text \<open>What a list operation leaves alone: every field but \<^verbatim>\<open>next\<close> and \<^verbatim>\<open>prev\<close>.\<close>

definition relinked :: "'v heap \<Rightarrow> 'v heap \<Rightarrow> bool" where
  "relinked h h' \<longleftrightarrow> (\<forall>a. map_option (\<lambda>e. e\<lparr>e_next := 0, e_prev := 0\<rparr>) (h' a) = map_option (\<lambda>e. e\<lparr>e_next := 0, e_prev := 0\<rparr>) (h a))"

lemma relinked_refl [simp, intro]: "relinked h h" by (simp add: relinked_def)

lemma relinked_trans [trans]: "relinked h h' \<Longrightarrow> relinked h' h'' \<Longrightarrow> relinked h h''" by (simp add: relinked_def)

lemma relinked_upd [intro]:
  "h a = Some e \<Longrightarrow> relinked h (h(a \<mapsto> e_next_update f e))" "h a = Some e \<Longrightarrow> relinked h (h(a \<mapsto> e_prev_update f e))"
  by (auto simp: relinked_def)

lemma nx_pv_upd [simp]:
  "nx (h(a \<mapsto> e_next_update f e)) x = (if x = a then Some (f (e_next e)) else nx h x)"
  "pv (h(a \<mapsto> e_prev_update f e)) x = (if x = a then Some (f (e_prev e)) else pv h x)"
  "h a = Some e \<Longrightarrow> nx (h(a \<mapsto> e_prev_update f e)) x = nx h x"
  "h a = Some e \<Longrightarrow> pv (h(a \<mapsto> e_next_update f e)) x = pv h x"
  by (auto simp: nx_def pv_def)

lemma nx_Some: "nx h a = Some b \<longleftrightarrow> (\<exists>e. h a = Some e \<and> e_next e = b)"
  by (auto simp: nx_def)

lemma pv_Some: "pv h a = Some b \<longleftrightarrow> (\<exists>e. h a = Some e \<and> e_prev e = b)"
  by (auto simp: pv_def)

lemma LRU_Remove_ok:
  assumes "nx h a = Some n" "pv h a = Some p" "n \<noteq> a" "p \<noteq> a" "h n \<noteq> None" "h p \<noteq> None"
  shows "\<exists>h'. LRU_Remove a h = Some h' \<and> relinked h h' \<and>
    (\<forall>x. nx h' x = (if x = p then Some n else nx h x)) \<and> (\<forall>x. pv h' x = (if x = n then Some p else pv h x))"
proof -
  obtain e where e: "h a = Some e" "e_next e = n" "e_prev e = p" using assms(1,2) by (auto simp: nx_Some pv_Some)
  obtain en where en: "h n = Some en" using assms(5) by auto
  define h1 where "h1 = h(n \<mapsto> e_prev_update (\<lambda>_. p) en)"
  have r1: "relinked h h1" using en by (auto simp: h1_def)
  obtain ep where ep: "h1 p = Some ep" using assms(6) by (cases "p = n") (auto simp: h1_def)
  have "LRU_Remove a h = Some (h1(p \<mapsto> e_next_update (\<lambda>_. n) ep))"
    using e en ep assms(3) by (simp add: LRU_Remove_def flip: h1_def) (simp add: h1_def)
  moreover have "relinked h (h1(p \<mapsto> e_next_update (\<lambda>_. n) ep))" using r1 ep by (blast intro: relinked_trans)
  ultimately show ?thesis using en ep by (auto simp: h1_def)
qed

lemma LRU_Append_ok:
  assumes "pv h l = Some p" "a \<noteq> l" "a \<noteq> p" "h a \<noteq> None" "h p \<noteq> None"
  shows "\<exists>h'. LRU_Append l a h = Some h' \<and> relinked h h' \<and>
    (\<forall>x. nx h' x = (if x = p then Some a else if x = a then Some l else nx h x)) \<and>
    (\<forall>x. pv h' x = (if x = l then Some a else if x = a then Some p else pv h x))"
proof -
  obtain e where e: "h a = Some e" using assms(4) by auto
  obtain el where el: "h l = Some el" "e_prev el = p" using assms(1) by (auto simp: pv_Some)
  define h1 where "h1 = h(a \<mapsto> e_next_update (\<lambda>_. l) e)"
  define e1 where "e1 = e_next_update (\<lambda>_. l) e"
  have h1: "h1 a = Some e1" "h1 l = Some el" using assms(2) el by (auto simp: h1_def e1_def)
  define h2 where "h2 = h1(a \<mapsto> e_prev_update (\<lambda>_. p) e1)"
  define e2 where "e2 = e_prev_update (\<lambda>_. p) e1"
  have h2: "h2 a = Some e2" "e_prev e2 = p" "e_next e2 = l" by (auto simp: h2_def e2_def e1_def)
  obtain ep where ep: "h2 p = Some ep" using assms(3,5) by (auto simp: h2_def h1_def)
  define h3 where "h3 = h2(p \<mapsto> e_next_update (\<lambda>_. a) ep)"
  have h3: "h3 a = Some e2" using assms(3) h2 by (simp add: h3_def)
  obtain el' where el': "h3 l = Some el'" using el assms(2) by (cases "l = p") (auto simp: h3_def h2_def h1_def)
  define h4 where "h4 = h3(l \<mapsto> e_prev_update (\<lambda>_. a) el')"
  have m: "modify a (e_next_update (\<lambda>_. l)) h = Some h1" "modify a (e_prev_update (\<lambda>_. p)) h1 = Some h2"
      "modify p (e_next_update (\<lambda>_. a)) h2 = Some h3" "modify l (e_prev_update (\<lambda>_. a)) h3 = Some h4"
    using e h1 ep el' by (simp_all add: h1_def h2_def h3_def h4_def)
  have "LRU_Append l a h = Some h4" using m h1 h2 h3 el by (simp add: LRU_Append_def)
  moreover have "relinked h h1" unfolding h1_def using e by (rule relinked_upd)
  moreover have "relinked h1 h2" unfolding h2_def using h1(1) by (rule relinked_upd)
  moreover have "relinked h2 h3" unfolding h3_def using ep by (rule relinked_upd)
  moreover have "relinked h3 h4" unfolding h4_def using el' by (rule relinked_upd)
  ultimately have "LRU_Append l a h = Some h4" "relinked h h4" by (meson relinked_trans)+
  moreover have "nx h1 x = (if x = a then Some l else nx h x)" "pv h1 x = pv h x" for x unfolding h1_def using e by simp_all
  moreover have "nx h2 x = nx h1 x" "pv h2 x = (if x = a then Some p else pv h1 x)" for x unfolding h2_def using h1 by simp_all
  moreover have "nx h3 x = (if x = p then Some a else nx h2 x)" "pv h3 x = pv h2 x" for x unfolding h3_def using ep by simp_all
  moreover have "nx h4 x = nx h3 x" "pv h4 x = (if x = l then Some a else pv h3 x)" for x unfolding h4_def using el' by simp_all
  ultimately show ?thesis by simp
qed

section \<open>Hash chains: what the pointers form\<close>

fun chain :: "'v heap \<Rightarrow> nat option \<Rightarrow> nat list \<Rightarrow> bool" where
  "chain h p [] \<longleftrightarrow> p = None"
| "chain h p (a # xs) \<longleftrightarrow> p = Some a \<and> (\<exists>q. nh h a = Some q \<and> chain h q xs)"

definition key_at :: "'v heap \<Rightarrow> nat \<Rightarrow> (bytes \<times> u32) option" where
  "key_at h a = map_option (\<lambda>e. (key_data e, e_hash e)) (h a)"

definition idx_at :: "'v heap \<Rightarrow> nat \<Rightarrow> nat \<Rightarrow> nat" where
  "idx_at h n a = bucket_of (snd (the (key_at h a))) n"

definition rehashed :: "'v heap \<Rightarrow> 'v heap \<Rightarrow> bool" where
  "rehashed h h' \<longleftrightarrow> (\<forall>a. map_option (\<lambda>e. e\<lparr>next_hash := None\<rparr>) (h' a) = map_option (\<lambda>e. e\<lparr>next_hash := None\<rparr>) (h a))"

lemma rehashed_refl [simp, intro]: "rehashed h h" by (simp add: rehashed_def)

lemma rehashed_trans [trans]: "rehashed h h' \<Longrightarrow> rehashed h' h'' \<Longrightarrow> rehashed h h''" by (simp add: rehashed_def)

lemma rehashed_upd [intro]: "h a = Some e \<Longrightarrow> rehashed h (h(a \<mapsto> next_hash_update f e))"
  by (auto simp: rehashed_def)

lemma chain_cong: "(\<And>x. x \<in> set xs \<Longrightarrow> nh h' x = nh h x) \<Longrightarrow> chain h' p xs = chain h p xs"
  by (induction xs arbitrary: p) auto

lemma chain_tail: "chain h p (ys @ a # zs) \<Longrightarrow> \<exists>q. nh h a = Some q \<and> chain h q zs"
  by (induction ys arbitrary: p) auto

lemma chain_in_heap: "chain h p xs \<Longrightarrow> a \<in> set xs \<Longrightarrow> \<exists>e. h a = Some e"
  by (induction xs arbitrary: p) (auto simp: nh_def)

lemma rehashed_fields:
  assumes "rehashed h h'"
  shows "key_at h' = key_at h" "nx h' = nx h" "pv h' = pv h"
proof -
  have eq: "map_option (\<lambda>e. e\<lparr>next_hash := None\<rparr>) (h' a) = map_option (\<lambda>e. e\<lparr>next_hash := None\<rparr>) (h a)" for a
    using assms by (simp add: rehashed_def)
  have proj: "map_option f (h' a) = map_option f (h a)" if "\<And>e. f e = f (e\<lparr>next_hash := None\<rparr>)" for f :: "'a LRUEntry \<Rightarrow> 'b" and a
  proof -
    have "map_option f x = map_option f (map_option (\<lambda>e. e\<lparr>next_hash := None\<rparr>) x)" for x
      using that by (simp add: option.map_comp comp_def)
    then show ?thesis using eq [of a] by metis
  qed
  show "key_at h' = key_at h" "nx h' = nx h" "pv h' = pv h"
    by (auto simp: key_at_def nx_def pv_def fun_eq_iff intro!: proj)
qed

lemma idx_at_rehashed: "rehashed h h' \<Longrightarrow> idx_at h' n = idx_at h n"
  using rehashed_fields(1) [of h h'] by (auto simp: idx_at_def fun_eq_iff)

lemma nh_upd [simp]: "nh (h(a \<mapsto> next_hash_update f e)) x = (if x = a then Some (f (next_hash e)) else nh h x)"
  by (simp add: nh_def)

definition loc_after :: "loc \<Rightarrow> nat list \<Rightarrow> loc" where
  "loc_after ptr ys = (if ys = [] then ptr else NextHash (last ys))"

lemma load_loc_NextHash [simp]: "load_loc (NextHash a) h t = nh h a"
  by (cases "h a") (simp_all add: nh_def)

declare load_loc.simps(2) [simp del]

lemma find_from_chain:
  assumes "load_loc ptr h t = Some p" "chain h p xs" "\<And>a. a \<in> set xs \<Longrightarrow> nx h a \<noteq> Some a"
  shows "find_from key hash h t ptr = Some (loc_after ptr (takeWhile (\<lambda>a. key_at h a \<noteq> Some (key, hash)) xs))"
  using assms
proof (induction xs arbitrary: ptr p)
  case Nil
  then show ?case by (simp add: find_from.simps loc_after_def)
next
  case (Cons a xs)
  then obtain e where e: "h a = Some e" "e_next e \<noteq> a" "nh h a = Some (next_hash e)" "chain h (next_hash e) xs"
    by (auto simp: nh_def nx_def)
  have IH: "find_from key hash h t (NextHash a) =
      Some (loc_after (NextHash a) (takeWhile (\<lambda>a. key_at h a \<noteq> Some (key, hash)) xs))"
    using e Cons.prems(3) by (intro Cons.IH [of _ "next_hash e"]) auto
  show ?case
    using Cons.prems e IH by (subst find_from.simps) (auto simp: key_at_def entry_key_def loc_after_def)
qed

lemma load_loc_after:
  "load_loc ptr h t = Some p \<Longrightarrow> chain h p (ys @ zs) \<Longrightarrow>
    load_loc (loc_after ptr ys) h t = Some (case zs of [] \<Rightarrow> None | z # _ \<Rightarrow> Some z)"
proof (induction ys arbitrary: ptr p)
  case Nil
  then show ?case by (cases zs) (auto simp: loc_after_def)
next
  case (Cons y ys)
  then obtain q where "nh h y = Some q" "chain h q (ys @ zs)" by auto
  with Cons.IH [of "NextHash y" q] show ?case by (simp add: loc_after_def split: if_splits)
qed

lemma chain_replace:
  "chain h p (ys @ zs) \<Longrightarrow> ys \<noteq> [] \<Longrightarrow> distinct (ys @ ws) \<Longrightarrow> chain h q ws \<Longrightarrow> nh h' (last ys) = Some q \<Longrightarrow>
    (\<And>x. x \<noteq> last ys \<Longrightarrow> nh h' x = nh h x) \<Longrightarrow> chain h' p (ys @ ws)"
proof (induction ys arbitrary: p)
  case (Cons y ys)
  show ?case
  proof (cases ys)
    case Nil
    have "chain h' q ws = chain h q ws" using Cons.prems Nil by (intro chain_cong) (metis Un_iff append_Cons append_Nil distinct.simps(2) last.simps)
    then show ?thesis using Cons.prems Nil by auto
  next
    case (Cons y' ys')
    have "y \<noteq> last ys" using Cons.prems(3) Cons by auto
    with Cons.prems Cons.IH Cons show ?thesis by auto
  qed
qed simp

section \<open>The hash table is a finite set of entries\<close>

text \<open>\<open>chains_ok h l n X\<close>: the buckets \<open>l\<close> hold exactly the entries \<open>X\<close>, each once and in the bucket
  of its hash.\<close>

definition chains_ok :: "'v heap \<Rightarrow> nat option list \<Rightarrow> nat \<Rightarrow> nat set \<Rightarrow> bool" where
  "chains_ok h l n X \<longleftrightarrow> length l = n \<and>
     (\<forall>i<n. \<exists>xs. chain h (l ! i) xs \<and> distinct xs \<and> set xs = {a \<in> X. idx_at h n a = i})"

definition table_ok :: "'v heap \<Rightarrow> HashTable \<Rightarrow> nat set \<Rightarrow> bool" where
  "table_ok h t X \<longleftrightarrow> chains_ok h (t_list t) (t_length t) X \<and> 0 < t_length t \<and> finite X \<and> t_elems t = card X \<and>
     (\<forall>a\<in>X. h a \<noteq> None)"

definition not_self :: "'v heap \<Rightarrow> nat set \<Rightarrow> bool" where
  "not_self h X \<longleftrightarrow> (\<forall>a\<in>X. nx h a \<noteq> Some a)"

lemma bucket_of_less: "0 < n \<Longrightarrow> bucket_of hash n < n"
proof -
  assume n: "0 < n"
  have "bucket_of hash n \<le> unat (of_nat (n - 1) :: u32)"
    unfolding bucket_of_def using word_and_le1 [of hash "of_nat (n - 1)"] by (simp add: word_le_nat_alt)
  also have "\<dots> \<le> n - 1" by (simp add: unsigned_of_nat take_bit_eq_mod)
  finally show ?thesis using n by simp
qed

lemma idx_at_less: "0 < n \<Longrightarrow> idx_at h n a < n"
  by (simp add: idx_at_def bucket_of_less)

lemma store_chain:
  assumes l: "i < length (t_list t)" and ch: "chain h (t_list t ! i) (ys @ zs)" "chain h q ws" "distinct (ys @ ws)"
  shows "\<exists>h' l'. store_loc (loc_after (Bucket i) ys) q h t = Some (h', t\<lparr>t_list := l'\<rparr>) \<and> rehashed h h' \<and>
    length l' = length (t_list t) \<and> (\<forall>j. j \<noteq> i \<longrightarrow> l' ! j = t_list t ! j) \<and> chain h' (l' ! i) (ys @ ws) \<and>
    (\<forall>x. x \<notin> set ys \<longrightarrow> nh h' x = nh h x)"
proof (cases "ys = []")
  case True
  then show ?thesis using l ch by (intro exI [of _ h] exI [of _ "(t_list t)[i := q]"]) (simp add: loc_after_def)
next
  case False
  then have "last ys \<in> set (ys @ zs)" by auto
  then obtain e where e: "h (last ys) = Some e" using chain_in_heap [OF ch(1)] by blast
  let ?h = "h(last ys \<mapsto> e\<lparr>next_hash := q\<rparr>)"
  have "store_loc (loc_after (Bucket i) ys) q h t = Some (?h, t\<lparr>t_list := t_list t\<rparr>)"
    using False e by (simp add: loc_after_def)
  moreover have "chain ?h (t_list t ! i) (ys @ ws)"
    by (rule chain_replace [OF ch(1) False ch(3,2)]) simp_all
  moreover have "rehashed h ?h" using e by (rule rehashed_upd)
  moreover have "\<forall>x. x \<notin> set ys \<longrightarrow> nh ?h x = nh h x" using False by auto
  ultimately show ?thesis by blast
qed

lemma FindPointer_split:
  assumes ok: "table_ok h t X" and ns: "not_self h X" and i: "i = bucket_of hash (t_length t)"
  obtains ys zs where "FindPointer key hash h t = Some (loc_after (Bucket i) ys)" "chain h (t_list t ! i) (ys @ zs)"
    "distinct (ys @ zs)" "set (ys @ zs) = {a \<in> X. idx_at h (t_length t) a = i}"
    "load_loc (loc_after (Bucket i) ys) h t = Some (case zs of [] \<Rightarrow> None | z # _ \<Rightarrow> Some z)"
    "case zs of [] \<Rightarrow> \<forall>a\<in>X. key_at h a \<noteq> Some (key, hash) | z # _ \<Rightarrow> key_at h z = Some (key, hash)"
    "i < length (t_list t)"
proof -
  have len: "0 < t_length t" "length (t_list t) = t_length t" using ok by (auto simp: table_ok_def chains_ok_def)
  then have il: "i < t_length t" using i bucket_of_less by simp
  then obtain xs where xs: "chain h (t_list t ! i) xs" "distinct xs" "set xs = {a \<in> X. idx_at h (t_length t) a = i}"
    using ok by (auto simp: table_ok_def chains_ok_def)
  let ?P = "\<lambda>a. key_at h a \<noteq> Some (key, hash)"
  let ?ys = "takeWhile ?P xs" and ?zs = "dropWhile ?P xs"
  have load: "load_loc (Bucket i) h t = Some (t_list t ! i)" using il len by simp
  have "FindPointer key hash h t = Some (loc_after (Bucket i) ?ys)"
    unfolding FindPointer_def i [symmetric]
    by (rule find_from_chain [OF load xs(1)]) (use ns xs(3) in \<open>auto simp: not_self_def\<close>)
  moreover have "load_loc (loc_after (Bucket i) ?ys) h t = Some (case ?zs of [] \<Rightarrow> None | z # _ \<Rightarrow> Some z)"
    using load_loc_after [OF load, of ?ys ?zs] xs(1) by simp
  moreover have "case ?zs of [] \<Rightarrow> \<forall>a\<in>X. ?P a | z # _ \<Rightarrow> key_at h z = Some (key, hash)"
  proof (cases ?zs)
    case Nil
    then have "\<forall>a\<in>set xs. ?P a" by (simp add: dropWhile_eq_Nil_conv)
    moreover have "a \<in> set xs" if "a \<in> X" "key_at h a = Some (key, hash)" for a
      using that xs(3) by (simp add: idx_at_def i)
    ultimately have "\<forall>a\<in>X. ?P a" by blast
    then show ?thesis unfolding Nil by simp
  next
    case (Cons z zs)
    then show ?thesis using hd_dropWhile [of ?P xs] by auto
  qed
  ultimately show ?thesis using that [of ?ys ?zs] xs il len by simp
qed

lemma HT_Lookup_miss:
  assumes "table_ok h t X" "not_self h X" "\<And>a. a \<in> X \<Longrightarrow> key_at h a \<noteq> Some (key, hash)"
  shows "HT_Lookup key hash h t = Some None"
proof -
  obtain ys zs where f: "FindPointer key hash h t = Some (loc_after (Bucket (bucket_of hash (t_length t))) ys)"
    "load_loc (loc_after (Bucket (bucket_of hash (t_length t))) ys) h t = Some (case zs of [] \<Rightarrow> None | z # _ \<Rightarrow> Some z)"
    "case zs of [] \<Rightarrow> \<forall>a\<in>X. key_at h a \<noteq> Some (key, hash) | z # _ \<Rightarrow> key_at h z = Some (key, hash)"
    "set (ys @ zs) = {a \<in> X. idx_at h (t_length t) a = bucket_of hash (t_length t)}"
    by (rule FindPointer_split [OF assms(1,2) refl, of key hash])
  have "zs = []" using f(3,4) assms(3) by (cases zs) auto
  then show ?thesis using f by (simp add: HT_Lookup_def)
qed

lemma hit_is_head:
  assumes "inj_on (key_at h) X" "a \<in> X" "key_at h a = Some k" "set (ys @ zs) = {b \<in> X. Q b}"
    "case zs of [] \<Rightarrow> \<forall>a\<in>X. key_at h a \<noteq> Some k | z # _ \<Rightarrow> key_at h z = Some k"
  obtains zs' where "zs = a # zs'"
proof (cases zs)
  case (Cons z zs')
  then have "z \<in> X" "key_at h z = Some k" using assms(4,5) by auto
  then have "z = a" using inj_onD [OF assms(1), of z a] assms(2,3) by simp
  then show ?thesis using that Cons by simp
qed (use assms in auto)

lemma HT_Lookup_hit:
  assumes "table_ok h t X" "not_self h X" "inj_on (key_at h) X" "a \<in> X" "key_at h a = Some (key, hash)"
  shows "HT_Lookup key hash h t = Some (Some a)"
proof -
  obtain ys zs where f: "FindPointer key hash h t = Some (loc_after (Bucket (bucket_of hash (t_length t))) ys)"
    "load_loc (loc_after (Bucket (bucket_of hash (t_length t))) ys) h t = Some (case zs of [] \<Rightarrow> None | z # _ \<Rightarrow> Some z)"
    "case zs of [] \<Rightarrow> \<forall>a\<in>X. key_at h a \<noteq> Some (key, hash) | z # _ \<Rightarrow> key_at h z = Some (key, hash)"
    "set (ys @ zs) = {a \<in> X. idx_at h (t_length t) a = bucket_of hash (t_length t)}"
    by (rule FindPointer_split [OF assms(1,2) refl, of key hash])
  obtain zs' where "zs = a # zs'" using hit_is_head [OF assms(3-5) f(4,3)] .
  then show ?thesis using f by (simp add: HT_Lookup_def)
qed

text \<open>Replacing the contents of one bucket.\<close>

lemma chains_ok_upd:
  assumes ok: "chains_ok h l n X" and re: "rehashed h h'" and l': "length l' = n" "\<And>j. j \<noteq> i \<Longrightarrow> l' ! j = l ! j"
    and i: "chain h' (l' ! i) xs" "distinct xs" "set xs = {a \<in> X'. idx_at h n a = i}"
    and oth: "\<And>a. idx_at h n a \<noteq> i \<Longrightarrow> a \<in> X' \<longleftrightarrow> a \<in> X" "\<And>a. a \<in> X \<Longrightarrow> idx_at h n a \<noteq> i \<Longrightarrow> nh h' a = nh h a"
  shows "chains_ok h' l' n X'"
  unfolding chains_ok_def idx_at_rehashed [OF re]
proof (intro conjI l'(1) allI impI)
  fix j assume j: "j < n"
  show "\<exists>xs. chain h' (l' ! j) xs \<and> distinct xs \<and> set xs = {a \<in> X'. idx_at h n a = j}"
  proof (cases "j = i")
    case False
    obtain ys where ys: "chain h (l ! j) ys" "distinct ys" "set ys = {a \<in> X. idx_at h n a = j}"
      using ok j by (auto simp: chains_ok_def)
    have "chain h' (l ! j) ys = chain h (l ! j) ys" using ys(3) oth(2) False by (intro chain_cong) auto
    moreover have "set ys = {a \<in> X'. idx_at h n a = j}" using ys(3) oth(1) False by auto
    ultimately show ?thesis using ys l'(2) [OF False] by auto
  qed (use i in auto)
qed

lemma rehashed_None: "rehashed h h' \<Longrightarrow> h' a = None \<longleftrightarrow> h a = None"
  unfolding rehashed_def by (metis option.map_disc_iff)

lemma HT_Remove_hit:
  assumes ok: "table_ok h t X" "not_self h X" "inj_on (key_at h) X" and a: "a \<in> X" "key_at h a = Some (key, hash)"
  obtains h' t' where "HT_Remove key hash h t = Some (Some a, h', t')" "rehashed h h'" "table_ok h' t' (X - {a})"
proof -
  define i where "i = bucket_of hash (t_length t)"
  obtain ys zs where f: "FindPointer key hash h t = Some (loc_after (Bucket i) ys)" "chain h (t_list t ! i) (ys @ zs)"
    "distinct (ys @ zs)" "set (ys @ zs) = {a \<in> X. idx_at h (t_length t) a = i}"
    "load_loc (loc_after (Bucket i) ys) h t = Some (case zs of [] \<Rightarrow> None | z # _ \<Rightarrow> Some z)"
    "case zs of [] \<Rightarrow> \<forall>a\<in>X. key_at h a \<noteq> Some (key, hash) | z # _ \<Rightarrow> key_at h z = Some (key, hash)"
    "i < length (t_list t)"
    by (rule FindPointer_split [OF ok(1,2) i_def, of key])
  obtain zs' where zs: "zs = a # zs'" using hit_is_head [OF ok(3) a f(4,6)] .
  obtain e where e: "h a = Some e" "chain h (next_hash e) zs'"
    using chain_tail [OF f(2) [unfolded zs]] by (auto simp: nh_def)
  obtain h' l' where st: "store_loc (loc_after (Bucket i) ys) (next_hash e) h t = Some (h', t\<lparr>t_list := l'\<rparr>)" "rehashed h h'"
    "length l' = length (t_list t)" "\<And>j. j \<noteq> i \<Longrightarrow> l' ! j = t_list t ! j" "chain h' (l' ! i) (ys @ zs')"
    "\<And>x. x \<notin> set ys \<Longrightarrow> nh h' x = nh h x"
    using store_chain [OF f(7,2) e(2)] f(3) unfolding zs by auto
  have "chains_ok h' l' (t_length t) (X - {a})"
  proof (rule chains_ok_upd)
    show "chains_ok h (t_list t) (t_length t) X" "length l' = t_length t"
      using ok(1) st(3) by (auto simp: table_ok_def chains_ok_def)
    show "chain h' (l' ! i) (ys @ zs')" "rehashed h h'" by fact+
    show "set (ys @ zs') = {b \<in> X - {a}. idx_at h (t_length t) b = i}" using f(3,4) zs by auto
    show "nh h' b = nh h b" if "b \<in> X" "idx_at h (t_length t) b \<noteq> i" for b using that f(4) st(6) by auto
    show "b \<in> X - {a} \<longleftrightarrow> b \<in> X" if "idx_at h (t_length t) b \<noteq> i" for b using that f(4) zs by auto
  qed (use st f zs in auto)
  moreover have "HT_Remove key hash h t = Some (Some a, h', t\<lparr>t_list := l', t_elems := t_elems t - 1\<rparr>)"
    using f(1,5) zs e st(1) by (simp add: HT_Remove_def)
  ultimately show ?thesis
    using that [of h' "t\<lparr>t_list := l', t_elems := t_elems t - 1\<rparr>"] st(2) ok(1) a(1)
    by (auto simp: table_ok_def rehashed_None)
qed

lemma HT_Remove_miss:
  assumes "table_ok h t X" "not_self h X" "\<And>a. a \<in> X \<Longrightarrow> key_at h a \<noteq> Some (key, hash)"
  shows "HT_Remove key hash h t = Some (None, h, t)"
  using HT_Lookup_miss [OF assms] by (auto simp: HT_Lookup_def HT_Remove_def split: Option.bind_splits)

subsection \<open>Resizing\<close>

lemma chains_ok_cong:
  assumes "chains_ok h l n X" "rehashed h h'" "\<And>a. a \<in> X \<Longrightarrow> nh h' a = nh h a"
  shows "chains_ok h' l n X"
  unfolding chains_ok_def idx_at_rehashed [OF assms(2)]
proof (intro conjI allI impI)
  show "length l = n" using assms(1) by (simp add: chains_ok_def)
  fix i assume "i < n"
  then obtain xs where xs: "chain h (l ! i) xs" "distinct xs" "set xs = {a \<in> X. idx_at h n a = i}"
    using assms(1) by (auto simp: chains_ok_def)
  moreover have "chain h' (l ! i) xs = chain h (l ! i) xs" using xs(3) assms(3) by (intro chain_cong) auto
  ultimately show "\<exists>xs. chain h' (l ! i) xs \<and> distinct xs \<and> set xs = {a \<in> X. idx_at h n a = i}" by auto
qed

lemma migrate_step:
  assumes ok: "chains_ok h l n S" "0 < n" and a: "h a = Some e" "a \<notin> S" and i: "i = bucket_of (e_hash e) n"
  shows "chains_ok (h(a \<mapsto> e\<lparr>next_hash := l ! i\<rparr>)) (l[i := Some a]) n (insert a S)"
proof -
  have il: "i < n" and l: "length l = n" using ok i by (auto simp: bucket_of_less chains_ok_def)
  obtain xs where xs: "chain h (l ! i) xs" "distinct xs" "set xs = {a \<in> S. idx_at h n a = i}"
    using ok(1) il by (auto simp: chains_ok_def)
  have ia: "idx_at h n a = i" using a(1) by (simp add: idx_at_def key_at_def i)
  let ?h = "h(a \<mapsto> e\<lparr>next_hash := l ! i\<rparr>)"
  have "chain ?h (l ! i) xs = chain h (l ! i) xs" using xs(3) a(2) by (intro chain_cong) auto
  then have "chain ?h (l[i := Some a] ! i) (a # xs)" using xs il l by simp
  moreover have "set (a # xs) = {b \<in> insert a S. idx_at h n b = i}" using xs(3) ia by auto
  ultimately show ?thesis
    using xs a ia l by (intro chains_ok_upd [OF ok(1), where i = i and xs = "a # xs"]) auto
qed

lemma migrate_ok:
  assumes "chain h p xs" "distinct xs" "set xs \<inter> S = {}" "chains_ok h l n S" "0 < n"
  shows "\<exists>h' l'. migrate n p h l c = Some (h', l', c + length xs) \<and> rehashed h h' \<and> chains_ok h' l' n (set xs \<union> S) \<and>
    (\<forall>x. x \<notin> set xs \<longrightarrow> nh h' x = nh h x)"
  using assms
proof (induction xs arbitrary: p h l c S)
  case Nil
  then show ?case by (auto simp: migrate.simps)
next
  case (Cons a xs)
  then obtain e where e: "p = Some a" "h a = Some e" "chain h (next_hash e) xs" by (auto simp: nh_def)
  define i where "i = bucket_of (e_hash e) n"
  define h1 where "h1 = h(a \<mapsto> e\<lparr>next_hash := l ! i\<rparr>)"
  have il: "i < length l" using Cons.prems(4,5) by (simp add: chains_ok_def bucket_of_less i_def)
  have "chain h1 (next_hash e) xs = chain h (next_hash e) xs"
    unfolding h1_def using Cons.prems(2) by (intro chain_cong) auto
  then have c1: "chain h1 (next_hash e) xs" using e by simp
  have ok1: "chains_ok h1 (l[i := Some a]) n (insert a S)"
    unfolding h1_def using Cons.prems e by (intro migrate_step) (auto simp: i_def)
  have "set xs \<inter> insert a S = {}" "distinct xs" using Cons.prems(2,3) by auto
  from Cons.IH [OF c1 this(2,1) ok1 Cons.prems(5), of "c + 1"]
  obtain h' l' where IH: "migrate n (next_hash e) h1 (l[i := Some a]) (c + 1) = Some (h', l', c + 1 + length xs)" "rehashed h1 h'"
      "chains_ok h' l' n (set xs \<union> insert a S)" "\<forall>x. x \<notin> set xs \<longrightarrow> nh h' x = nh h1 x"
    by blast
  have "migrate n p h l c = Some (h', l', c + length (a # xs))"
    using IH(1) e il by (subst migrate.simps) (simp flip: i_def h1_def)
  moreover have "rehashed h h1" unfolding h1_def using e(2) by (rule rehashed_upd)
  then have "rehashed h h'" using IH(2) by (rule rehashed_trans)
  ultimately show ?case using IH(3,4) by (auto simp: h1_def)
qed

lemma migrate_all_ok:
  assumes "list_all2 (chain h) ps xss" "distinct (concat xss)" "set (concat xss) \<inter> S = {}" "chains_ok h l n S" "0 < n"
  shows "\<exists>h' l'. migrate_all n ps h l c = Some (h', l', c + length (concat xss)) \<and> rehashed h h' \<and>
    chains_ok h' l' n (set (concat xss) \<union> S)"
  using assms
proof (induction ps arbitrary: xss h l c S)
  case (Cons p ps)
  then obtain xs yss where xss: "xss = xs # yss" "chain h p xs" "list_all2 (chain h) ps yss"
    by (auto simp: list_all2_Cons1)
  obtain h1 l1 where 1: "migrate n p h l c = Some (h1, l1, c + length xs)" "rehashed h h1" "chains_ok h1 l1 n (set xs \<union> S)"
      "\<forall>x. x \<notin> set xs \<longrightarrow> nh h1 x = nh h x"
    using migrate_ok [of h p xs S l n c] xss Cons.prems by auto
  have dj: "set xs \<inter> set (concat yss) = {}" using Cons.prems(2) xss(1) by auto
  have la: "list_all2 (chain h1) ps yss"
    using xss(3) dj
  proof (induction ps yss rule: list_all2_induct)
    case (Cons q ps ys yss)
    have "chain h1 q ys = chain h q ys" using Cons.prems 1(4) by (intro chain_cong) auto
    then show ?case using Cons by auto
  qed simp
  have "\<exists>h' l'. migrate_all n ps h1 l1 (c + length xs) = Some (h', l', c + length xs + length (concat yss)) \<and> rehashed h1 h' \<and>
      chains_ok h' l' n (set (concat yss) \<union> (set xs \<union> S))"
    using Cons.prems dj xss(1) la 1 by (intro Cons.IH) auto
  then show ?case using 1 xss(1) by (auto simp: add.assoc Un_ac intro: rehashed_trans)
qed simp

lemma new_length_ge: "0 < n \<Longrightarrow> elems \<le> new_length n elems \<and> n \<le> new_length n elems"
  by (induction n elems rule: new_length.induct) (subst (1 2) new_length.simps, auto)

lemma chains_ok_lists:
  assumes ok: "chains_ok h l n X" and X: "0 < n \<or> X = {}" "finite X"
  obtains xss where "list_all2 (chain h) l xss" "distinct (concat xss)" "set (concat xss) = X" "length (concat xss) = card X"
proof -
  obtain f where f: "\<And>i. i < n \<Longrightarrow> chain h (l ! i) (f i) \<and> distinct (f i) \<and> set (f i) = {a \<in> X. idx_at h n a = i}"
    using ok unfolding chains_ok_def by metis
  let ?xss = "map f [0..<n]"
  have "distinct (concat (map f [0..<k]))" if "k \<le> n" for k
    using that
  proof (induction k)
    case (Suc k)
    then show ?case using f by auto
  qed simp
  then have d: "distinct (concat ?xss)" by simp
  have s: "set (concat ?xss) = X" using f X(1) idx_at_less [of n h] by fastforce
  have "list_all2 (chain h) l ?xss" using f ok by (auto simp: list_all2_conv_all_nth chains_ok_def)
  moreover have "length (concat ?xss) = card X" using distinct_card [OF d] s by simp
  ultimately show ?thesis using that d s by blast
qed

lemma Resize_ok:
  assumes ok: "chains_ok h (t_list t) (t_length t) X" and X: "0 < t_length t \<or> X = {}" "finite X" "t_elems t = card X"
    "\<And>a. a \<in> X \<Longrightarrow> h a \<noteq> None"
  obtains h' t' where "Resize h t = Some (h', t')" "rehashed h h'" "table_ok h' t' X" "t_elems t' \<le> t_length t'"
proof -
  let ?n = "new_length 4 (t_elems t)"
  have n: "0 < ?n" "t_elems t \<le> ?n" using new_length_ge [of 4 "t_elems t"] by auto
  obtain xss where xss: "list_all2 (chain h) (t_list t) xss" "distinct (concat xss)" "set (concat xss) = X"
      "length (concat xss) = card X"
    using chains_ok_lists [OF ok X(1,2)] .
  have "chains_ok h (replicate ?n None) ?n {}" by (auto simp: chains_ok_def intro: exI [of _ "[]"])
  from migrate_all_ok [OF xss(1,2) _ this n(1), of 0]
  obtain h' l' where m: "migrate_all ?n (t_list t) h (replicate ?n None) 0 = Some (h', l', card X)" "rehashed h h'"
      "chains_ok h' l' ?n X"
    using xss(3,4) by auto
  let ?t = "t\<lparr>t_list := l', t_length := ?n\<rparr>"
  have "Resize h t = Some (h', ?t)" using m(1) X(3) by (simp add: Resize_def Let_def)
  moreover have "table_ok h' ?t X" using m n X by (simp add: table_ok_def rehashed_None)
  ultimately show ?thesis using that [of h' ?t] m(2) n by (simp)
qed

lemma HashTable_new_ok: "\<exists>t. HashTable_new h = Some (h, t) \<and> table_ok h t {}"
  by (auto simp: HashTable_new_def Resize_def table_ok_def chains_ok_def new_length.simps [of 4 0] intro!: exI [of _ "[]"])

subsection \<open>Inserting\<close>

lemma insert_in_chain:
  assumes ok: "table_ok h t X" "not_self h X" and a: "h a = Some e" "a \<notin> X" "e_next e \<noteq> a"
  obtains zs h' l' where "case zs of [] \<Rightarrow> \<forall>b\<in>X. key_at h b \<noteq> key_at h a | z # _ \<Rightarrow> z \<in> X \<and> key_at h z = key_at h a"
    "HT_Insert a h t = (case zs of
        [] \<Rightarrow> do { (h, t) \<leftarrow> (if t_length t < t_elems t + 1 then Resize h' (t\<lparr>t_list := l', t_elems := t_elems t + 1\<rparr>)
                    else Some (h', t\<lparr>t_list := l', t_elems := t_elems t + 1\<rparr>)); Some (None, h, t) }
      | z # _ \<Rightarrow> Some (Some z, h', t\<lparr>t_list := l'\<rparr>))"
    "rehashed h h'" "chains_ok h' l' (t_length t) (insert a (X - set (take 1 zs)))"
proof -
  define i where "i = bucket_of (e_hash e) (t_length t)"
  obtain ys zs where f: "FindPointer (key_data e) (e_hash e) h t = Some (loc_after (Bucket i) ys)" "chain h (t_list t ! i) (ys @ zs)"
    "distinct (ys @ zs)" "set (ys @ zs) = {a \<in> X. idx_at h (t_length t) a = i}"
    "load_loc (loc_after (Bucket i) ys) h t = Some (case zs of [] \<Rightarrow> None | z # _ \<Rightarrow> Some z)"
    "case zs of [] \<Rightarrow> \<forall>b\<in>X. key_at h b \<noteq> Some (key_data e, e_hash e) | z # _ \<Rightarrow> key_at h z = Some (key_data e, e_hash e)"
    "i < length (t_list t)"
    by (rule FindPointer_split [OF ok i_def, of "key_data e"])
  have ka: "key_at h a = Some (key_data e, e_hash e)" using a by (simp add: key_at_def)
  obtain q where q: "(case zs of [] \<Rightarrow> Some None | z # _ \<Rightarrow> nh h z) = Some q" "chain h q (tl zs)"
    using chain_tail [of h _ ys "hd zs" "tl zs"] f(2) by (cases zs) auto
  define h1 where "h1 = h(a \<mapsto> e\<lparr>next_hash := q\<rparr>)"
  have nm: "a \<notin> set (ys @ zs)" using f(4) a(2) by auto
  have r1: "rehashed h h1" unfolding h1_def using a(1) by (rule rehashed_upd)
  have "chain h1 p xs = chain h p xs" if "a \<notin> set xs" for p xs using that by (intro chain_cong) (auto simp: h1_def)
  then have c1: "chain h1 (t_list t ! i) (ys @ zs)" "chain h1 (Some a) (a # tl zs)"
    using f(2) q(2) nm by (simp_all add: h1_def) (metis list.set_sel(2) tl_Nil)
  have d1: "distinct (ys @ a # tl zs)" using f(3) nm by (cases zs) auto
  obtain h' l' where st: "store_loc (loc_after (Bucket i) ys) (Some a) h1 t = Some (h', t\<lparr>t_list := l'\<rparr>)" "rehashed h1 h'"
    "length l' = length (t_list t)" "\<And>j. j \<noteq> i \<Longrightarrow> l' ! j = t_list t ! j" "chain h' (l' ! i) (ys @ a # tl zs)"
    "\<And>x. x \<notin> set ys \<Longrightarrow> nh h' x = nh h1 x"
    using store_chain [OF f(7) c1 d1] by blast
  have r: "rehashed h h'" using r1 st(2) by (rule rehashed_trans)
  have "chains_ok h' l' (t_length t) (insert a (X - set (take 1 zs)))"
  proof (rule chains_ok_upd [OF _ r])
    show "chains_ok h (t_list t) (t_length t) X" "length l' = t_length t"
      using ok(1) st(3) by (auto simp: table_ok_def chains_ok_def)
    show "chain h' (l' ! i) (ys @ a # tl zs)" "distinct (ys @ a # tl zs)" by fact+
    have ia: "idx_at h (t_length t) a = i" using ka by (simp add: idx_at_def i_def)
    show "set (ys @ a # tl zs) = {b \<in> insert a (X - set (take 1 zs)). idx_at h (t_length t) b = i}"
      using f(3,4) ia nm by (cases zs) auto
    show "nh h' b = nh h b" if "b \<in> X" "idx_at h (t_length t) b \<noteq> i" for b
    proof -
      have "b \<notin> set ys" "b \<noteq> a" using that f(4) a(2) by auto
      then show ?thesis using st(6) by (simp add: h1_def)
    qed
    show "b \<in> insert a (X - set (take 1 zs)) \<longleftrightarrow> b \<in> X" if "idx_at h (t_length t) b \<noteq> i" for b
    proof -
      have "b \<notin> set (take 1 zs)" "b \<noteq> a" using that f(4) ia by (auto dest: in_set_takeD)
      then show ?thesis by simp
    qed
    show "l' ! j = t_list t ! j" if "j \<noteq> i" for j using st(4) that .
  qed
  moreover have "HT_Insert a h t = (case zs of
        [] \<Rightarrow> do { (h, t) \<leftarrow> (if t_length t < t_elems t + 1 then Resize h' (t\<lparr>t_list := l', t_elems := t_elems t + 1\<rparr>)
                    else Some (h', t\<lparr>t_list := l', t_elems := t_elems t + 1\<rparr>)); Some (None, h, t) }
      | z # _ \<Rightarrow> Some (Some z, h', t\<lparr>t_list := l'\<rparr>))"
  proof -
    have "entry_key a h = Some (key_data e)" "modify a (next_hash_update (\<lambda>_. q)) h = Some h1"
      using a by (simp_all add: entry_key_def h1_def)
    moreover have "(case (case zs of [] \<Rightarrow> None | z # _ \<Rightarrow> Some z) of None \<Rightarrow> Some None
        | Some b \<Rightarrow> do { eb \<leftarrow> h b; Some (next_hash eb) }) = Some q"
      using q(1) by (cases zs) (auto simp: nh_def)
    ultimately show ?thesis
      using a(1) f(1,5) st(1) by (simp add: HT_Insert_def) (cases zs; simp add: Let_def)
  qed
  moreover have "case zs of [] \<Rightarrow> \<forall>b\<in>X. key_at h b \<noteq> key_at h a | z # _ \<Rightarrow> z \<in> X \<and> key_at h z = key_at h a"
    using f(4,6) by (cases zs) (auto simp: ka)
  ultimately show ?thesis using that r by blast
qed

lemma HT_Insert_miss:
  assumes ok: "table_ok h t X" "not_self h X" and a: "h a = Some e" "a \<notin> X" "e_next e \<noteq> a"
    and miss: "\<And>b. b \<in> X \<Longrightarrow> key_at h b \<noteq> key_at h a"
  obtains h' t' where "HT_Insert a h t = Some (None, h', t')" "rehashed h h'" "table_ok h' t' (insert a X)"
proof -
  obtain zs h1 l where i: "case zs of [] \<Rightarrow> \<forall>b\<in>X. key_at h b \<noteq> key_at h a | z # _ \<Rightarrow> z \<in> X \<and> key_at h z = key_at h a"
    "HT_Insert a h t = (case zs of
        [] \<Rightarrow> do { (h, t) \<leftarrow> (if t_length t < t_elems t + 1 then Resize h1 (t\<lparr>t_list := l, t_elems := t_elems t + 1\<rparr>)
                    else Some (h1, t\<lparr>t_list := l, t_elems := t_elems t + 1\<rparr>)); Some (None, h, t) }
      | z # _ \<Rightarrow> Some (Some z, h1, t\<lparr>t_list := l\<rparr>))"
    "rehashed h h1" "chains_ok h1 l (t_length t) (insert a (X - set (take 1 zs)))"
    by (rule insert_in_chain [OF ok a])
  have zs: "zs = []" using i(1) miss by (cases zs) auto
  let ?t = "t\<lparr>t_list := l, t_elems := t_elems t + 1\<rparr>"
  have t1: "table_ok h1 ?t (insert a X)"
    using i(3,4) zs ok(1) a by (auto simp: table_ok_def rehashed_None)
  show ?thesis
  proof (cases "t_length t < t_elems t + 1")
    case True
    obtain h2 t2 where r: "Resize h1 ?t = Some (h2, t2)" "rehashed h1 h2" "table_ok h2 t2 (insert a X)"
      by (rule Resize_ok [of h1 ?t "insert a X"]) (use t1 in \<open>auto simp: table_ok_def\<close>)
    then show ?thesis using that [of h2 t2] i(2) zs True rehashed_trans [OF i(3) r(2)] by simp
  qed (use that [of h1 ?t] i zs t1 in simp)
qed

lemma HT_Insert_hit:
  assumes ok: "table_ok h t X" "not_self h X" "inj_on (key_at h) X" and a: "h a = Some e" "a \<notin> X" "e_next e \<noteq> a"
    and b: "b \<in> X" "key_at h b = key_at h a"
  obtains h' t' where "HT_Insert a h t = Some (Some b, h', t')" "rehashed h h'" "table_ok h' t' (insert a (X - {b}))"
proof -
  obtain zs h1 l where i: "case zs of [] \<Rightarrow> \<forall>b\<in>X. key_at h b \<noteq> key_at h a | z # _ \<Rightarrow> z \<in> X \<and> key_at h z = key_at h a"
    "HT_Insert a h t = (case zs of
        [] \<Rightarrow> do { (h, t) \<leftarrow> (if t_length t < t_elems t + 1 then Resize h1 (t\<lparr>t_list := l, t_elems := t_elems t + 1\<rparr>)
                    else Some (h1, t\<lparr>t_list := l, t_elems := t_elems t + 1\<rparr>)); Some (None, h, t) }
      | z # _ \<Rightarrow> Some (Some z, h1, t\<lparr>t_list := l\<rparr>))"
    "rehashed h h1" "chains_ok h1 l (t_length t) (insert a (X - set (take 1 zs)))"
    by (rule insert_in_chain [OF ok(1,2) a])
  obtain z zs' where z: "zs = z # zs'" "z \<in> X" "key_at h z = key_at h a" using i(1) b by (cases zs) auto
  then have "z = b" using inj_onD [OF ok(3), of z b] b by simp
  moreover have "finite X" using ok(1) by (simp add: table_ok_def)
  then have "card (insert a (X - {z})) = card X" using card_Suc_Diff1 [of X z] z(2) a(2) by simp
  then have "table_ok h1 (t\<lparr>t_list := l\<rparr>) (insert a (X - {z}))"
    using i(3,4) z ok(1) a by (auto simp: table_ok_def rehashed_None)
  ultimately show ?thesis using that [of h1 "t\<lparr>t_list := l\<rparr>"] i(2,3) z by simp
qed

end
