(* ===== verification/Lru_Refines.thy ===== *)
theory Lru_Refines
  imports Lru_Cache
begin

text \<open>
  The simulation between \<^verbatim>\<open>LRUCache\<close> and the abstract cache of \<open>Lru_Cache\<close>, operation by
  operation.
\<close>

section \<open>Frames of the heap operations\<close>

definition core :: "'v heap \<Rightarrow> nat \<Rightarrow> ('v \<times> bytes \<times> u32 \<times> nat \<times> bool) option" where
  "core h a = map_option (\<lambda>e. (e_value e, key_data e, e_hash e, refs e, in_cache e)) (h a)"

lemma core_Some: "core h a = Some (v, k, hs, r, i) \<longleftrightarrow>
    (\<exists>e. h a = Some e \<and> e_value e = v \<and> key_data e = k \<and> e_hash e = hs \<and> refs e = r \<and> in_cache e = i)"
  by (auto simp: core_def)

lemma core_None: "core h a = None \<longleftrightarrow> h a = None"
  by (simp add: core_def)

lemma core_key_at: "key_at h a = map_option (\<lambda>(v, k, hs, _). (k, hs)) (core h a)"
  by (cases "h a") (auto simp: core_def key_at_def)

lemma map_option_through:
  assumes "map_option g x = map_option g y" "\<And>e. f e = f' (g e)"
  shows "map_option f x = map_option f y"
proof -
  have "map_option f z = map_option f' (map_option g z)" for z using assms(2) by (cases z) auto
  then show ?thesis using assms(1) by metis
qed

lemma relinked_core: "relinked h h' \<Longrightarrow> core h' a = core h a" "relinked h h' \<Longrightarrow> nh h' a = nh h a"
  unfolding relinked_def core_def nh_def
  by (rule map_option_through [where f' = "\<lambda>e. (e_value e, key_data e, e_hash e, refs e, in_cache e)"], blast, simp)
    (rule map_option_through [where f' = next_hash], blast, simp)

lemma rehashed_core: "rehashed h h' \<Longrightarrow> core h' a = core h a"
  unfolding rehashed_def core_def
  by (rule map_option_through [where f' = "\<lambda>e. (e_value e, key_data e, e_hash e, refs e, in_cache e)"], blast, simp)

lemma table_ok_cong:
  assumes ok: "table_ok h t X" and eq: "\<And>a. a \<in> X \<Longrightarrow> nh h' a = nh h a" "\<And>a. a \<in> X \<Longrightarrow> key_at h' a = key_at h a"
  shows "table_ok h' t X"
proof -
  have idx: "{a \<in> X. idx_at h' n a = i} = {a \<in> X. idx_at h n a = i}" for n i using eq(2) by (auto simp: idx_at_def)
  have "chain h' p xs = chain h p xs" if "set xs = {a \<in> X. idx_at h n a = i}" for p xs n i
    using that eq(1) by (intro chain_cong) auto
  then have "chains_ok h' l n X = chains_ok h l n X" for l n
    unfolding chains_ok_def idx by (metis (no_types, lifting))
  moreover have "h' a \<noteq> None" if "a \<in> X" for a
    using ok arg_cong [OF eq(1) [OF that], of "\<lambda>x. x = None"] that by (auto simp: table_ok_def nh_def)
  ultimately show ?thesis using ok by (simp add: table_ok_def)
qed

section \<open>The lists\<close>

lemma seg_remove:
  assumes sg: "seg h l (xs @ a # ys) l" and d: "distinct (l # xs @ a # ys)"
  shows "\<exists>h'. LRU_Remove a h = Some h' \<and> relinked h h' \<and> seg h' l (xs @ ys) l \<and>
    (\<forall>x. x \<notin> set (l # xs @ ys) \<longrightarrow> nx h' x = nx h x \<and> pv h' x = pv h x) \<and> (\<forall>x. x \<noteq> l \<and> nx h' x = Some x \<longrightarrow> nx h x = Some x)"
proof -
  let ?p = "last (l # xs)" and ?n = "hd (ys @ [l])"
  have s: "seg h l xs a" "seg h a ys l" using sg by auto
  have e: "nx h a = Some ?n" "pv h a = Some ?p" "nx h ?p \<noteq> None" "pv h ?n \<noteq> None"
  proof -
    show "nx h a = Some ?n" "pv h a = Some ?p" using seg_ends s by blast+
    show "nx h ?p \<noteq> None" using s(1) by (cases xs rule: rev_cases) auto
    show "pv h ?n \<noteq> None" using s(2) by (cases ys) auto
  qed
  have pn: "?p \<in> set (l # xs)" "?n \<in> set (ys @ [l])" by (cases xs rule: rev_cases; simp) (cases ys; simp)
  have ne: "?n \<noteq> a" "?p \<noteq> a" using pn d by auto
  have "h ?p \<noteq> None" "h ?n \<noteq> None" using e(3,4) by (auto simp: nx_def pv_def)
  from LRU_Remove_ok [OF e(1,2) ne this(2,1)] obtain h' where h': "LRU_Remove a h = Some h'" "relinked h h'"
      "\<And>x. nx h' x = (if x = ?p then Some ?n else nx h x)" "\<And>x. pv h' x = (if x = ?n then Some ?p else pv h x)" by blast
  have "seg h' l (xs @ ys) l"
    by (rule seg_join [OF s _ _ _ h'(3,4)]) (use d in auto)
  moreover have "?p = l" if "?p = ?n" using pn that d by auto
  ultimately show ?thesis using h' pn by auto
qed

lemma seg_snoc:
  assumes sg: "seg h l xs l" and d: "distinct (l # xs)" "a \<notin> set (l # xs)" and a: "h a \<noteq> None"
  shows "\<exists>h'. LRU_Append l a h = Some h' \<and> relinked h h' \<and> seg h' l (xs @ [a]) l \<and>
    (\<forall>x. x \<notin> set (l # xs @ [a]) \<longrightarrow> nx h' x = nx h x \<and> pv h' x = pv h x) \<and> (\<forall>x. x \<noteq> l \<and> nx h' x = Some x \<longrightarrow> nx h x = Some x)"
proof -
  let ?p = "last (l # xs)"
  have p: "pv h l = Some ?p" using seg_ends(2) [OF sg] .
  have pn: "?p \<in> set (l # xs)" by (cases xs rule: rev_cases) auto
  have "nx h ?p \<noteq> None" using sg by (cases xs rule: rev_cases) auto
  then have "h ?p \<noteq> None" by (auto simp: nx_def)
  moreover have ne: "a \<noteq> l" "a \<noteq> ?p" using d(2) pn by auto
  ultimately obtain h' where h': "LRU_Append l a h = Some h'" "relinked h h'"
      "\<And>x. nx h' x = (if x = ?p then Some a else if x = a then Some l else nx h x)"
      "\<And>x. pv h' x = (if x = l then Some a else if x = a then Some ?p else pv h x)"
    using LRU_Append_ok [OF p _ _ a] by blast
  have "seg h' l (xs @ [a]) l"
  proof (cases xs rule: rev_cases)
    case Nil
    then show ?thesis using h'(3,4) ne by auto
  next
    case (snoc ys z)
    then have sg': "seg h l ys z" "seg h z [] l" using sg by auto
    have "seg h' l ys z = seg h l ys z" using d snoc h'(3,4) by (intro seg_cong) auto
    then show ?thesis using sg' snoc h'(3,4) d by auto
  qed
  then show ?thesis using h' pn ne d by auto
qed

section \<open>The simulation relation\<close>

definition lists_ok :: "'v heap \<Rightarrow> nat list \<Rightarrow> nat list \<Rightarrow> bool" where
  "lists_ok h lru use \<longleftrightarrow> seg h lru_head lru lru_head \<and> seg h in_use_head use in_use_head \<and>
     distinct (lru_head # in_use_head # lru @ use) \<and> (\<forall>x. 2 \<le> x \<longrightarrow> nx h x \<noteq> Some x)"

definition core_spec :: "'v lru_spec \<Rightarrow> nat \<Rightarrow> ('v \<times> bytes \<times> u32 \<times> nat \<times> bool) option" where
  "core_spec s a = (case s_info s a of None \<Rightarrow> None
     | Some (k, hs, v) \<Rightarrow> Some (v, k, hs, s_held s a + (if a \<in> cached s then 1 else 0), a \<in> cached s))"

lemma core_spec_cong:
  "s_info s' b = s_info s b \<Longrightarrow> s_held s' b = s_held s b \<Longrightarrow> b \<in> cached s' \<longleftrightarrow> b \<in> cached s \<Longrightarrow> core_spec s' b = core_spec s b"
  by (cases "s_info s b") (auto simp: core_spec_def)

lemma core_spec_Some:
  "s_info s a = Some (k, hs, v) \<Longrightarrow> core_spec s a = Some (v, k, hs, s_held s a + (if a \<in> cached s then 1 else 0), a \<in> cached s)"
  by (simp add: core_spec_def)

definition key_in :: "'v lru_spec \<Rightarrow> nat \<Rightarrow> (bytes \<times> u32) option" where
  "key_in s a = map_option (\<lambda>(k, hs, v). (k, hs)) (s_info s a)"

definition spec_ok :: "'v lru_spec \<Rightarrow> bool" where
  "spec_ok s \<longleftrightarrow> (\<forall>a\<in>set (s_lru s). s_held s a = 0) \<and> (\<forall>a\<in>set (s_use s). 0 < s_held s a) \<and>
     (\<forall>a. s_info s a \<noteq> None \<longleftrightarrow> a \<in> cached s \<or> 0 < s_held s a) \<and> (\<forall>a. s_info s a \<noteq> None \<longrightarrow> 2 \<le> a)"

text \<open>\<open>X\<close> is the set of entries in the hash table: the cached ones, except in the middle of an
  operation.\<close>

definition lru_rel :: "'v LRUCache \<Rightarrow> 'v lru_spec \<Rightarrow> nat set \<Rightarrow> bool" where
  "lru_rel c s X \<longleftrightarrow> spec_ok s \<and> lists_ok (heap c) (s_lru s) (s_use s) \<and> (\<forall>a\<ge>2. core (heap c) a = core_spec s a) \<and>
     table_ok (heap c) (table c) X \<and> X \<subseteq> cached s \<and> inj_on (key_in s) X \<and>
     usage c = spec_size s \<and> capacity c = s_cap s \<and> deleted c = s_deleted s"

lemma lru_relD:
  assumes "lru_rel c s X"
  shows "spec_ok s" "lists_ok (heap c) (s_lru s) (s_use s)" "\<And>a. 2 \<le> a \<Longrightarrow> core (heap c) a = core_spec s a"
    "table_ok (heap c) (table c) X" "X \<subseteq> cached s" "inj_on (key_in s) X" "usage c = spec_size s" "capacity c = s_cap s"
    "deleted c = s_deleted s"
  using assms by (auto simp: lru_rel_def)

lemma spec_ok_fresh: "spec_ok s \<Longrightarrow> s_info s a = None \<Longrightarrow> a \<notin> cached s \<and> s_held s a = 0"
  unfolding spec_ok_def by (metis gr0I)

lemma cached_ge_2: "spec_ok s \<Longrightarrow> a \<in> cached s \<Longrightarrow> 2 \<le> a" by (auto simp: spec_ok_def)

lemma rel_key_at:
  assumes "lru_rel c s X" "2 \<le> a"
  shows "key_at (heap c) a = key_in s a"
  using lru_relD(3) [OF assms] by (cases "s_info s a") (auto simp: core_key_at core_spec_def key_in_def)

lemma rel_table_facts:
  assumes "lru_rel c s X"
  shows "not_self (heap c) X" "inj_on (key_at (heap c)) X"
proof -
  have ge: "\<And>a. a \<in> X \<Longrightarrow> 2 \<le> a" using lru_relD(1,5) [OF assms] cached_ge_2 by blast
  then show "not_self (heap c) X" using lru_relD(2) [OF assms] by (auto simp: not_self_def lists_ok_def)
  show "inj_on (key_at (heap c)) X"
    using lru_relD(6) [OF assms] rel_key_at [OF assms] ge by (auto simp: inj_on_def)
qed

lemma has_key_key_in: "has_key s k hs a \<longleftrightarrow> key_in s a = Some (k, hs)"
  by (auto simp: has_key_def key_in_def split: option.splits)

lemma spec_find_None: "spec_find k hs s = None \<longleftrightarrow> (\<forall>a\<in>cached s. key_in s a \<noteq> Some (k, hs))"
  by (auto simp: spec_find_def find_None_iff has_key_key_in cached_def)

lemma spec_find_Some: "spec_find k hs s = Some a \<Longrightarrow> a \<in> cached s \<and> key_in s a = Some (k, hs)"
  by (auto simp: spec_find_def find_Some_iff has_key_key_in cached_def) (metis Un_iff nth_mem set_append length_append)+

section \<open>Operations on the lists\<close>

lemma lists_ok_cong:
  assumes "lists_ok h lru use" "\<And>x. x \<in> set (0 # 1 # lru @ use) \<Longrightarrow> nx h' x = nx h x \<and> pv h' x = pv h x"
    "\<And>x. 2 \<le> x \<Longrightarrow> nx h' x = Some x \<Longrightarrow> nx h x = Some x"
  shows "lists_ok h' lru use"
proof -
  have eq: "nx h' x = nx h x" "pv h' x = pv h x" if "x \<in> set (0 # 1 # lru @ use)" for x using assms(2) [OF that] by auto
  have "seg h' 0 lru 0 = seg h 0 lru 0" by (rule seg_cong; rule eq; auto)
  moreover have "seg h' 1 use 1 = seg h 1 use 1" by (rule seg_cong; rule eq; auto)
  ultimately show ?thesis using assms(1,3) unfolding lists_ok_def by blast
qed

lemma seg_frame:
  assumes "seg h l xs l" "\<forall>x. x \<notin> S \<longrightarrow> nx h' x = nx h x \<and> pv h' x = pv h x" "set (l # xs) \<inter> S = {}"
  shows "seg h' l xs l"
proof -
  have "nx h' x = nx h x \<and> pv h' x = pv h x" if "x \<in> set (l # xs)" for x using assms(2,3) that by blast
  then have "seg h' l xs l = seg h l xs l" by (intro seg_cong) auto
  then show ?thesis using assms(1) by simp
qed

lemma lists_remove:
  assumes ok: "lists_ok h lru use" and a: "a \<in> set lru \<union> set use"
  shows "\<exists>h'. LRU_Remove a h = Some h' \<and> relinked h h' \<and> lists_ok h' (remove1 a lru) (remove1 a use)"
proof (cases "a \<in> set lru")
  case True
  then obtain xs ys where l: "lru = xs @ a # ys" "a \<notin> set xs" by (meson split_list_first)
  have d: "distinct (0 # xs @ a # ys)" "a \<notin> set use" "1 \<notin> set (0 # xs @ ys)" "set use \<inter> set (0 # xs @ ys) = {}"
    using ok l by (auto simp: lists_ok_def)
  obtain h' where h': "LRU_Remove a h = Some h'" "relinked h h'" "seg h' 0 (xs @ ys) 0"
      "\<forall>x. x \<notin> set (0 # xs @ ys) \<longrightarrow> nx h' x = nx h x \<and> pv h' x = pv h x" "\<forall>x. x \<noteq> 0 \<and> nx h' x = Some x \<longrightarrow> nx h x = Some x"
    using seg_remove [of h 0 xs a ys] ok d(1) l by (auto simp: lists_ok_def)
  have "seg h' 1 use 1" by (rule seg_frame [OF _ h'(4)]) (use ok d(3,4) in \<open>auto simp: lists_ok_def\<close>)
  moreover have "remove1 a lru = xs @ ys" "remove1 a use = use"
    using l d(2) by (simp_all add: remove1_append remove1_idem)
  ultimately have "lists_ok h' (remove1 a lru) (remove1 a use)" using ok l h'(3,5) by (auto simp: lists_ok_def)
  then show ?thesis using h'(1,2) by blast
next
  case False
  then obtain xs ys where l: "use = xs @ a # ys" "a \<notin> set xs" using a by (metis Un_iff split_list_first)
  have d: "distinct (1 # xs @ a # ys)" "0 \<notin> set (1 # xs @ ys)" "set lru \<inter> set (1 # xs @ ys) = {}"
    using ok l by (auto simp: lists_ok_def)
  obtain h' where h': "LRU_Remove a h = Some h'" "relinked h h'" "seg h' 1 (xs @ ys) 1"
      "\<forall>x. x \<notin> set (1 # xs @ ys) \<longrightarrow> nx h' x = nx h x \<and> pv h' x = pv h x" "\<forall>x. x \<noteq> 1 \<and> nx h' x = Some x \<longrightarrow> nx h x = Some x"
    using seg_remove [of h 1 xs a ys] ok d(1) l by (auto simp: lists_ok_def)
  have "seg h' 0 lru 0" by (rule seg_frame [OF _ h'(4)]) (use ok d(2,3) in \<open>auto simp: lists_ok_def\<close>)
  moreover have "remove1 a use = xs @ ys" "remove1 a lru = lru"
    using l False by (simp_all add: remove1_append remove1_idem)
  ultimately have "lists_ok h' (remove1 a lru) (remove1 a use)" using ok l h'(3,5) by (auto simp: lists_ok_def)
  then show ?thesis using h'(1,2) by blast
qed

lemma lists_append:
  assumes ok: "lists_ok h lru use" and a: "a \<notin> set lru \<union> set use" "2 \<le> a" "h a \<noteq> None"
  shows "\<exists>h'. LRU_Append 0 a h = Some h' \<and> relinked h h' \<and> lists_ok h' (lru @ [a]) use"
    "\<exists>h'. LRU_Append 1 a h = Some h' \<and> relinked h h' \<and> lists_ok h' lru (use @ [a])"
proof -
  have a': "a \<notin> set (0 # lru)" "a \<notin> set (1 # use)" using a(1,2) by auto
  have dl: "distinct (0 # lru)" "seg h 0 lru 0" "1 \<notin> set lru" and du: "distinct (1 # use)" "seg h 1 use 1" "0 \<notin> set use"
    and dj: "set lru \<inter> set use = {}" and ns: "\<And>x. 2 \<le> x \<Longrightarrow> nx h x \<noteq> Some x"
    using ok by (auto simp: lists_ok_def)
  obtain h' where h': "LRU_Append 0 a h = Some h'" "relinked h h'" "seg h' 0 (lru @ [a]) 0"
      "\<forall>x. x \<notin> set (0 # lru @ [a]) \<longrightarrow> nx h' x = nx h x \<and> pv h' x = pv h x" "\<forall>x. x \<noteq> 0 \<and> nx h' x = Some x \<longrightarrow> nx h x = Some x"
    using seg_snoc [OF dl(2,1) a'(1) a(3)] by blast
  have "seg h' 1 use 1" by (rule seg_frame [OF du(2) h'(4)]) (use dl(3) du dj a in auto)
  moreover have "nx h' x \<noteq> Some x" if "2 \<le> x" for x using spec [OF h'(5), of x] ns [OF that] that by auto
  ultimately have "lists_ok h' (lru @ [a]) use" using h'(3) dl du dj a by (auto simp: lists_ok_def)
  then show "\<exists>h'. LRU_Append 0 a h = Some h' \<and> relinked h h' \<and> lists_ok h' (lru @ [a]) use" using h'(1,2) by blast
  obtain h' where h': "LRU_Append 1 a h = Some h'" "relinked h h'" "seg h' 1 (use @ [a]) 1"
      "\<forall>x. x \<notin> set (1 # use @ [a]) \<longrightarrow> nx h' x = nx h x \<and> pv h' x = pv h x" "\<forall>x. x \<noteq> 1 \<and> nx h' x = Some x \<longrightarrow> nx h x = Some x"
    using seg_snoc [OF du(2,1) a'(2) a(3)] by blast
  have "seg h' 0 lru 0" by (rule seg_frame [OF dl(2) h'(4)]) (use du(3) dl dj a in auto)
  moreover have "nx h' x \<noteq> Some x" if "2 \<le> x" for x using spec [OF h'(5), of x] ns [OF that] that by auto
  ultimately have "lists_ok h' lru (use @ [a])" using h'(3) dl du dj a by (auto simp: lists_ok_def)
  then show "\<exists>h'. LRU_Append 1 a h = Some h' \<and> relinked h h' \<and> lists_ok h' lru (use @ [a])" using h'(1,2) by blast
qed

lemma relinked_None: "relinked h h' \<Longrightarrow> h' a = None \<longleftrightarrow> h a = None"
  unfolding relinked_def by (metis option.map_disc_iff)

text \<open>Moving an entry to the end of a list.\<close>

lemma lists_move:
  assumes ok: "lists_ok h lru use" and a: "a \<in> set lru \<union> set use" "h a \<noteq> None"
  shows "\<exists>h1 h2. LRU_Remove a h = Some h1 \<and> LRU_Append 0 a h1 = Some h2 \<and> relinked h h2 \<and>
      lists_ok h2 (remove1 a lru @ [a]) (remove1 a use)"
    "\<exists>h1 h2. LRU_Remove a h = Some h1 \<and> LRU_Append 1 a h1 = Some h2 \<and> relinked h h2 \<and>
      lists_ok h2 (remove1 a lru) (remove1 a use @ [a])"
proof -
  obtain h1 where h1: "LRU_Remove a h = Some h1" "relinked h h1" "lists_ok h1 (remove1 a lru) (remove1 a use)"
    using lists_remove [OF ok a(1)] by blast
  have d: "distinct lru" "distinct use" "a \<noteq> 0" "a \<noteq> 1" using ok a(1) by (auto simp: lists_ok_def)
  then have a1: "a \<notin> set (remove1 a lru) \<union> set (remove1 a use)" "2 \<le> a" "h1 a \<noteq> None"
    using relinked_None [OF h1(2)] a(2) by auto
  show "\<exists>h1 h2. LRU_Remove a h = Some h1 \<and> LRU_Append 0 a h1 = Some h2 \<and> relinked h h2 \<and>
      lists_ok h2 (remove1 a lru @ [a]) (remove1 a use)"
    using lists_append(1) [OF h1(3) a1] h1(1,2) by (blast intro: relinked_trans)
  show "\<exists>h1 h2. LRU_Remove a h = Some h1 \<and> LRU_Append 1 a h1 = Some h2 \<and> relinked h h2 \<and>
      lists_ok h2 (remove1 a lru) (remove1 a use @ [a])"
    using lists_append(2) [OF h1(3) a1] h1(1,2) by (blast intro: relinked_trans)
qed

section \<open>Handles\<close>

lemma core_upd: "core (h(a := x)) b = (if b = a then map_option (\<lambda>e. (e_value e, key_data e, e_hash e, refs e, in_cache e)) x else core h b)"
  by (simp add: core_def)

lemma same_links:
  assumes "h a = Some e" "e_next e' = e_next e" "e_prev e' = e_prev e" "next_hash e' = next_hash e" "key_data e' = key_data e" "e_hash e' = e_hash e"
  shows "nx (h(a \<mapsto> e')) = nx h" "pv (h(a \<mapsto> e')) = pv h" "nh (h(a \<mapsto> e')) = nh h" "key_at (h(a \<mapsto> e')) = key_at h"
  using assms by (auto simp: nx_def pv_def nh_def key_at_def fun_eq_iff)

text \<open>The part of the relation that does not speak of the abstract state changes with it.\<close>

lemma rel_intro:
  assumes rel: "lru_rel c s X" and h: "lists_ok h (s_lru s') (s_use s')" "\<And>a. 2 \<le> a \<Longrightarrow> core h a = core_spec s' a"
      "\<And>a. a \<in> X \<Longrightarrow> nh h a = nh (heap c) a" "\<And>a. a \<in> X \<Longrightarrow> s_info s' a = s_info s a"
    and s': "spec_ok s'" "X \<subseteq> cached s'" "s_cap s' = s_cap s"
    and c': "heap c' = h" "table c' = table c" "usage c' = spec_size s'" "capacity c' = capacity c" "deleted c' = s_deleted s'"
  shows "lru_rel c' s' X"
proof -
  have ge: "\<And>a. a \<in> X \<Longrightarrow> 2 \<le> a" using lru_relD(1,5) [OF rel] cached_ge_2 by blast
  have ki: "key_in s' a = key_in s a" if "a \<in> X" for a using h(4) [OF that] by (simp add: key_in_def)
  have "key_at h a = key_in s' a" if "2 \<le> a" for a
    using h(2) [OF that] by (cases "s_info s' a") (auto simp: core_key_at core_spec_def key_in_def)
  then have "key_at h a = key_at (heap c) a" if "a \<in> X" for a using that ge rel_key_at [OF rel] ki by simp
  then have "table_ok h (table c) X" using table_ok_cong [OF lru_relD(4) [OF rel]] h(3) by blast
  moreover have "inj_on (key_in s') X" using lru_relD(6) [OF rel] ki by (simp add: inj_on_def)
  ultimately show ?thesis using assms lru_relD(8) [OF rel] by (simp add: lru_rel_def)
qed

lemma rel_entry:
  assumes "lru_rel c s X" "s_info s a \<noteq> None"
  obtains e where "heap c a = Some e" "s_info s a = Some (key_data e, e_hash e, e_value e)"
    "refs e = s_held s a + (if a \<in> cached s then 1 else 0)" "in_cache e \<longleftrightarrow> a \<in> cached s" "2 \<le> a" "e_next e \<noteq> a"
proof -
  have a: "2 \<le> a" using lru_relD(1) [OF assms(1)] assms(2) by (auto simp: spec_ok_def)
  obtain k hs v where i: "s_info s a = Some (k, hs, v)" using assms(2) by (cases "s_info s a") auto
  obtain e where e: "heap c a = Some e" "e_value e = v" "key_data e = k" "e_hash e = hs"
      "refs e = s_held s a + (if a \<in> cached s then 1 else 0)" "in_cache e = (a \<in> cached s)"
    using lru_relD(3) [OF assms(1) a] i unfolding core_spec_def by (auto simp: core_Some split: if_splits)
  have "e_next e \<noteq> a" using lru_relD(2) [OF assms(1)] a e(1) by (auto simp: lists_ok_def nx_def)
  then show ?thesis using that e i a by blast
qed

lemma cached_remove1:
  assumes "lists_ok h (s_lru s) (s_use s)"
  shows "set (remove1 a (s_lru s)) = set (s_lru s) - {a}" "set (remove1 a (s_use s)) = set (s_use s) - {a}"
    "set (s_lru s) \<inter> set (s_use s) = {}" "distinct (s_lru s)" "distinct (s_use s)"
  using assms by (auto simp: lists_ok_def)

lemma Ref_ok:
  assumes rel: "lru_rel c s X" and a: "a \<in> cached s"
  shows "\<exists>c'. Ref a c = Some c' \<and> lru_rel c' (spec_hold a s) X"
proof -
  note D = lru_relD [OF rel] and L = cached_remove1 [OF lru_relD(2) [OF rel]]
  have "s_info s a \<noteq> None" using D(1) a by (simp add: spec_ok_def)
  then obtain e where e: "heap c a = Some e" "s_info s a = Some (key_data e, e_hash e, e_value e)"
      "refs e = s_held s a + (if a \<in> cached s then 1 else 0)" "in_cache e \<longleftrightarrow> a \<in> cached s" "2 \<le> a" "e_next e \<noteq> a"
    by (rule rel_entry [OF rel])
  have ca: "cached (spec_hold a s) = cached s" using L a by (auto simp: cached_def spec_hold_def)
  have ok: "spec_ok (spec_hold a s)"
    unfolding spec_ok_def ca
  proof (intro conjI ballI allI impI)
    show "s_held (spec_hold a s) b = 0" if "b \<in> set (s_lru (spec_hold a s))" for b
      using D(1) L(1) that by (auto simp: spec_ok_def spec_hold_def)
    show "0 < s_held (spec_hold a s) b" if "b \<in> set (s_use (spec_hold a s))" for b
      using D(1) that by (auto simp: spec_ok_def spec_hold_def split: if_splits)
    show "s_info (spec_hold a s) b \<noteq> None \<longleftrightarrow> b \<in> cached s \<or> 0 < s_held (spec_hold a s) b" for b
      using D(1) a by (auto simp: spec_ok_def spec_hold_def)
    show "2 \<le> b" if "s_info (spec_hold a s) b \<noteq> None" for b using D(1) that by (auto simp: spec_ok_def spec_hold_def)
  qed
  obtain h where h: "relinked (heap c) h" "lists_ok h (s_lru (spec_hold a s)) (s_use (spec_hold a s))"
      "(if refs e = 1 \<and> in_cache e then do { h \<leftarrow> LRU_Remove a (heap c); LRU_Append in_use_head a h } else Some (heap c)) = Some h"
  proof (cases "a \<in> set (s_lru s)")
    case True
    then have r1: "refs e = 1" using e(3) a D(1) by (simp add: spec_ok_def)
    have nu: "remove1 a (s_use s) = s_use s" using L(3) True by (intro remove1_idem) auto
    obtain h1 h2 where "LRU_Remove a (heap c) = Some h1" "LRU_Append 1 a h1 = Some h2" "relinked (heap c) h2"
        "lists_ok h2 (remove1 a (s_lru s)) (remove1 a (s_use s) @ [a])"
      using lists_move(2) [OF D(2), of a] True e(1) by auto
    then show ?thesis using that [of h2] True e(4) a r1 nu by (simp add: spec_hold_def)
  next
    case False
    then have "a \<in> set (s_use s)" using a by (simp add: cached_def)
    then have "refs e \<noteq> 1" using e(3) a D(1) by (simp add: spec_ok_def)
    then show ?thesis using that [of "heap c"] False D(2) by (simp add: spec_hold_def remove1_idem)
  qed
  obtain e' where e': "h a = Some e'" "core h a = core (heap c) a"
    using relinked_core(1) [OF h(1), of a] relinked_None [OF h(1), of a] e by (cases "h a") auto
  define e2 where "e2 = e'\<lparr>refs := refs e' + 1\<rparr>"
  let ?h = "h(a \<mapsto> e2)"
  have Ref: "Ref a c = Some (c\<lparr>heap := ?h\<rparr>)" using e(1) h(3) e'(1) by (simp add: Ref_def e2_def)
  have links: "nx ?h = nx h" "pv ?h = pv h" "nh ?h = nh h"
    using same_links [of h a e' e2] e'(1) by (simp_all add: e2_def)
  have "lru_rel (c\<lparr>heap := ?h\<rparr>) (spec_hold a s) X"
  proof (rule rel_intro [OF rel _ _ _ _ ok])
    show "lists_ok ?h (s_lru (spec_hold a s)) (s_use (spec_hold a s))"
      by (rule lists_ok_cong [OF h(2)]) (simp_all add: links)
    show "core ?h b = core_spec (spec_hold a s) b" if "2 \<le> b" for b
    proof (cases "b = a")
      case True
      have "s_info (spec_hold a s) a = Some (key_data e, e_hash e, e_value e)" "s_held (spec_hold a s) a = s_held s a + 1"
        using e(2) by (simp_all add: spec_hold_def)
      then show ?thesis using core_spec_Some [of "spec_hold a s" a] True e e' a by (auto simp: core_upd ca core_def e2_def)
    next
      case False
      then have "core_spec (spec_hold a s) b = core_spec s b" by (intro core_spec_cong) (simp_all add: ca, simp_all add: spec_hold_def)
      then show ?thesis using False D(3) [OF that] relinked_core(1) [OF h(1), of b] by (simp add: core_upd)
    qed
    show "nh ?h b = nh (heap c) b" for b using links relinked_core(2) [OF h(1)] by simp
    show "usage (c\<lparr>heap := ?h\<rparr>) = spec_size (spec_hold a s)"
      using D(7) length_pos_if_in_set [of a "s_lru s"] by (simp add: spec_size_def spec_hold_def length_remove1)
  qed (use D ca in \<open>auto simp: spec_hold_def\<close>)
  then show ?thesis using Ref by blast
qed

text \<open>Freeing an entry that is in no list.\<close>

lemma lists_free: "lists_ok h lru use \<Longrightarrow> a \<notin> set (0 # 1 # lru @ use) \<Longrightarrow> lists_ok (h(a := None)) lru use"
  by (rule lists_ok_cong [of h]) (auto simp: nx_def pv_def split: if_splits)

lemma Unref_eq:
  assumes "heap c a = Some e" "0 < refs e" "e1 = e\<lparr>refs := refs e - 1\<rparr>" "h1 = (heap c)(a \<mapsto> e1)"
  shows "Unref a c =
    (if refs e1 = 0 then do {
       assert (\<not> in_cache e1);
       k \<leftarrow> entry_key a h1;
       Some (c\<lparr>heap := h1(a := None), deleted := deleted c @ [(k, e_value e1)]\<rparr>) }
     else if in_cache e1 \<and> refs e1 = 1 then do {
       h \<leftarrow> LRU_Remove a h1;
       h \<leftarrow> LRU_Append lru_head a h;
       Some (c\<lparr>heap := h\<rparr>) }
     else Some (c\<lparr>heap := h1\<rparr>))"
  using assms by (simp add: Unref_def)

definition spec_drop :: "nat \<Rightarrow> 'v lru_spec \<Rightarrow> 'v lru_spec" where
  "spec_drop a s = s\<lparr>s_held := (s_held s)(a := s_held s a - 1)\<rparr>"

lemma spec_release_eq:
  "spec_release a s = (let s' = spec_drop a s in
     if s_held s' a \<noteq> 0 then s'
     else if a \<in> set (s_use s) then s'\<lparr>s_use := remove1 a (s_use s), s_lru := s_lru s @ [a]\<rparr> else spec_delete a s')"
  by (simp add: spec_release_def spec_drop_def Let_def)

lemma Release_ok:
  assumes rel: "lru_rel c s X" and a: "0 < s_held s a"
  shows "\<exists>c'. Release a c = Some c' \<and> lru_rel c' (spec_release a s) X"
proof -
  note D = lru_relD [OF rel] and L = cached_remove1 [OF lru_relD(2) [OF rel]]
  have "s_info s a \<noteq> None" using D(1) a by (simp add: spec_ok_def)
  then obtain e where e: "heap c a = Some e" "s_info s a = Some (key_data e, e_hash e, e_value e)"
      "refs e = s_held s a + (if a \<in> cached s then 1 else 0)" "in_cache e \<longleftrightarrow> a \<in> cached s" "2 \<le> a" "e_next e \<noteq> a"
    by (rule rel_entry [OF rel])
  define e1 where "e1 = e\<lparr>refs := refs e - 1\<rparr>"
  define h1 where "h1 = (heap c)(a \<mapsto> e1)"
  have h1: "h1 a = Some e1" by (simp add: h1_def)
  have links: "nx h1 = nx (heap c)" "pv h1 = pv (heap c)" "nh h1 = nh (heap c)"
    using same_links [of "heap c" a e e1] e(1) by (simp_all add: h1_def e1_def)
  have l1: "lists_ok h1 (s_lru s) (s_use s)" by (rule lists_ok_cong [OF D(2)]) (simp_all add: links)
  have core1: "core h1 b = (if b = a then Some (e_value e, key_data e, e_hash e, refs e - 1, in_cache e) else core_spec s b)" if "2 \<le> b" for b
    using D(3) [OF that] by (simp add: h1_def core_upd e1_def)
  have nl: "a \<notin> set (s_lru s)" using D(1) a by (auto simp: spec_ok_def)
  have "0 < refs e" using e(3) a by simp
  note U = Unref_eq [OF e(1) this e1_def h1_def]
  show ?thesis
  proof (cases "s_held s a = 1")
    case False
    have s': "spec_release a s = spec_drop a s" "cached (spec_drop a s) = cached s"
      using False a by (simp_all add: spec_release_def spec_drop_def Let_def cached_def)
    have r: "refs e1 \<noteq> 0" "\<not> (in_cache e1 \<and> refs e1 = 1)" using e(3,4) False a by (auto simp: e1_def)
    then have R: "Release a c = Some (c\<lparr>heap := h1\<rparr>)"
      unfolding Release_def U by auto
    have "lru_rel (c\<lparr>heap := h1\<rparr>) (spec_drop a s) X"
    proof (rule rel_intro [OF rel])
      show "core h1 b = core_spec (spec_drop a s) b" if "2 \<le> b" for b
      proof (cases "b = a")
        case True
        have "s_info (spec_drop a s) a = Some (key_data e, e_hash e, e_value e)" "s_held (spec_drop a s) a = s_held s a - 1"
          using e(2) by (simp_all add: spec_drop_def)
        then show ?thesis using core_spec_Some [of "spec_drop a s" a] True core1 [OF that] e a by (auto simp: s'(2))
      next
        case False
        then have "core_spec (spec_drop a s) b = core_spec s b" by (intro core_spec_cong) (simp_all add: s'(2), simp_all add: spec_drop_def)
        then show ?thesis using False core1 [OF that] by simp
      qed
      show "spec_ok (spec_drop a s)"
        using D(1) False a nl unfolding spec_ok_def s'(2) by (auto simp: spec_drop_def)
    qed (use D l1 links s' in \<open>auto simp: spec_drop_def spec_size_def cached_def\<close>)
    then show ?thesis using R s'(1) by auto
  next
    case one: True
    show ?thesis
    proof (cases "a \<in> cached s")
      case True
      then have u: "a \<in> set (s_use s)" using nl by (simp add: cached_def)
      let ?s = "s\<lparr>s_held := (s_held s)(a := 0), s_use := remove1 a (s_use s), s_lru := s_lru s @ [a]\<rparr>"
      have s': "spec_release a s = ?s" using one u by (simp add: spec_release_def Let_def)
      have ca: "cached ?s = cached s" using L u by (auto simp: cached_def)
      obtain h2 h3 where h: "LRU_Remove a h1 = Some h2" "LRU_Append 0 a h2 = Some h3" "relinked h1 h3"
          "lists_ok h3 (s_lru s @ [a]) (remove1 a (s_use s))"
        using lists_move(1) [OF l1, of a] u h1 nl by (auto simp: remove1_idem)
      have "refs e1 = 1" "in_cache e1" using e(3,4) one True by (auto simp: e1_def)
      then have R: "Release a c = Some (c\<lparr>heap := h3\<rparr>)"
        unfolding Release_def U using h(1,2) by simp
      have "lru_rel (c\<lparr>heap := h3\<rparr>) ?s X"
      proof (rule rel_intro [OF rel])
        show "core h3 b = core_spec ?s b" if "2 \<le> b" for b
        proof (cases "b = a")
          case ba: True
          then show ?thesis
            using core_spec_Some [of ?s a] core1 [OF that] relinked_core(1) [OF h(3), of b] e one True by (auto simp: ca)
        next
          case False
          then have "core_spec ?s b = core_spec s b" by (intro core_spec_cong) (simp_all add: ca)
          then show ?thesis using False core1 [OF that] relinked_core(1) [OF h(3), of b] by simp
        qed
        show "nh h3 b = nh (heap c) b" for b using relinked_core(2) [OF h(3)] links by simp
        show "spec_ok ?s" using D(1) L u one unfolding spec_ok_def ca by (auto simp: cached_def)
        show "usage (c\<lparr>heap := h3\<rparr>) = spec_size ?s"
          using D(7) u length_pos_if_in_set [OF u] by (simp add: spec_size_def length_remove1)
      qed (use D h(4) ca in auto)
      then show ?thesis using R s' by auto
    next
      case False
      let ?s = "s\<lparr>s_held := (s_held s)(a := 0), s_info := (s_info s)(a := None), s_deleted := s_deleted s @ [(key_data e, e_value e)]\<rparr>"
      have nu: "a \<notin> set (s_use s)" using False by (simp add: cached_def)
      have s': "spec_release a s = ?s" using one nu e(2) by (simp add: spec_release_def spec_delete_def Let_def)
      have ca: "cached ?s = cached s" by (simp add: cached_def)
      have "refs e1 = 0" "\<not> in_cache e1" "entry_key a h1 = Some (key_data e)"
        using e one False h1 by (auto simp: e1_def entry_key_def)
      then have R: "Release a c = Some (c\<lparr>heap := h1(a := None), deleted := deleted c @ [(key_data e, e_value e)]\<rparr>)"
        unfolding Release_def U by (simp add: e1_def)
      have aX: "a \<notin> X" using D(5) False by auto
      have "lru_rel (c\<lparr>heap := h1(a := None), deleted := deleted c @ [(key_data e, e_value e)]\<rparr>) ?s X"
      proof (rule rel_intro [OF rel])
        show "lists_ok (h1(a := None)) (s_lru ?s) (s_use ?s)" using lists_free [OF l1, of a] nl nu e(5) by simp
        show "core (h1(a := None)) b = core_spec ?s b" if "2 \<le> b" for b
        proof (cases "b = a")
          case True
          then show ?thesis by (simp add: core_upd core_spec_def)
        next
          case False
          then have "core_spec ?s b = core_spec s b" by (intro core_spec_cong) (simp_all add: ca)
          then show ?thesis using False core1 [OF that] by (simp add: core_upd)
        qed
        show "nh (h1(a := None)) b = nh (heap c) b" if "b \<in> X" for b
          using aX that fun_cong [OF links(3), of b] by (auto simp: nh_def)
        show "spec_ok ?s" using D(1) one False unfolding spec_ok_def ca by (auto simp: cached_def)
      qed (use D aX ca in \<open>auto simp: spec_size_def\<close>)
      then show ?thesis using R s' by auto
    qed
  qed
qed

section \<open>Leaving the cache\<close>

text \<open>An entry that has left the hash table leaves the lists, and the heap unless a client holds it.\<close>

lemma FinishErase_ok:
  assumes rel: "lru_rel c s X" and b: "b \<in> cached s" "b \<notin> X"
  shows "\<exists>c'. FinishErase (Some b) c = Some (True, c') \<and> lru_rel c' (spec_detach b s) X"
proof -
  note D = lru_relD [OF rel] and L = cached_remove1 [OF lru_relD(2) [OF rel]]
  have "s_info s b \<noteq> None" using D(1) b by (simp add: spec_ok_def)
  then obtain e where e: "heap c b = Some e" "s_info s b = Some (key_data e, e_hash e, e_value e)"
      "refs e = s_held s b + (if b \<in> cached s then 1 else 0)" "in_cache e \<longleftrightarrow> b \<in> cached s" "2 \<le> b" "e_next e \<noteq> b"
    by (rule rel_entry [OF rel])
  let ?s = "s\<lparr>s_lru := remove1 b (s_lru s), s_use := remove1 b (s_use s)\<rparr>"
  have ca: "cached ?s = cached s - {b}" using L by (auto simp: cached_def)
  obtain h1 where h1: "LRU_Remove b (heap c) = Some h1" "relinked (heap c) h1" "lists_ok h1 (s_lru ?s) (s_use ?s)"
    using lists_remove [OF D(2), of b] b by (auto simp: cached_def)
  obtain e1 where e1: "h1 b = Some e1" "core h1 b = core (heap c) b"
    using relinked_core(1) [OF h1(2), of b] relinked_None [OF h1(2), of b] e by (cases "h1 b") auto
  have f1: "e_value e1 = e_value e" "key_data e1 = key_data e" "refs e1 = refs e" "e_hash e1 = e_hash e"
    using e1 e(1) by (auto simp: core_def)
  have "e_next e1 \<noteq> b" using h1(3) e1(1) e(5) by (auto simp: lists_ok_def nx_def)
  define e2 where "e2 = e1\<lparr>in_cache := False\<rparr>"
  define e3 where "e3 = e2\<lparr>refs := refs e2 - 1\<rparr>"
  define c2 where "c2 = c\<lparr>heap := h1(b \<mapsto> e2), usage := usage c - 1\<rparr>"
  define h3 where "h3 = (heap c2)(b \<mapsto> e3)"
  have h3: "h3 = h1(b \<mapsto> e3)" "h3 b = Some e3" by (auto simp: h3_def c2_def)
  have e3: "refs e3 = s_held s b" "\<not> in_cache e3" "e_value e3 = e_value e" "entry_key b h3 = Some (key_data e)" "key_data e3 = key_data e"
      "e_hash e3 = e_hash e"
    using f1 e(3) b(1) \<open>e_next e1 \<noteq> b\<close> h3(2) by (auto simp: e3_def e2_def entry_key_def)
  have "FinishErase (Some b) c = do { c \<leftarrow> Unref b c2; Some (True, c) }"
    using e(1,4) b(1) h1(1) e1(1) by (simp add: e2_def c2_def)
  moreover have "Unref b c2 = (if refs e3 = 0 then
      Some (c2\<lparr>heap := h3(b := None), deleted := deleted c2 @ [(key_data e, e_value e)]\<rparr>) else Some (c2\<lparr>heap := h3\<rparr>))"
  proof -
    have "heap c2 b = Some e2" "0 < refs e2" using f1(3) e(3) b(1) by (simp_all add: c2_def e2_def)
    from Unref_eq [OF this e3_def h3_def] show ?thesis by (simp add: e3(2-4))
  qed
  ultimately have F: "FinishErase (Some b) c = Some (True, if refs e3 = 0 then
      c2\<lparr>heap := h3(b := None), deleted := deleted c2 @ [(key_data e, e_value e)]\<rparr> else c2\<lparr>heap := h3\<rparr>)"
    by simp
  have links: "nx h3 = nx h1" "pv h3 = pv h1" "nh h3 = nh h1"
    using same_links [of h1 b e1 e3] e1(1) by (simp_all add: h3(1) e3_def e2_def)
  have l3: "lists_ok h3 (s_lru ?s) (s_use ?s)" by (rule lists_ok_cong [OF h1(3)]) (simp_all add: links)
  have core3: "core h3 a = core_spec ?s a" if "2 \<le> a" "a \<noteq> b" for a
  proof -
    have "core_spec ?s a = core_spec s a" using that by (intro core_spec_cong) (simp_all add: ca)
    then show ?thesis using that D(3) relinked_core(1) [OF h1(2), of a] by (simp add: h3(1) core_upd)
  qed
  have nb: "b \<notin> set (s_lru ?s) \<union> set (s_use ?s)" using L by auto
  have sz: "usage c - 1 = spec_size ?s"
    using D(7) b(1) L(3) length_pos_if_in_set [of b "s_lru s"] length_pos_if_in_set [of b "s_use s"]
    by (auto simp: spec_size_def cached_def length_remove1 neq_Nil_conv)
  have XX: "X \<subseteq> cached ?s" using D(5) b(2) ca by auto
  show ?thesis
  proof (cases "s_held s b = 0")
    case True
    let ?s' = "?s\<lparr>s_info := (s_info s)(b := None), s_deleted := s_deleted s @ [(key_data e, e_value e)]\<rparr>"
    have s': "spec_detach b s = ?s'" using True e(2) by (simp add: spec_detach_def spec_delete_def Let_def)
    have ca': "cached ?s' = cached s - {b}" using ca by (simp add: cached_def)
    have "lru_rel (c2\<lparr>heap := h3(b := None), deleted := deleted c2 @ [(key_data e, e_value e)]\<rparr>) ?s' X"
    proof (rule rel_intro [OF rel])
      show "lists_ok (h3(b := None)) (s_lru ?s') (s_use ?s')" using lists_free [OF l3, of b] nb e(5) by simp
      show "core (h3(b := None)) a = core_spec ?s' a" if "2 \<le> a" for a
      proof (cases "a = b")
        case False
        then have "core_spec ?s' a = core_spec ?s a" by (intro core_spec_cong) (simp_all add: ca ca')
        then show ?thesis using False core3 [OF that] by (simp add: core_upd)
      qed (simp add: core_upd core_spec_def)
      show "nh (h3(b := None)) a = nh (heap c) a" if "a \<in> X" for a
        using b(2) that fun_cong [OF links(3), of a] relinked_core(2) [OF h1(2), of a] by (auto simp: nh_def)
      show "spec_ok ?s'" using D(1) True L unfolding spec_ok_def ca' by auto
    qed (use D b(2) sz XX ca ca' in \<open>auto simp: c2_def spec_size_def\<close>)
    then show ?thesis using F True e3(1) s' by simp
  next
    case False
    have s': "spec_detach b s = ?s" using False by (simp add: spec_detach_def Let_def)
    have "lru_rel (c2\<lparr>heap := h3\<rparr>) ?s X"
    proof (rule rel_intro [OF rel _ _ _ _ _ XX])
      show "core h3 a = core_spec ?s a" if "2 \<le> a" for a
      proof (cases "a = b")
        case True
        then show ?thesis using core_spec_Some [of ?s b] e(2) e3 h3 by (auto simp: core_def ca)
      qed (use core3 that in blast)
      show "nh h3 a = nh (heap c) a" for a
        using fun_cong [OF links(3), of a] relinked_core(2) [OF h1(2), of a] by simp
      show "spec_ok ?s" using D(1) False L unfolding spec_ok_def ca by auto
    qed (use D l3 sz in \<open>auto simp: c2_def\<close>)
    then show ?thesis using F False e3(1) s' by simp
  qed
qed

section \<open>The operations\<close>

lemma rel_rehashed:
  assumes rel: "lru_rel c s X" and "rehashed (heap c) h" "table_ok h t Y" "Y \<subseteq> cached s" "inj_on (key_in s) Y"
  shows "lru_rel (c\<lparr>heap := h, table := t\<rparr>) s Y"
proof -
  note D = lru_relD [OF rel] and R = rehashed_fields [OF assms(2)]
  have "lists_ok h (s_lru s) (s_use s)" by (rule lists_ok_cong [OF D(2)]) (simp_all add: R)
  then show ?thesis using D assms rehashed_core [OF assms(2)] by (simp add: lru_rel_def)
qed

lemma find_unique:
  assumes "lru_rel c s (cached s)" "a \<in> cached s" "key_in s a = Some (k, hs)"
  shows "spec_find k hs s = Some a"
proof -
  obtain b where b: "spec_find k hs s = Some b"
    using assms(2,3) spec_find_None [of k hs s] by (cases "spec_find k hs s") auto
  then show ?thesis
    using spec_find_Some [OF b] assms(2,3) inj_onD [OF lru_relD(6) [OF assms(1)], of b a] by simp
qed

lemma Lookup_ok:
  assumes rel: "lru_rel c s (cached s)"
  shows "\<exists>c'. Lookup k hs c = Some (fst (spec_lookup k hs s), c') \<and>
    lru_rel c' (snd (spec_lookup k hs s)) (cached (snd (spec_lookup k hs s)))"
proof (cases "spec_find k hs s")
  case None
  have "key_at (heap c) a \<noteq> Some (k, hs)" if "a \<in> cached s" for a
    using None that rel_key_at [OF rel] cached_ge_2 [OF lru_relD(1) [OF rel] that] by (simp add: spec_find_None)
  then have "HT_Lookup k hs (heap c) (table c) = Some None"
    using HT_Lookup_miss [OF lru_relD(4) [OF rel] rel_table_facts(1) [OF rel]] by blast
  then show ?thesis using None rel by (simp add: Lookup_def spec_lookup_def)
next
  case (Some a)
  then have a: "a \<in> cached s" "key_at (heap c) a = Some (k, hs)"
    using spec_find_Some [OF Some] rel_key_at [OF rel] cached_ge_2 [OF lru_relD(1) [OF rel]] by auto
  have "HT_Lookup k hs (heap c) (table c) = Some (Some a)"
    using HT_Lookup_hit [OF lru_relD(4) [OF rel] rel_table_facts [OF rel] a] .
  moreover obtain c' where "Ref a c = Some c'" "lru_rel c' (spec_hold a s) (cached s)"
    using Ref_ok [OF rel a(1)] by blast
  moreover have "cached (spec_hold a s) = cached s"
    using cached_remove1 [OF lru_relD(2) [OF rel]] a(1) by (auto simp: cached_def spec_hold_def)
  ultimately show ?thesis using Some by (simp add: Lookup_def spec_lookup_def)
qed

lemma cached_detach:
  assumes "lists_ok h (s_lru s) (s_use s)"
  shows "cached (spec_detach a s) = cached s - {a}"
  using cached_remove1 [OF assms] by (auto simp: cached_def spec_detach_def spec_delete_def Let_def split: option.splits)

lemma remove_and_finish:
  assumes rel: "lru_rel c s (cached s)" and a: "a \<in> cached s" "key_in s a = Some (k, hs)"
  shows "\<exists>h t c'. HT_Remove k hs (heap c) (table c) = Some (Some a, h, t) \<and>
    FinishErase (Some a) (c\<lparr>heap := h, table := t\<rparr>) = Some (True, c') \<and>
    lru_rel c' (spec_detach a s) (cached (spec_detach a s))"
proof -
  note D = lru_relD [OF rel]
  have "key_at (heap c) a = Some (k, hs)" using a rel_key_at [OF rel] cached_ge_2 [OF D(1)] by simp
  then obtain h t where h: "HT_Remove k hs (heap c) (table c) = Some (Some a, h, t)" "rehashed (heap c) h" "table_ok h t (cached s - {a})"
    using HT_Remove_hit [OF D(4) rel_table_facts [OF rel] a(1)] by blast
  have "lru_rel (c\<lparr>heap := h, table := t\<rparr>) s (cached s - {a})"
    using rel_rehashed [OF rel h(2,3)] D(6) by (auto intro: inj_on_subset)
  from FinishErase_ok [OF this a(1)] h(1) cached_detach [OF D(2)] show ?thesis by auto
qed

lemma Erase_ok:
  assumes rel: "lru_rel c s (cached s)"
  shows "\<exists>c'. Erase k hs c = Some c' \<and> lru_rel c' (spec_erase k hs s) (cached (spec_erase k hs s))"
proof (cases "spec_find k hs s")
  case None
  have "key_at (heap c) a \<noteq> Some (k, hs)" if "a \<in> cached s" for a
    using None that rel_key_at [OF rel] cached_ge_2 [OF lru_relD(1) [OF rel] that] by (simp add: spec_find_None)
  then have "HT_Remove k hs (heap c) (table c) = Some (None, heap c, table c)"
    using HT_Remove_miss [OF lru_relD(4) [OF rel] rel_table_facts(1) [OF rel]] by blast
  then show ?thesis using None rel by (simp add: Erase_def spec_erase_def)
next
  case (Some a)
  then show ?thesis using remove_and_finish [OF rel, of a k hs] spec_find_Some [OF Some]
    by (auto simp: Erase_def spec_erase_def simp del: FinishErase.simps)
qed

lemma lru_first:
  assumes "lru_rel c s X"
  shows "\<exists>l. heap c 0 = Some l \<and> (e_next l \<noteq> 0 \<longleftrightarrow> s_lru s \<noteq> []) \<and> (s_lru s \<noteq> [] \<longrightarrow> e_next l = hd (s_lru s))"
proof -
  have "seg (heap c) 0 (s_lru s) 0" "0 \<notin> set (s_lru s)" using lru_relD(2) [OF assms] by (auto simp: lists_ok_def)
  then show ?thesis by (cases "s_lru s") (auto simp: nx_Some)
qed

lemma erase_oldest_ok:
  assumes rel: "lru_rel c s (cached s)" and "s_lru s = a # as"
  shows "\<exists>c'. erase_oldest a c = Some c' \<and> lru_rel c' (spec_detach a s) (cached (spec_detach a s))"
proof -
  have a: "a \<in> cached s" "s_held s a = 0" using assms(2) lru_relD(1) [OF rel] by (auto simp: cached_def spec_ok_def)
  have "s_info s a \<noteq> None" using lru_relD(1) [OF rel] a by (simp add: spec_ok_def)
  then obtain e where e: "heap c a = Some e" "s_info s a = Some (key_data e, e_hash e, e_value e)"
      "refs e = s_held s a + (if a \<in> cached s then 1 else 0)" "in_cache e \<longleftrightarrow> a \<in> cached s" "2 \<le> a" "e_next e \<noteq> a"
    by (rule rel_entry [OF rel])
  have "key_in s a = Some (key_data e, e_hash e)" using e(2) by (simp add: key_in_def)
  from remove_and_finish [OF rel a(1) this] obtain h t c' where
    "HT_Remove (key_data e) (e_hash e) (heap c) (table c) = Some (Some a, h, t)"
    "FinishErase (Some a) (c\<lparr>heap := h, table := t\<rparr>) = Some (True, c')" "lru_rel c' (spec_detach a s) (cached (spec_detach a s))" by blast
  moreover have "entry_key a (heap c) = Some (key_data e)" using e by (simp add: entry_key_def)
  ultimately show ?thesis using e(1,3) a by (simp add: erase_oldest_def del: FinishErase.simps)
qed

lemma detach_head:
  assumes "lists_ok h (s_lru s) (s_use s)" "s_lru s = a # as"
  shows "s_lru (spec_detach a s) = as" "s_use (spec_detach a s) = s_use s" "s_cap (spec_detach a s) = s_cap s"
  using cached_remove1 [OF assms(1)] assms(2)
  by (auto simp: spec_detach_def spec_delete_def Let_def remove1_idem split: option.splits)

lemma evict_loop_ok:
  assumes "lru_rel c s (cached s)"
  shows "\<exists>c'. evict_loop c = Some c' \<and> lru_rel c' (spec_evict s) (cached (spec_evict s))"
  using assms
proof (induction "s_lru s" arbitrary: c s)
  case Nil
  obtain l where "heap c 0 = Some l" "e_next l = 0" using lru_first [OF Nil.prems] Nil.hyps by auto
  then show ?case using Nil by (subst evict_loop.simps) (simp add: spec_evict_def)
next
  case (Cons a as)
  note D = lru_relD [OF Cons.prems] and H = detach_head [OF lru_relD(2) [OF Cons.prems] Cons.hyps(2) [symmetric]]
  obtain l where l: "heap c 0 = Some l" "e_next l = a" "a \<noteq> 0" using lru_first [OF Cons.prems] Cons.hyps(2) [symmetric] by auto
  show ?case
  proof (cases "s_cap s < spec_size s")
    case True
    obtain c1 where c1: "erase_oldest a c = Some c1" "lru_rel c1 (spec_detach a s) (cached (spec_detach a s))"
      using erase_oldest_ok [OF Cons.prems Cons.hyps(2) [symmetric]] by blast
    from Cons.hyps(1) [OF H(1) [symmetric] c1(2)] obtain c' where c': "evict_loop c1 = Some c'"
      "lru_rel c' (spec_evict (spec_detach a s)) (cached (spec_evict (spec_detach a s)))" by blast
    have "spec_size s = Suc (spec_size (spec_detach a s))" using H Cons.hyps(2) [symmetric] by (simp add: spec_size_def)
    then have "spec_evict (spec_detach a s) = spec_evict s"
      using True H Cons.hyps(2) [symmetric] by (simp add: spec_evict_def Suc_diff_le)
    then show ?thesis using c' c1 l D(7,8) True by (subst evict_loop.simps) simp
  next
    case False
    then show ?thesis using l D(7,8) Cons.prems by (subst evict_loop.simps) (simp add: spec_evict_def)
  qed
qed

lemma Prune_ok:
  assumes "lru_rel c s (cached s)"
  shows "\<exists>c'. Prune c = Some c' \<and> lru_rel c' (spec_prune s) (cached (spec_prune s))"
  using assms
proof (induction "s_lru s" arbitrary: c s)
  case Nil
  obtain l where "heap c 0 = Some l" "e_next l = 0" using lru_first [OF Nil.prems] Nil.hyps by auto
  then show ?case using Nil by (subst Prune.simps) (simp add: spec_prune_def)
next
  case (Cons a as)
  note H = detach_head [OF lru_relD(2) [OF Cons.prems] Cons.hyps(2) [symmetric]]
  obtain l where l: "heap c 0 = Some l" "e_next l = a" "a \<noteq> 0" using lru_first [OF Cons.prems] Cons.hyps(2) [symmetric] by auto
  obtain c1 where c1: "erase_oldest a c = Some c1" "lru_rel c1 (spec_detach a s) (cached (spec_detach a s))"
    using erase_oldest_ok [OF Cons.prems Cons.hyps(2) [symmetric]] by blast
  from Cons.hyps(1) [OF H(1) [symmetric] c1(2)] obtain c' where c': "Prune c1 = Some c'"
    "lru_rel c' (spec_prune (spec_detach a s)) (cached (spec_prune (spec_detach a s)))" by blast
  have "spec_prune (spec_detach a s) = spec_prune s" using H Cons.hyps(2) [symmetric] by (simp add: spec_prune_def)
  then show ?case using c' c1 l by (subst Prune.simps) simp
qed

lemma Insert_links:
  assumes rel: "lru_rel c s (cached s)" and a: "2 \<le> a" "s_info s a = None"
    and e: "e = \<lparr>e_value = v, next_hash = None, e_next = 0, e_prev = 0, key_data = k, refs = 2, e_hash = hs, in_cache = True\<rparr>"
    and s1: "s1 = s\<lparr>s_info := (s_info s)(a \<mapsto> (k, hs, v)), s_held := (s_held s)(a := 1), s_use := s_use s @ [a]\<rparr>"
  shows "\<exists>h1. LRU_Append 1 a ((heap c)(a \<mapsto> e)) = Some h1 \<and> lru_rel (c\<lparr>heap := h1, usage := usage c + 1\<rparr>) s1 (cached s) \<and>
    (\<exists>e1. h1 a = Some e1 \<and> e_next e1 \<noteq> a)"
proof -
  note D = lru_relD [OF rel]
  let ?h = "(heap c)(a \<mapsto> e)"
  have fresh: "a \<notin> cached s" "s_held s a = 0" using spec_ok_fresh [OF D(1) a(2)] by auto
  have lk: "nx ?h b = nx (heap c) b" "pv ?h b = pv (heap c) b" "nh ?h b = nh (heap c) b" if "b \<noteq> a" for b
    using that by (simp_all add: nx_def pv_def nh_def)
  have "lists_ok ?h (s_lru s) (s_use s)"
  proof (rule lists_ok_cong [OF D(2)])
    show "nx ?h x = nx (heap c) x \<and> pv ?h x = pv (heap c) x" if "x \<in> set (0 # 1 # s_lru s @ s_use s)" for x
    proof -
      have "x \<noteq> a" using that fresh(1) a(1) by (auto simp: cached_def)
      then show ?thesis using lk by blast
    qed
    show "nx (heap c) x = Some x" if "2 \<le> x" "nx ?h x = Some x" for x
      using that lk a(1) e by (cases "x = a") (auto simp: nx_def)
  qed
  from lists_append(2) [OF this _ a(1)] fresh obtain h1 where h1: "LRU_Append 1 a ?h = Some h1" "relinked ?h h1"
      "lists_ok h1 (s_lru s) (s_use s @ [a])" by (auto simp: cached_def)
  have ca: "cached s1 = insert a (cached s)" by (auto simp: cached_def s1)
  have "lru_rel (c\<lparr>heap := h1, usage := usage c + 1\<rparr>) s1 (cached s)"
  proof (rule rel_intro [OF rel])
    show "lists_ok h1 (s_lru s1) (s_use s1)" using h1(3) by (simp add: s1)
    show "core h1 b = core_spec s1 b" if "2 \<le> b" for b
    proof (cases "b = a")
      case True
      have "s_info s1 a = Some (k, hs, v)" "s_held s1 a = 1" by (simp_all add: s1)
      then show ?thesis
        using True relinked_core(1) [OF h1(2), of a] core_spec_Some [of s1 a] by (simp add: ca core_upd e)
    next
      case False
      then have "core_spec s1 b = core_spec s b" by (intro core_spec_cong) (simp_all add: ca, simp_all add: s1)
      then show ?thesis using False D(3) [OF that] relinked_core(1) [OF h1(2), of b] by (simp add: core_upd)
    qed
    show "nh h1 b = nh (heap c) b" if "b \<in> cached s" for b
      using relinked_core(2) [OF h1(2), of b] lk(3) [of b] that fresh(1) by metis
    show "spec_ok s1" using D(1) a fresh unfolding spec_ok_def ca by (auto simp: s1 cached_def)
    show "s_info s1 b = s_info s b" if "b \<in> cached s" for b using that fresh(1) by (auto simp: s1)
  qed (use D(7-9) ca in \<open>auto simp: s1 spec_size_def\<close>)
  moreover obtain e1 where "h1 a = Some e1" using relinked_None [OF h1(2), of a] by (cases "h1 a") auto
  then have "h1 a = Some e1 \<and> e_next e1 \<noteq> a" using h1(3) a(1) by (auto simp: lists_ok_def nx_def)
  ultimately show ?thesis using h1(1) by blast
qed

lemma inj_insert: "inj_on f A \<Longrightarrow> (\<And>b. b \<in> A \<Longrightarrow> f b \<noteq> f a) \<Longrightarrow> inj_on f (insert a A)"
  by (auto simp: inj_on_def) metis

lemma Insert_ok:
  assumes rel: "lru_rel c s (cached s)" and a: "2 \<le> a" "s_info s a = None" and cap: "0 < s_cap s"
  shows "\<exists>c'. Insert a k hs v c = Some (a, c') \<and> lru_rel c' (spec_insert a k hs v s) (cached (spec_insert a k hs v s))"
proof -
  note D = lru_relD [OF rel]
  define e where "e = \<lparr>e_value = v, next_hash = None, e_next = 0, e_prev = 0, key_data = k, refs = 2, e_hash = hs, in_cache = True\<rparr>"
  define s1 where "s1 = s\<lparr>s_info := (s_info s)(a \<mapsto> (k, hs, v)), s_held := (s_held s)(a := 1), s_use := s_use s @ [a]\<rparr>"
  obtain h1 e1 where h1: "LRU_Append 1 a ((heap c)(a \<mapsto> e)) = Some h1" "h1 a = Some e1" "e_next e1 \<noteq> a"
      "lru_rel (c\<lparr>heap := h1, usage := usage c + 1\<rparr>) s1 (cached s)" (is "lru_rel ?c1 _ _")
    using Insert_links [OF rel a e_def s1_def] by blast
  note D1 = lru_relD [OF h1(4), simplified] and T1 = rel_table_facts [OF h1(4), simplified]
  have ca: "cached s1 = insert a (cached s)" by (auto simp: cached_def s1_def)
  have na: "a \<notin> cached s" using spec_ok_fresh [OF D(1) a(2)] by auto
  have ki: "key_in s1 a = Some (k, hs)" "\<And>b. b \<in> cached s \<Longrightarrow> key_in s1 b = key_in s b" using na by (auto simp: key_in_def s1_def)
  have ka: "key_at h1 b = key_in s1 b" if "b = a \<or> b \<in> cached s" for b
    using rel_key_at [OF h1(4), of b] that a(1) cached_ge_2 [OF D(1)] by auto
  define c2 where "c2 = (\<lambda>h t. c\<lparr>usage := usage c + 1, heap := h, table := t\<rparr>)"
  have I: "Insert a k hs v c = do { (old, h, t) \<leftarrow> HT_Insert a h1 (table c);
      (_, c) \<leftarrow> FinishErase old (c2 h t); c \<leftarrow> evict_loop c; Some (a, c) }"
    using cap D(8) h1(1) by (simp add: Insert_def Let_def e_def c2_def numeral_2_eq_2 del: FinishErase.simps)
  have cc: "?c1\<lparr>heap := h, table := t\<rparr> = c2 h t" for h t by (simp add: c2_def)
  have I2: ?thesis if "FinishErase old (c2 h t) = Some (x, c3)" "HT_Insert a h1 (table c) = Some (old, h, t)" "lru_rel c3 s3 (cached s3)"
      "spec_insert a k hs v s = spec_evict s3" for old h t x c3 s3
    using evict_loop_ok [OF that(3)] that(1,2,4) by (auto simp: I simp del: FinishErase.simps)
  show ?thesis
  proof (cases "spec_find k hs s")
    case None
    then have ne: "key_in s1 b \<noteq> key_in s1 a" if "b \<in> cached s" for b using that ki by (auto simp: spec_find_None)
    then obtain h t where i: "HT_Insert a h1 (table c) = Some (None, h, t)" "rehashed h1 h" "table_ok h t (insert a (cached s))"
      using HT_Insert_miss [OF D1(4) T1(1) h1(2) na h1(3)] ka by metis
    have "inj_on (key_in s1) (cached s1)" unfolding ca by (rule inj_insert [OF D1(6)]) (rule ne)
    then have "lru_rel (c2 h t) s1 (cached s1)" using rel_rehashed [OF h1(4), of h t "cached s1"] i ca unfolding cc by simp
    then show ?thesis using I2 [of None h t False] i(1) None by (simp add: spec_insert_def s1_def Let_def)
  next
    case (Some b)
    then have b: "b \<in> cached s" "key_in s1 b = key_in s1 a" using spec_find_Some [OF Some] ki by auto
    then obtain h t where i: "HT_Insert a h1 (table c) = Some (Some b, h, t)" "rehashed h1 h" "table_ok h t (insert a (cached s - {b}))"
      using HT_Insert_hit [OF D1(4) T1 h1(2) na h1(3) b(1)] ka by metis
    have "key_in s1 d \<noteq> key_in s1 a" if "d \<in> cached s - {b}" for d using that b inj_onD [OF D1(6), of d b] by auto
    then have "inj_on (key_in s1) (insert a (cached s - {b}))"
      using inj_on_subset [OF D1(6), of "cached s - {b}"] by (intro inj_insert) auto
    then have r: "lru_rel (c2 h t) s1 (insert a (cached s - {b}))"
      using rel_rehashed [OF h1(4), of h t "insert a (cached s - {b})"] i ca unfolding cc by auto
    have "b \<noteq> a" using b(1) na by auto
    then obtain c3 where "FinishErase (Some b) (c2 h t) = Some (True, c3)" "lru_rel c3 (spec_detach b s1) (insert a (cached s - {b}))"
      using FinishErase_ok [OF r, of b] b(1) ca by auto
    moreover have "cached (spec_detach b s1) = insert a (cached s - {b})"
      using cached_detach [OF D1(2), of b] \<open>b \<noteq> a\<close> ca by auto
    ultimately show ?thesis using I2 [of "Some b" h t True] i(1) Some by (simp add: spec_insert_def s1_def Let_def del: FinishErase.simps)
  qed
qed

end
