(* ===== verification/Lru_Properties.thy ===== *)
theory Lru_Properties
  imports Lru_Refines "HOL-Library.Multiset"
begin

text \<open>
  The properties of the LRU cache of \<^verbatim>\<open>src/cpp-util/lrucache.h\<close>: runs of the code simulate runs of
  the abstract cache, every inserted value reaches the deleter exactly once, an insertion keeps the
  capacity and evicts the least recently used entries, and the sharded cache is the shards side by
  side.
\<close>

section \<open>Runs\<close>

lemma lru_start:
  fixes v :: 'v
  shows "\<exists>c. LRUCache_new v = Some c \<and> lru_rel (SetCapacity n c) (spec_new n) (cached (spec_new n :: 'v lru_spec))"
proof -
  let ?s = "spec_new n :: 'v lru_spec"
  let ?h = "Map.empty(0 \<mapsto> list_head v 0, 1 \<mapsto> list_head v 1)"
  obtain t where t: "HashTable_new ?h = Some (?h, t)" "table_ok ?h t {}" using HashTable_new_ok [of ?h] by blast
  have "lists_ok ?h [] []" by (auto simp: lists_ok_def nx_def pv_def list_head_def)
  moreover have "core ?h a = core_spec ?s a" if "2 \<le> a" for a using that by (simp add: core_def core_spec_def spec_new_def)
  moreover have "cached ?s = {}" "spec_ok ?s" "s_lru ?s = []" "s_use ?s = []"
      "s_cap ?s = n" "s_deleted ?s = []"
    by (simp_all add: cached_def spec_new_def spec_ok_def)
  ultimately show ?thesis
    using t by (simp add: LRUCache_new_def SetCapacity_def lru_rel_def spec_size_def)
qed

lemma detach_cap [simp]: "s_cap (spec_detach a s) = s_cap s" "s_cap (fold spec_detach as s) = s_cap s"
proof -
  show d: "s_cap (spec_detach a s) = s_cap s" for a s
    by (auto simp: spec_detach_def spec_delete_def Let_def split: option.splits)
  show "s_cap (fold spec_detach as s) = s_cap s" by (induction as arbitrary: s) (simp_all add: d)
qed

lemma spec_step_cap: "spec_step op s = Some (r, s') \<Longrightarrow> s_cap s' = s_cap s"
  by (cases op) (auto simp: spec_insert_def spec_evict_def spec_lookup_def spec_hold_def spec_release_def spec_erase_def
    spec_prune_def spec_delete_def Let_def split: if_splits option.splits)

lemma cached_release:
  assumes "lists_ok h (s_lru s) (s_use s)"
  shows "cached (spec_release a s) = cached s"
  using cached_remove1(1,2) [OF assms, of a]
  by (auto simp: spec_release_def spec_delete_def cached_def Let_def split: option.splits)

lemma lru_step_ok:
  assumes rel: "lru_rel c s (cached s)" and "0 < s_cap s" and "spec_step op s = Some (r, s')"
  shows "\<exists>c'. lru_step op c = Some (r, c') \<and> lru_rel c' s' (cached s')"
proof (cases op)
  case (OpInsert a k h v)
  then show ?thesis using Insert_ok [OF rel, of a k h v] assms(2,3) by (auto split: if_splits)
next
  case (OpLookup k h)
  then show ?thesis using Lookup_ok [OF rel, of k h] assms(3) by auto
next
  case (OpRelease a)
  then show ?thesis
    using Release_ok [OF rel, of a] cached_release [OF lru_relD(2) [OF rel], of a] assms(3) by (auto split: if_splits)
next
  case (OpErase k h)
  then show ?thesis using Erase_ok [OF rel, of k h] assms(3) by auto
next
  case OpPrune
  then show ?thesis using Prune_ok [OF rel] assms(3) by auto
qed

lemma lru_run_ok:
  "lru_rel c s (cached s) \<Longrightarrow> 0 < s_cap s \<Longrightarrow> spec_run ops s = Some (rs, s') \<Longrightarrow>
    \<exists>c'. lru_run ops c = Some (rs, c') \<and> lru_rel c' s' (cached s')"
proof (induction ops arbitrary: c s rs)
  case (Cons op ops)
  then obtain r s1 rs1 where s1: "spec_step op s = Some (r, s1)" "spec_run ops s1 = Some (rs1, s')" "rs = r # rs1"
    by (auto split: Option.bind_splits)
  obtain c1 where c1: "lru_step op c = Some (r, c1)" "lru_rel c1 s1 (cached s1)"
    using lru_step_ok [OF Cons.prems(1,2) s1(1)] by blast
  from Cons.IH [OF c1(2) _ s1(2)] Cons.prems(2) spec_step_cap [OF s1(1)]
  obtain c' where "lru_run ops c1 = Some (rs1, c')" "lru_rel c' s' (cached s')" by auto
  then show ?case using c1(1) s1(3) by simp
qed simp

section \<open>Every value is deleted once\<close>

definition kv :: "'v lru_spec \<Rightarrow> nat \<Rightarrow> bytes \<times> 'v" where
  "kv s a = (case s_info s a of Some (k, _, v) \<Rightarrow> (k, v))"

definition live :: "'v lru_spec \<Rightarrow> (bytes \<times> 'v) multiset" where
  "live s = image_mset (kv s) (mset_set (dom (s_info s)))"

fun inserted :: "'v lru_op list \<Rightarrow> (bytes \<times> 'v) list" where
  "inserted [] = []"
| "inserted (OpInsert a k h v # ops) = (k, v) # inserted ops"
| "inserted (_ # ops) = inserted ops"

definition accounted :: "'v lru_spec \<Rightarrow> (bytes \<times> 'v) multiset" where
  "accounted s = mset (s_deleted s) + live s"

lemma live_cong: "s_info s' = s_info s \<Longrightarrow> live s' = live s"
  by (simp add: live_def kv_def [abs_def])

lemma accounted_cong: "s_info s' = s_info s \<Longrightarrow> s_deleted s' = s_deleted s \<Longrightarrow> accounted s' = accounted s"
  unfolding accounted_def using live_cong [of s' s] by simp

lemma live_remove:
  assumes "finite (dom (s_info s))" "s_info s a = Some (k, h, v)"
  shows "live s = add_mset (k, v) (live (s\<lparr>s_info := (s_info s)(a := None)\<rparr>))"
proof -
  define s' where "s' = s\<lparr>s_info := (s_info s)(a := None)\<rparr>"
  have d: "dom (s_info s) = insert a (dom (s_info s'))" "a \<notin> dom (s_info s')" using assms(2) by (auto simp: s'_def)
  have f: "finite (dom (s_info s'))" using assms(1) by (simp add: s'_def)
  have "image_mset (kv s') (mset_set (dom (s_info s'))) = image_mset (kv s) (mset_set (dom (s_info s')))"
    using f by (intro image_mset_cong) (auto simp: kv_def s'_def)
  moreover have "mset_set (dom (s_info s)) = add_mset a (mset_set (dom (s_info s')))" unfolding d(1) using f d(2) by simp
  moreover have "kv s a = (k, v)" using assms(2) by (simp add: kv_def)
  ultimately show ?thesis unfolding live_def s'_def [symmetric] by simp
qed

lemma live_add:
  assumes "finite (dom (s_info s))" "s_info s a = None"
  shows "live (s\<lparr>s_info := (s_info s)(a \<mapsto> (k, h, v))\<rparr>) = add_mset (k, v) (live s)"
proof -
  let ?s = "s\<lparr>s_info := (s_info s)(a \<mapsto> (k, h, v))\<rparr>"
  have "?s\<lparr>s_info := (s_info ?s)(a := None)\<rparr> = s" using assms(2) by (simp add: fun_upd_idem)
  then show ?thesis using live_remove [of ?s a k h v] assms(1) by simp
qed

lemma delete_accounted:
  assumes "finite (dom (s_info s))"
  shows "accounted (spec_delete a s) = accounted s" "finite (dom (s_info (spec_delete a s)))"
proof -
  show "finite (dom (s_info (spec_delete a s)))" using assms by (auto simp: spec_delete_def split: option.splits)
  show "accounted (spec_delete a s) = accounted s"
  proof (cases "s_info s a")
    case (Some x)
    then obtain k h v where x: "s_info s a = Some (k, h, v)" by (cases x) auto
    let ?s = "s\<lparr>s_info := (s_info s)(a := None), s_deleted := s_deleted s @ [(k, v)]\<rparr>"
    have "live ?s = live (s\<lparr>s_info := (s_info s)(a := None)\<rparr>)" by (rule live_cong) simp
    then show ?thesis using live_remove [OF assms x] x by (simp add: spec_delete_def accounted_def)
  qed (simp add: spec_delete_def)
qed

lemma detach_accounted:
  assumes "finite (dom (s_info s))"
  shows "accounted (spec_detach a s) = accounted s \<and> finite (dom (s_info (spec_detach a s)))"
proof -
  let ?s = "s\<lparr>s_lru := remove1 a (s_lru s), s_use := remove1 a (s_use s)\<rparr>"
  have "accounted ?s = accounted s" by (rule accounted_cong) simp_all
  then show ?thesis using delete_accounted [of ?s a] assms by (simp add: spec_detach_def Let_def)
qed

lemma fold_accounted:
  "finite (dom (s_info s)) \<Longrightarrow>
    accounted (fold spec_detach as s) = accounted s \<and> finite (dom (s_info (fold spec_detach as s)))"
  by (induction as arbitrary: s) (auto simp: detach_accounted)

lemma spec_step_accounted:
  assumes f: "finite (dom (s_info s))" and st: "spec_step op s = Some (r, s')"
  shows "accounted s' = mset (inserted [op]) + accounted s \<and> finite (dom (s_info s'))"
proof (cases op)
  case (OpInsert a k h v)
  let ?s = "s\<lparr>s_info := (s_info s)(a \<mapsto> (k, h, v)), s_held := (s_held s)(a := 1), s_use := s_use s @ [a]\<rparr>"
  have n: "s_info s a = None" and s': "s' = spec_insert a k h v s" using st OpInsert by (auto split: if_splits)
  have "live ?s = live (s\<lparr>s_info := (s_info s)(a \<mapsto> (k, h, v))\<rparr>)" by (rule live_cong) simp
  then have "accounted ?s = add_mset (k, v) (accounted s)" "finite (dom (s_info ?s))"
    using live_add [OF f n] f by (simp_all add: accounted_def)
  then show ?thesis
    using OpInsert detach_accounted [of ?s] fold_accounted
    by (auto simp: s' spec_insert_def Let_def spec_evict_def split: option.splits)
next
  case (OpLookup k h)
  have "accounted (spec_hold a s) = accounted s" for a by (rule accounted_cong) (simp_all add: spec_hold_def)
  then show ?thesis using OpLookup st f by (auto simp: spec_lookup_def spec_hold_def split: option.splits)
next
  case (OpRelease a)
  let ?s = "s\<lparr>s_held := (s_held s)(a := s_held s a - 1)\<rparr>"
  let ?s2 = "?s\<lparr>s_use := remove1 a (s_use s), s_lru := s_lru s @ [a]\<rparr>"
  have "accounted ?s = accounted s" "accounted ?s2 = accounted s" by (rule accounted_cong; simp)+
  moreover have "s' = ?s \<or> s' = ?s2 \<or> s' = spec_delete a ?s"
    using OpRelease st by (auto simp: spec_release_def Let_def split: if_splits)
  ultimately show ?thesis using delete_accounted [of ?s a] f OpRelease by auto
next
  case (OpErase k h)
  then show ?thesis using st f detach_accounted [OF f] by (auto simp: spec_erase_def split: option.splits)
next
  case OpPrune
  then show ?thesis using st fold_accounted [OF f] by (auto simp: spec_prune_def)
qed

lemma spec_run_accounted:
  "finite (dom (s_info s)) \<Longrightarrow> spec_run ops s = Some (rs, s') \<Longrightarrow>
    accounted s' = mset (inserted ops) + accounted s \<and> finite (dom (s_info s'))"
proof (induction ops arbitrary: s rs)
  case (Cons op ops)
  then obtain r s1 rs1 where s1: "spec_step op s = Some (r, s1)" "spec_run ops s1 = Some (rs1, s')"
    by (auto split: Option.bind_splits)
  have "mset (inserted (op # ops)) = mset (inserted [op]) + mset (inserted ops)" by (cases op) auto
  then show ?case using spec_step_accounted [OF Cons.prems(1) s1(1)] Cons.IH [OF _ s1(2)] by auto
qed simp

section \<open>The destructor\<close>

fun dying :: "'v heap \<Rightarrow> nat \<Rightarrow> nat list \<Rightarrow> bool" where
  "dying h p [] \<longleftrightarrow> p = 0"
| "dying h p (a # as) \<longleftrightarrow> p = a \<and> a \<noteq> 0 \<and>
     (\<exists>e. h a = Some e \<and> in_cache e \<and> refs e = 1 \<and> e_next e \<noteq> a \<and> dying h (e_next e) as)"

lemma dying_cong: "(\<And>x. x \<in> set as \<Longrightarrow> h' x = h x) \<Longrightarrow> dying h' p as = dying h p as"
  by (induction as arbitrary: p) auto

lemma destroy_from_ok:
  "dying (heap c) p as \<Longrightarrow> distinct as \<Longrightarrow>
    \<exists>c'. destroy_from p c = Some c' \<and>
      deleted c' = deleted c @ map (\<lambda>a. (key_data (the (heap c a)), e_value (the (heap c a)))) as \<and>
      (\<forall>x. heap c' x = (if x \<in> set as then None else heap c x))"
proof (induction as arbitrary: p c)
  case Nil
  then show ?case by (simp add: destroy_from.simps)
next
  case (Cons a as)
  then obtain e where e: "p = a" "a \<noteq> 0" "heap c a = Some e" "in_cache e" "refs e = 1" "e_next e \<noteq> a" "dying (heap c) (e_next e) as"
    by auto
  define e1 where "e1 = e\<lparr>in_cache := False\<rparr>"
  define c1 where "c1 = c\<lparr>heap := (heap c)(a \<mapsto> e1)\<rparr>"
  define c2 where "c2 = c\<lparr>heap := (heap c)(a := None), deleted := deleted c @ [(key_data e, e_value e)]\<rparr>"
  have "heap c1 a = Some e1" "0 < refs e1" using e by (simp_all add: c1_def e1_def)
  from Unref_eq [OF this refl refl] have "Unref a c1 = Some c2"
    using e by (simp add: e1_def entry_key_def c1_def c2_def)
  then have d: "destroy_from p c = destroy_from (e_next e) c2"
    using e by (subst destroy_from.simps) (simp add: e1_def c1_def)
  have "dying (heap c2) (e_next e) as = dying (heap c) (e_next e) as"
    using Cons.prems(2) by (intro dying_cong) (auto simp: c2_def)
  from Cons.IH [of c2 "e_next e"] this e(7) Cons.prems(2) obtain c' where c': "destroy_from (e_next e) c2 = Some c'"
      "deleted c' = deleted c2 @ map (\<lambda>a. (key_data (the (heap c2 a)), e_value (the (heap c2 a)))) as"
      "\<forall>x. heap c' x = (if x \<in> set as then None else heap c2 x)" by auto
  have "map (\<lambda>a. (key_data (the (heap c2 a)), e_value (the (heap c2 a)))) as =
      map (\<lambda>a. (key_data (the (heap c a)), e_value (the (heap c a)))) as"
    using Cons.prems(2) by (intro map_cong) (auto simp: c2_def)
  then show ?case using c' d e by (auto simp: c2_def)
qed

lemma rel_dying:
  assumes rel: "lru_rel c s X" and "s_lru s = as @ bs" "p = hd (bs @ [0])"
  shows "dying (heap c) p bs"
  using assms(2,3)
proof (induction bs arbitrary: as p)
  case (Cons b bs)
  have b: "b \<in> cached s" "s_held s b = 0" using Cons.prems(1) lru_relD(1) [OF rel] by (auto simp: cached_def spec_ok_def)
  have "s_info s b \<noteq> None" using lru_relD(1) [OF rel] b by (simp add: spec_ok_def)
  then obtain e where e: "heap c b = Some e" "s_info s b = Some (key_data e, e_hash e, e_value e)"
      "refs e = s_held s b + (if b \<in> cached s then 1 else 0)" "in_cache e \<longleftrightarrow> b \<in> cached s" "2 \<le> b" "e_next e \<noteq> b"
    by (rule rel_entry [OF rel])
  have "seg (heap c) 0 (as @ b # bs) 0" using lru_relD(2) [OF rel] Cons.prems(1) by (simp add: lists_ok_def)
  then have "nx (heap c) b = Some (hd (bs @ [0]))" using seg_ends(1) by auto
  then have "e_next e = hd (bs @ [0])" using e(1) by (simp add: nx_def)
  then have "dying (heap c) (e_next e) bs" using Cons.IH [of "as @ [b]"] Cons.prems(1) by simp
  then show ?case using Cons.prems(2) e b by simp
qed simp

lemma LRUCache_destroy_ok:
  assumes rel: "lru_rel c s X" and free: "\<And>a. s_held s a = 0"
  shows "\<exists>c'. LRUCache_destroy c = Some c' \<and> mset (deleted c') = accounted s \<and> (\<forall>a\<ge>2. heap c' a = None)"
proof -
  note D = lru_relD [OF rel]
  have use: "s_use s = []" using D(1) free by (cases "s_use s") (auto simp: spec_ok_def)
  obtain u l where u: "heap c 1 = Some u" "e_next u = 1" and l: "heap c 0 = Some l" "e_next l = hd (s_lru s @ [0])"
    using D(2) seg_ends(1) [of "heap c" 0 "s_lru s" 0] use by (auto simp: lists_ok_def nx_Some)
  have d: "distinct (s_lru s)" using cached_remove1(4) [OF D(2)] .
  obtain c' where c': "destroy_from (e_next l) c = Some c'"
      "deleted c' = deleted c @ map (\<lambda>a. (key_data (the (heap c a)), e_value (the (heap c a)))) (s_lru s)"
      "\<forall>x. heap c' x = (if x \<in> set (s_lru s) then None else heap c x)"
    using destroy_from_ok [OF rel_dying [OF rel, of "[]" "s_lru s"] d] l(2) by auto
  have dom: "dom (s_info s) = set (s_lru s)" using D(1) free use by (auto simp: spec_ok_def cached_def)
  have "(key_data (the (heap c a)), e_value (the (heap c a))) = kv s a" if "a \<in> set (s_lru s)" for a
  proof -
    have "s_info s a \<noteq> None" using that unfolding dom [symmetric] by (simp add: dom_def)
    then obtain e where "heap c a = Some e" "s_info s a = Some (key_data e, e_hash e, e_value e)" by (rule rel_entry [OF rel])
    then show ?thesis by (simp add: kv_def)
  qed
  then have "deleted c' = s_deleted s @ map (kv s) (s_lru s)" unfolding c'(2) D(9) by (simp cong: map_cong)
  moreover have "mset_set (set (s_lru s)) = mset (s_lru s)" using d by (simp add: mset_set_set)
  ultimately have "mset (deleted c') = accounted s" by (simp add: accounted_def live_def dom)
  moreover have "heap c' a = None" if "2 \<le> a" for a
    using c'(3) D(3) [OF that] dom by (cases "s_info s a") (auto simp: core_spec_def core_None)
  ultimately show ?thesis using c'(1) u l(1) by (auto simp: LRUCache_destroy_def)
qed

section \<open>What an insertion does\<close>

lemma spec_step_rel_ok:
  assumes "spec_run ops (spec_new n) = Some (rs, s)" "0 < n"
  shows "\<exists>c0 c. LRUCache_new v = Some c0 \<and> lru_run ops (SetCapacity n c0) = Some (rs, c) \<and> lru_rel c s (cached s)"
proof -
  obtain c0 where c0: "LRUCache_new v = Some c0" "lru_rel (SetCapacity n c0) (spec_new n) (cached (spec_new n :: 'a lru_spec))"
    using lru_start [of v n] by blast
  from lru_run_ok [OF c0(2) _ assms(1)] assms(2) c0(1) show ?thesis by (auto simp: spec_new_def)
qed

lemma spec_run_cap: "spec_run ops s0 = Some (rs, s) \<Longrightarrow> s_cap s = s_cap s0"
proof (induction ops arbitrary: s0 rs)
  case (Cons op ops)
  then obtain r s1 rs1 where "spec_step op s0 = Some (r, s1)" "spec_run ops s1 = Some (rs1, s)"
    by (auto split: Option.bind_splits)
  then show ?case using Cons.IH spec_step_cap by metis
qed simp

lemma fold_detach_lists:
  "distinct (s_lru s @ s_use s) \<Longrightarrow> n \<le> length (s_lru s) \<Longrightarrow>
    s_lru (fold spec_detach (take n (s_lru s)) s) = drop n (s_lru s) \<and>
    s_use (fold spec_detach (take n (s_lru s)) s) = s_use s \<and>
    (\<forall>a. a \<notin> set (take n (s_lru s)) \<longrightarrow> s_info (fold spec_detach (take n (s_lru s)) s) a = s_info s a)"
proof (induction n arbitrary: s)
  case (Suc n)
  then obtain a as where l: "s_lru s = a # as" by (cases "s_lru s") auto
  have d: "s_lru (spec_detach a s) = as" "s_use (spec_detach a s) = s_use s" "\<And>b. b \<noteq> a \<Longrightarrow> s_info (spec_detach a s) b = s_info s b"
    using Suc.prems(1) l by (auto simp: spec_detach_def spec_delete_def Let_def remove1_idem split: option.splits)
  from Suc.IH [of "spec_detach a s"] Suc.prems d(1,2) l
  have "s_lru (fold spec_detach (take n as) (spec_detach a s)) = drop n as"
    "s_use (fold spec_detach (take n as) (spec_detach a s)) = s_use s"
    "\<forall>b. b \<notin> set (take n as) \<longrightarrow> s_info (fold spec_detach (take n as) (spec_detach a s)) b = s_info (spec_detach a s) b"
    by auto
  then show ?case using l d(3) by simp
qed simp

lemma remove1_filter: "distinct xs \<Longrightarrow> remove1 b xs = filter (\<lambda>c. c \<noteq> b) xs"
  by (induction xs) (auto intro!: filter_True [symmetric])

lemma find_snoc: "(\<And>x. x \<in> set xs \<Longrightarrow> \<not> P x) \<Longrightarrow> P a \<Longrightarrow> find P (xs @ [a]) = Some a"
  by (induction xs) auto

lemma spec_insert_effect:
  assumes ok: "spec_ok s" and d: "distinct (s_lru s @ s_use s)" and inj: "inj_on (key_in s) (cached s)" and a: "s_info s a = None"
    and s'_def: "s' = spec_insert a k h v s"
  shows "spec_find k h s' = Some a" "s_info s' a = Some (k, h, v)" "spec_size s' \<le> s_cap s \<or> s_lru s' = []"
    "\<exists>n. s_lru s' = drop n (filter (\<lambda>b. \<not> has_key s k h b) (s_lru s))"
proof -
  define s1 where "s1 = s\<lparr>s_info := (s_info s)(a \<mapsto> (k, h, v)), s_held := (s_held s)(a := 1), s_use := s_use s @ [a]\<rparr>"
  define s2 where "s2 = (case spec_find k h s of None \<Rightarrow> s1 | Some b \<Rightarrow> spec_detach b s1)"
  have na: "a \<notin> set (s_lru s)" "a \<notin> set (s_use s)" using spec_ok_fresh [OF ok a] by (auto simp: cached_def)
  have s': "s' = spec_evict s2" by (simp only: s'_def spec_insert_def s2_def s1_def Let_def)
  have cap: "s_cap s2 = s_cap s" by (simp add: s2_def s1_def split: option.splits)
  have fl: "filter (\<lambda>b. \<not> has_key s k h b) xs = (case spec_find k h s of None \<Rightarrow> xs | Some b \<Rightarrow> remove1 b xs)"
    if "set xs \<subseteq> cached s" "distinct xs" for xs
  proof (cases "spec_find k h s")
    case None
    then have "\<not> has_key s k h b" if "b \<in> set xs" for b
      using that \<open>set xs \<subseteq> cached s\<close> by (auto simp: spec_find_None has_key_key_in)
    then show ?thesis using None by simp
  next
    case (Some b)
    have "has_key s k h c \<longleftrightarrow> c = b" if "c \<in> set xs" for c
      using that \<open>set xs \<subseteq> cached s\<close> spec_find_Some [OF Some] inj_onD [OF inj, of c b] by (auto simp: has_key_key_in)
    then have "filter (\<lambda>b. \<not> has_key s k h b) xs = filter (\<lambda>c. c \<noteq> b) xs" by (intro filter_cong) auto
    then show ?thesis using Some remove1_filter [OF that(2), of b] by simp
  qed
  have lu: "s_lru s2 = filter (\<lambda>b. \<not> has_key s k h b) (s_lru s)" "s_use s2 = filter (\<lambda>b. \<not> has_key s k h b) (s_use s) @ [a]"
      "s_info s2 a = Some (k, h, v)"
  proof -
    have "b \<noteq> a" if "spec_find k h s = Some b" for b using spec_find_Some [OF that] na by (auto simp: cached_def)
    then show "s_lru s2 = filter (\<lambda>b. \<not> has_key s k h b) (s_lru s)" "s_use s2 = filter (\<lambda>b. \<not> has_key s k h b) (s_use s) @ [a]"
        "s_info s2 a = Some (k, h, v)"
      using fl [of "s_lru s"] fl [of "s_use s"] d
      by (auto simp: s2_def s1_def spec_detach_def spec_delete_def Let_def cached_def remove1_append remove1_idem split: option.splits)
  qed
  have d2: "distinct (s_lru s2 @ s_use s2)" using d na lu(1,2) by auto
  define n where "n = min (spec_size s2 - s_cap s2) (length (s_lru s2))"
  have e: "s' = fold spec_detach (take n (s_lru s2)) s2" by (simp add: s' spec_evict_def n_def min_def)
  note F = fold_detach_lists [OF d2, of n, folded e]
  have n: "n \<le> length (s_lru s2)" by (simp add: n_def)
  have l': "s_lru s' = drop n (s_lru s2)" "s_use s' = s_use s2" using F n by auto
  have "a \<notin> set (take n (s_lru s2))" using lu(1) na(1) by (auto dest: in_set_takeD)
  then show i: "s_info s' a = Some (k, h, v)" using F n lu(3) by auto
  show "spec_size s' \<le> s_cap s \<or> s_lru s' = []"
    unfolding spec_size_def l' using cap n by (auto simp: n_def spec_size_def min_def split: if_splits)
  show "\<exists>n. s_lru s' = drop n (filter (\<lambda>b. \<not> has_key s k h b) (s_lru s))" using l'(1) lu(1) by auto
  have "\<not> has_key s' k h b" if b: "b \<in> set (s_lru s' @ filter (\<lambda>b. \<not> has_key s k h b) (s_use s))" for b
  proof -
    have L: "distinct (s_lru s2)" "set (s_lru s2) \<inter> set (s_use s2) = {}" using d2 by auto
    have "set (take n (s_lru s2)) \<inter> set (drop n (s_lru s2)) = {}" by (rule set_take_disj_set_drop_if_distinct) (simp_all add: L)
    moreover have "b \<in> set (drop n (s_lru s2)) \<or> b \<in> set (s_use s2) \<and> \<not> has_key s k h b" using b l'(1) lu(2) by auto
    ultimately have "b \<notin> set (take n (s_lru s2))" using L(2) by (meson disjoint_iff in_set_takeD)
    moreover have "b \<in> set (s_lru s2 @ filter (\<lambda>b. \<not> has_key s k h b) (s_use s))" using b l'(1) by (auto dest: in_set_dropD)
    ultimately have nb: "\<not> has_key s k h b" "b \<noteq> a" "s_info s' b = s_info s2 b" using lu(1) na F n by auto
    have "s_info s2 b = s_info s b \<or> s_info s2 b = None"
      using nb(2) by (auto simp: s2_def s1_def spec_detach_def spec_delete_def Let_def split: option.splits)
    then show ?thesis using nb by (auto simp: has_key_def)
  qed
  moreover have "has_key s' k h a" using i by (simp add: has_key_def)
  ultimately show "spec_find k h s' = Some a"
    unfolding spec_find_def l'(2) lu(2) append_assoc [symmetric] by (intro find_snoc) auto
qed

section \<open>Shards\<close>

definition sh_rel :: "nat \<Rightarrow> 'v LRUCache list \<Rightarrow> 'v lru_spec list \<Rightarrow> bool" where
  "sh_rel n cs ss \<longleftrightarrow> length ss = kNumShards \<and> list_all2 (\<lambda>c s. lru_rel c s (cached s) \<and> s_cap s = n) cs ss"

lemma Shard_less: "Shard hash < kNumShards"
proof -
  have "unat hash < 2 ^ 32" using unat_less_two_power [of hash] by simp
  then show ?thesis by (simp add: Shard_def kNumShards_def kNumShardBits_def unat_drop_bit_div)
qed

lemma on_shard_ok:
  assumes rel: "sh_rel n cs ss" and f: "\<And>c. lru_rel c (ss ! Shard hash) (cached (ss ! Shard hash)) \<Longrightarrow> \<exists>c'. f c = Some (r, c') \<and> lru_rel c' s' (cached s')"
    and cap: "s_cap s' = s_cap (ss ! Shard hash)"
  shows "\<exists>cs'. on_shard hash f cs = Some (r, cs') \<and> sh_rel n cs' (ss[Shard hash := s'])"
proof -
  let ?i = "Shard hash"
  have len: "?i < length ss" "length cs = length ss" using rel Shard_less [of hash] by (auto simp: sh_rel_def list_all2_lengthD)
  have r: "lru_rel (cs ! ?i) (ss ! ?i) (cached (ss ! ?i))" "s_cap (ss ! ?i) = n"
    using rel len by (auto simp: sh_rel_def list_all2_conv_all_nth)
  obtain c' where c': "f (cs ! ?i) = Some (r, c')" "lru_rel c' s' (cached s')" using f [OF r(1)] by blast
  have "sh_rel n (cs[?i := c']) (ss[?i := s'])"
    using rel c'(2) r(2) cap by (auto simp: sh_rel_def intro!: list_all2_update_cong)
  then show ?thesis using c'(1) len by (simp add: on_shard_def)
qed

lemma prune_cap: "s_cap (spec_prune s) = s_cap s" by (simp add: spec_prune_def)

lemma Prune_all_ok: "list_all2 (\<lambda>c s. lru_rel c s (cached s) \<and> s_cap s = n) cs ss \<Longrightarrow>
    \<exists>cs'. Sharded_Prune cs = Some cs' \<and> list_all2 (\<lambda>c s. lru_rel c s (cached s) \<and> s_cap s = n) cs' (map spec_prune ss)"
proof (induction cs ss rule: list_all2_induct)
  case (Cons c cs s ss)
  then obtain cs' where "Sharded_Prune cs = Some cs'"
      "list_all2 (\<lambda>c s. lru_rel c s (cached s) \<and> s_cap s = n) cs' (map spec_prune ss)" by blast
  moreover obtain c' where "Prune c = Some c'" "lru_rel c' (spec_prune s) (cached (spec_prune s))"
    using Prune_ok Cons.hyps(1) by blast
  ultimately show ?case using Cons.hyps(1) by (simp add: prune_cap)
qed simp

text \<open>Every operation but \<^verbatim>\<open>Prune\<close> is the operation of one shard.\<close>

lemma sh_step_local:
  "op \<noteq> ShPrune \<Longrightarrow> sh_step op cs = on_shard (sh_op_hash op)
     (\<lambda>c. do { (r, c) \<leftarrow> lru_step (sh_op_local op) c; Some (map_option (Pair (sh_op_hash op)) r, c) }) cs"
  by (cases op) (auto simp: Sharded_Insert_def Sharded_Lookup_def Sharded_Release_def Sharded_Erase_def on_shard_def Let_def
    split: Option.bind_splits prod.splits)

lemma sh_spec_step_local:
  "op \<noteq> ShPrune \<Longrightarrow> sh_spec_step op ss =
     do { (r, s) \<leftarrow> spec_step (sh_op_local op) (ss ! Shard (sh_op_hash op));
          Some (map_option (Pair (sh_op_hash op)) r, ss[Shard (sh_op_hash op) := s]) }"
  by (cases op) (simp_all add: Let_def)

lemma sh_step_ok:
  assumes rel: "sh_rel n cs ss" and n: "0 < n" and st: "sh_spec_step op ss = Some (r, ss')"
  shows "\<exists>cs'. sh_step op cs = Some (r, cs') \<and> sh_rel n cs' ss'"
proof (cases "op = ShPrune")
  case True
  then show ?thesis using Prune_all_ok [of n cs ss] rel st by (auto simp: sh_rel_def)
next
  case False
  let ?h = "sh_op_hash op"
  obtain r1 s1 where s1: "spec_step (sh_op_local op) (ss ! Shard ?h) = Some (r1, s1)" "r = map_option (Pair ?h) r1" "ss' = ss[Shard ?h := s1]"
    using st by (auto simp: sh_spec_step_local [OF False] split: Option.bind_splits prod.splits)
  have cap: "s_cap (ss ! Shard ?h) = n"
    using rel Shard_less [of ?h] by (auto simp: sh_rel_def list_all2_conv_all_nth)
  have "\<exists>c'. do { (r, c) \<leftarrow> lru_step (sh_op_local op) c; Some (map_option (Pair ?h) r, c) } = Some (r, c') \<and> lru_rel c' s1 (cached s1)"
    if "lru_rel c (ss ! Shard ?h) (cached (ss ! Shard ?h))" for c
    using lru_step_ok [OF that _ s1(1)] cap n s1(2) by auto
  then show ?thesis
    unfolding sh_step_local [OF False] s1(3) by (rule on_shard_ok [OF rel _ spec_step_cap [OF s1(1)]])
qed

lemma sh_run_ok:
  "sh_rel n cs ss \<Longrightarrow> 0 < n \<Longrightarrow> sh_spec_run ops ss = Some (rs, ss') \<Longrightarrow> \<exists>cs'. sh_run ops cs = Some (rs, cs') \<and> sh_rel n cs' ss'"
proof (induction ops arbitrary: cs ss rs)
  case (Cons op ops)
  then obtain r ss1 rs1 where s1: "sh_spec_step op ss = Some (r, ss1)" "sh_spec_run ops ss1 = Some (rs1, ss')" "rs = r # rs1"
    by (auto split: Option.bind_splits)
  obtain cs1 where "sh_step op cs = Some (r, cs1)" "sh_rel n cs1 ss1" using sh_step_ok [OF Cons.prems(1,2) s1(1)] by blast
  with Cons.IH [of cs1 ss1 rs1] Cons.prems(2) s1 show ?case by auto
qed simp

lemma sh_total: "list_all2 (\<lambda>c s. lru_rel c s (cached s) \<and> s_cap s = n) cs ss \<Longrightarrow> Sharded_TotalElem cs = sum_list (map spec_size ss)"
proof -
  assume a: "list_all2 (\<lambda>c s. lru_rel c s (cached s) \<and> s_cap s = n) cs ss"
  have "fold (\<lambda>c total. total + TotalElem c) cs t = t + sum_list (map spec_size ss)" for t
    using a by (induction cs ss arbitrary: t rule: list_all2_induct) (auto simp: TotalElem_def lru_relD(7))
  then show ?thesis by (simp add: Sharded_TotalElem_def)
qed

section \<open>Properties\<close>









end
