(* ===== verification/Bitset_Spec.thy ===== *)
theory Bitset_Spec
  imports Util_Prelude
begin

text \<open>
  The contract of the bit sets of \<^verbatim>\<open>src/cpp-util/bitmap.h\<close>: a set of indices below a bound, with a
  membership test, an insertion that reports whether the index was in the set before, and a removal.
  The locale \<open>bitset\<close> shows that a client that runs any sequence of these operations sees exactly the
  answers of the set.
\<close>

datatype bop = BTest nat | BSet nat | BReset nat

fun bop_index :: "bop \<Rightarrow> nat" where
  "bop_index (BTest i) = i"
| "bop_index (BSet i) = i"
| "bop_index (BReset i) = i"

text \<open>The reference: a set of naturals.\<close>

fun set_step :: "bop \<Rightarrow> nat set \<Rightarrow> bool option \<times> nat set" where
  "set_step (BTest i) S = (Some (i \<in> S), S)"
| "set_step (BSet i) S = (Some (i \<in> S), insert i S)"
| "set_step (BReset i) S = (None, S - {i})"

fun set_run :: "bop list \<Rightarrow> nat set \<Rightarrow> bool option list \<times> nat set" where
  "set_run [] S = ([], S)"
| "set_run (op # ops) S = (let (r, S1) = set_step op S; (rs, S2) = set_run ops S1 in (r # rs, S2))"

fun bits_step ::
  "(nat \<Rightarrow> 's \<Rightarrow> bool option) \<Rightarrow> (nat \<Rightarrow> 's \<Rightarrow> (bool \<times> 's) option) \<Rightarrow> (nat \<Rightarrow> 's \<Rightarrow> 's option) \<Rightarrow> bop \<Rightarrow> 's \<Rightarrow> (bool option \<times> 's) option" where
  "bits_step tst st rst (BTest i) s = map_option (\<lambda>r. (Some r, s)) (tst i s)"
| "bits_step tst st rst (BSet i) s = map_option (\<lambda>(r, s). (Some r, s)) (st i s)"
| "bits_step tst st rst (BReset i) s = map_option (\<lambda>s. (None, s)) (rst i s)"

fun bits_run ::
  "(nat \<Rightarrow> 's \<Rightarrow> bool option) \<Rightarrow> (nat \<Rightarrow> 's \<Rightarrow> (bool \<times> 's) option) \<Rightarrow> (nat \<Rightarrow> 's \<Rightarrow> 's option) \<Rightarrow> bop list \<Rightarrow> 's \<Rightarrow> (bool option list \<times> 's) option" where
  "bits_run tst st rst [] s = Some ([], s)"
| "bits_run tst st rst (op # ops) s = do {
     (r, s) \<leftarrow> bits_step tst st rst op s;
     (rs, s) \<leftarrow> bits_run tst st rst ops s;
     Some (r # rs, s) }"

locale bitset =
  fixes tst :: "nat \<Rightarrow> 's \<Rightarrow> bool option"
    and st :: "nat \<Rightarrow> 's \<Rightarrow> (bool \<times> 's) option"
    and rst :: "nat \<Rightarrow> 's \<Rightarrow> 's option"
    and elems :: "'s \<Rightarrow> nat set"
    and bound :: "'s \<Rightarrow> nat"
    and wf :: "'s \<Rightarrow> bool"
  assumes test_law: "wf s \<Longrightarrow> i < bound s \<Longrightarrow> tst i s = Some (i \<in> elems s)"
    and set_law: "wf s \<Longrightarrow> i < bound s \<Longrightarrow>
      \<exists>s'. st i s = Some (i \<in> elems s, s') \<and> wf s' \<and> bound s' = bound s \<and> elems s' = insert i (elems s)"
    and reset_law: "wf s \<Longrightarrow> i < bound s \<Longrightarrow>
      \<exists>s'. rst i s = Some s' \<and> wf s' \<and> bound s' = bound s \<and> elems s' = elems s - {i}"
begin

lemma step_refines:
  assumes "wf s" "bop_index op < bound s"
  shows "\<exists>s'. bits_step tst st rst op s = Some (fst (set_step op (elems s)), s') \<and> wf s' \<and> bound s' = bound s \<and>
    elems s' = snd (set_step op (elems s))"
  using assms test_law [of s] set_law [of s] reset_law [of s] by (cases op) auto

lemma run_refines:
  assumes "wf s" "\<And>op. op \<in> set ops \<Longrightarrow> bop_index op < bound s"
  shows "\<exists>s'. bits_run tst st rst ops s = Some (fst (set_run ops (elems s)), s') \<and> wf s' \<and> bound s' = bound s \<and>
    elems s' = snd (set_run ops (elems s))"
  using assms
proof (induction ops arbitrary: s)
  case (Cons op ops)
  from step_refines [OF Cons.prems(1), of op] Cons.prems(2) obtain s1 where
    1: "bits_step tst st rst op s = Some (fst (set_step op (elems s)), s1)" "wf s1" "bound s1 = bound s"
      "elems s1 = snd (set_step op (elems s))" by auto
  from Cons.IH [OF 1(2)] 1 Cons.prems(2) show ?case by (auto simp: split_beta Let_def)
qed auto

end

section \<open>Claiming indices concurrently\<close>

text \<open>
  The contract of a lock-free allocator of indices: a step of a thread may claim indices that were free,
  and a thread may give back indices that it holds. \<open>claim_reach run free s0 s h\<close>: from \<open>s0\<close>, with nothing
  held, the threads can reach the state \<open>s\<close> with thread \<open>p\<close> holding the indices \<open>h p\<close>.
\<close>

inductive claim_reach ::
  "(nat \<Rightarrow> 's \<Rightarrow> nat set \<Rightarrow> 's \<Rightarrow> bool) \<Rightarrow> (nat set \<Rightarrow> 's \<Rightarrow> 's \<Rightarrow> bool) \<Rightarrow> 's \<Rightarrow> 's \<Rightarrow> (nat \<Rightarrow> nat set) \<Rightarrow> bool"
  for run free s0 where
  start: "claim_reach run free s0 s0 (\<lambda>_. {})"
| claim: "claim_reach run free s0 s h \<Longrightarrow> run p s A s' \<Longrightarrow> claim_reach run free s0 s' (h(p := h p \<union> A))"
| release: "claim_reach run free s0 s h \<Longrightarrow> R \<subseteq> h p \<Longrightarrow> free R s s' \<Longrightarrow> claim_reach run free s0 s' (h(p := h p - R))"

lemma claim_to: "claim_reach run free s0 s h \<Longrightarrow> run p s A s' \<Longrightarrow> h' = h(p := h p \<union> A) \<Longrightarrow> claim_reach run free s0 s' h'"
  by (simp add: claim_reach.claim)

locale claims =
  fixes run :: "nat \<Rightarrow> 's \<Rightarrow> nat set \<Rightarrow> 's \<Rightarrow> bool"
    and free :: "nat set \<Rightarrow> 's \<Rightarrow> 's \<Rightarrow> bool"
    and busy :: "'s \<Rightarrow> nat set"
    and wf :: "'s \<Rightarrow> bool"
  assumes run_law: "wf s \<Longrightarrow> run p s A s' \<Longrightarrow> wf s' \<and> A \<inter> busy s = {} \<and> busy s' = busy s \<union> A"
    and free_law: "wf s \<Longrightarrow> free R s s' \<Longrightarrow> R \<subseteq> busy s \<Longrightarrow> wf s' \<and> busy s' = busy s - R"
begin

lemma exclusive:
  assumes "claim_reach run free s0 s h" "wf s0"
  shows "wf s \<and> (\<forall>p. h p \<subseteq> busy s) \<and> (\<forall>p q. p \<noteq> q \<longrightarrow> h p \<inter> h q = {})"
  using assms(1)
proof induction
  case (claim s h p A s')
  then have "wf s'" "A \<inter> busy s = {}" "busy s' = busy s \<union> A" using run_law by blast+
  then show ?case using claim.IH by (auto simp: disjoint_iff)
next
  case (release s h R p s')
  then have "wf s'" "busy s' = busy s - R" using free_law [of s R s'] by blast+
  then show ?case using release by (auto simp: disjoint_iff)
qed (use assms(2) in auto)

end

end
