(* ===== verification/Bitmaps.thy ===== *)
theory Bitmaps
  imports Bitset_Spec
begin

text \<open>
  The bitmaps of \<^verbatim>\<open>src/cpp-util/bitmap.h\<close>: the class \<^verbatim>\<open>Bitmap\<close>, the lock-free
  \<^verbatim>\<open>lfbitset_base\<close> behind \<^verbatim>\<open>lfbitset<N>\<close>, and the one-word specialisation
  \<^verbatim>\<open>lfbitset<64>\<close>.

  Words are 64-bit words and indices into arrays naturals; an access outside the words, and a shift by
  64 or more, aborts. The atomic read-modify-write operations are single steps; the compare-and-swap
  loops are modelled as steps of a thread, so that the steps of several threads interleave.
\<close>

section \<open>Words as sets of bits\<close>

definition ffsl :: "u64 \<Rightarrow> nat" where
  "ffsl w = (case find (bit w) [0..<64] of None \<Rightarrow> 0 | Some i \<Rightarrow> i + 1)"

definition one_bit :: "nat \<Rightarrow> u64" where
  "one_bit k = push_bit k 1"

text \<open>A shift by the width of the word or more is undefined.\<close>

definition shr :: "u64 \<Rightarrow> nat \<Rightarrow> u64 option" where
  "shr w k = (if k < 64 then Some (drop_bit k w) else None)"

definition shl :: "u64 \<Rightarrow> nat \<Rightarrow> u64 option" where
  "shl w k = (if k < 64 then Some (push_bit k w) else None)"

section \<open>Bitmap\<close>

record Bitmap =
  bm_bits :: u32
  bm_n64 :: u32
  bm_data :: "u64 list"

definition NewBitmap :: "u32 \<Rightarrow> Bitmap option" where
  "NewBitmap bits = do {
     let n64 = (bits + 63) div 64;
     let rest = bits mod 64;
     let data = replicate (unat n64) 0;
     data \<leftarrow> (if rest \<noteq> 0 then wr data (unat (n64 - 1)) (NOT 0 XOR (push_bit (unat rest) 1 - 1)) else Some data);
     Some \<lparr>bm_bits = bits, bm_n64 = n64, bm_data = data\<rparr> }"

fun full_loop :: "u64 list \<Rightarrow> bool" where
  "full_loop [] = True"
| "full_loop (w # ws) = (if NOT w \<noteq> 0 then False else full_loop ws)"

definition Full :: "Bitmap \<Rightarrow> bool" where
  "Full b = full_loop (take (unat (bm_n64 b)) (bm_data b))"

fun first_free_loop :: "u32 \<Rightarrow> u64 list \<Rightarrow> int" where
  "first_free_loop i [] = - 1"
| "first_free_loop i (w # ws) =
     (let ffp = int (ffsl (NOT w)) - 1 in
      if ffp \<noteq> - 1 then int_of_u32 (i * 64 + of_int ffp) else first_free_loop (i + 1) ws)"

definition FirstFreePos :: "Bitmap \<Rightarrow> int" where
  "FirstFreePos b = first_free_loop 0 (take (unat (bm_n64 b)) (bm_data b))"

definition Test :: "u32 \<Rightarrow> Bitmap \<Rightarrow> bool option" where
  "Test index b = do {
     assert (index < bm_bits b);
     w \<leftarrow> rd (bm_data b) (unat (index div 64));
     Some (w AND one_bit (unat (index mod 64)) \<noteq> 0) }"

definition Reset :: "u32 \<Rightarrow> Bitmap \<Rightarrow> Bitmap option" where
  "Reset index b = do {
     assert (index < bm_bits b);
     w \<leftarrow> rd (bm_data b) (unat (index div 64));
     ws \<leftarrow> wr (bm_data b) (unat (index div 64)) (w AND NOT (one_bit (unat (index mod 64))));
     Some (b\<lparr>bm_data := ws\<rparr>) }"

definition Set :: "u32 \<Rightarrow> Bitmap \<Rightarrow> (bool \<times> Bitmap) option" where
  "Set index b = do {
     assert (index < bm_bits b);
     w \<leftarrow> rd (bm_data b) (unat (index div 64));
     if w AND one_bit (unat (index mod 64)) \<noteq> 0 then Some (False, b)
     else do {
       ws \<leftarrow> wr (bm_data b) (unat (index div 64)) (w OR one_bit (unat (index mod 64)));
       Some (True, b\<lparr>bm_data := ws\<rparr>) } }"

section \<open>The lock-free bit set\<close>

record lfbitset =
  lf_widx :: nat
  lf_Nbits :: nat
  lf_align_N :: nat
  lf_words :: "u64 list"

definition lf_clear :: "lfbitset \<Rightarrow> lfbitset" where
  "lf_clear b = b\<lparr>lf_words := map (\<lambda>_. 0) [0..<lf_align_N b]\<rparr>"

definition lfbitset_new :: "nat \<Rightarrow> lfbitset" where
  "lfbitset_new n = lf_clear \<lparr>lf_widx = 0, lf_Nbits = n, lf_align_N = (n + 63) div 64, lf_words = replicate ((n + 63) div 64) 0\<rparr>"

fun none_loop :: "u64 list \<Rightarrow> bool" where
  "none_loop [] = True"
| "none_loop (w # ws) = (if w \<noteq> 0 then False else none_loop ws)"

definition lf_none :: "lfbitset \<Rightarrow> bool" where
  "lf_none b = none_loop (take (lf_align_N b) (lf_words b))"

fun any_loop :: "u64 list \<Rightarrow> bool" where
  "any_loop [] = False"
| "any_loop (w # ws) = (if w \<noteq> 0 then True else any_loop ws)"

definition lf_any :: "lfbitset \<Rightarrow> bool" where
  "lf_any b = any_loop (take (lf_align_N b) (lf_words b))"

text \<open>With no bits at all \<^verbatim>\<open>align_N - 1\<close> wraps and the loop leaves the array.\<close>

definition lf_all :: "lfbitset \<Rightarrow> bool option" where
  "lf_all b = do {
     assert (0 < lf_align_N b);
     if \<not> full_loop (take (lf_align_N b - 1) (lf_words b)) then Some False
     else do {
       w \<leftarrow> rd (lf_words b) (lf_align_N b - 1);
       let tail = lf_Nbits b mod 64;
       Some (if tail = 0 then NOT w = 0 else w = one_bit tail - 1) } }"

definition lf_nany :: "lfbitset \<Rightarrow> bool option" where
  "lf_nany b = do {
     assert (0 < lf_align_N b);
     if \<not> full_loop (take (lf_align_N b - 1) (lf_words b)) then Some True
     else do {
       w \<leftarrow> rd (lf_words b) (lf_align_N b - 1);
       let tail = lf_Nbits b mod 64;
       Some (if tail = 0 then NOT w \<noteq> 0 else w \<noteq> one_bit tail - 1) } }"

definition lf_test :: "nat \<Rightarrow> lfbitset \<Rightarrow> bool option" where
  "lf_test i b = do { w \<leftarrow> rd (lf_words b) (i div 64); Some (w AND one_bit (i mod 64) \<noteq> 0) }"

text \<open>The atomic read-modify-write operations, which return the previous bit.\<close>

definition lf_fetch :: "(u64 \<Rightarrow> u64) \<Rightarrow> nat \<Rightarrow> lfbitset \<Rightarrow> (bool \<times> lfbitset) option" where
  "lf_fetch f i b = do {
     pre \<leftarrow> rd (lf_words b) (i div 64);
     ws \<leftarrow> wr (lf_words b) (i div 64) (f pre);
     Some (pre AND one_bit (i mod 64) \<noteq> 0, b\<lparr>lf_words := ws\<rparr>) }"

definition lf_set :: "nat \<Rightarrow> lfbitset \<Rightarrow> (bool \<times> lfbitset) option" where
  "lf_set i = lf_fetch (\<lambda>w. w OR one_bit (i mod 64)) i"

definition lf_reset :: "nat \<Rightarrow> lfbitset \<Rightarrow> (bool \<times> lfbitset) option" where
  "lf_reset i = lf_fetch (\<lambda>w. w AND NOT (one_bit (i mod 64))) i"

definition lf_flip :: "nat \<Rightarrow> lfbitset \<Rightarrow> (bool \<times> lfbitset) option" where
  "lf_flip i = lf_fetch (\<lambda>w. w XOR one_bit (i mod 64)) i"

text \<open>\<open>lf_reset_bulk\<close> clears \<open>n\<close> bits from \<open>i\<close>, word by word.\<close>

definition and_word :: "nat \<Rightarrow> u64 \<Rightarrow> u64 list \<Rightarrow> u64 list option" where
  "and_word k m ws = do { w \<leftarrow> rd ws k; wr ws k (w AND m) }"

fun clear_words :: "nat \<Rightarrow> nat \<Rightarrow> u64 list \<Rightarrow> u64 list option" where
  "clear_words m 0 ws = Some ws"
| "clear_words m (Suc k) ws = do { ws \<leftarrow> wr ws m 0; clear_words (m + 1) k ws }"

definition lf_reset_bulk :: "nat \<Rightarrow> nat \<Rightarrow> lfbitset \<Rightarrow> lfbitset option" where
  "lf_reset_bulk i n b = (let s = i div 64; e = (i + n) div 64 in
     if s = e then
       (if i mod 64 = 0 \<and> n = 64 then do { ws \<leftarrow> wr (lf_words b) s 0; Some (b\<lparr>lf_words := ws\<rparr>) }
        else do {
          low \<leftarrow> shl 1 n;
          ws \<leftarrow> and_word s (NOT (push_bit (i mod 64) (low - 1))) (lf_words b);
          Some (b\<lparr>lf_words := ws\<rparr>) })
     else do {
       let h = 64 - i mod 64;
       ws \<leftarrow> (if h = 64 then wr (lf_words b) s 0
             else do { low \<leftarrow> shl 1 h; and_word s (NOT (push_bit (i mod 64) (low - 1))) (lf_words b) });
       ws \<leftarrow> clear_words (s + 1) (e - (s + 1)) ws;
       let t = (i + n) mod 64;
       ws \<leftarrow> (if t = 64 then wr ws e 0 else do { low \<leftarrow> shl 1 t; and_word e (NOT (low - 1)) ws });
       Some (b\<lparr>lf_words := ws\<rparr>) })"

subsection \<open>Claiming a free bit\<close>

text \<open>
  The steps of \<^verbatim>\<open>ffs_and_set\<close>: \<open>FLoad i k\<close> starts round \<open>i\<close> at word \<open>k\<close>, \<open>FTry i k w\<close> holds the
  last value \<open>w\<close> seen of that word, \<open>FStore k idx\<close> has claimed bit \<open>idx\<close> and has still to write
  \<^verbatim>\<open>this->widx\<close>. The exchange is the weak one: it may fail without a reason (\<open>spurious\<close>).
\<close>

datatype fpc = FIdle | FCall | FLoad nat nat | FTry nat nat u64 | FStore nat nat | FRet "nat option"

fun ffs_step :: "bool \<Rightarrow> lfbitset \<Rightarrow> fpc \<Rightarrow> (lfbitset \<times> fpc) option" where
  "ffs_step spurious b FCall = do { assert (0 < lf_align_N b); Some (b, FLoad 0 (lf_widx b mod lf_align_N b)) }"
| "ffs_step spurious b (FLoad i k) =
     (if i < lf_align_N b then do { w \<leftarrow> rd (lf_words b) k; Some (b, FTry i k w) } else Some (b, FRet None))"
| "ffs_step spurious b (FTry i k w) =
     (let idx = ffsl (NOT w) in
      if idx = 0 \<or> lf_Nbits b < k * 64 + idx then Some (b, FLoad (i + 1) ((k + 1) mod lf_align_N b))
      else do {
        cur \<leftarrow> rd (lf_words b) k;
        if cur = w \<and> \<not> spurious then do {
          ws \<leftarrow> wr (lf_words b) k (w OR one_bit (idx - 1));
          Some (b\<lparr>lf_words := ws\<rparr>, FStore k (k * 64 + idx - 1)) }
        else Some (b, FTry i k cur) })"
| "ffs_step spurious b (FStore k idx) = Some (b\<lparr>lf_widx := k + 8\<rparr>, FRet (Some idx))"
| "ffs_step spurious b _ = None"

fun run_ffs :: "nat \<Rightarrow> lfbitset \<Rightarrow> fpc \<Rightarrow> (nat option \<times> lfbitset) option" where
  "run_ffs fuel b (FRet r) = Some (r, b)"
| "run_ffs 0 b c = None"
| "run_ffs (Suc fuel) b c = do { (b, c) \<leftarrow> ffs_step False b c; run_ffs fuel b c }"

text \<open>The call with no concurrent access: two steps for each word and three more.\<close>

definition ffs_and_set :: "lfbitset \<Rightarrow> (nat option \<times> lfbitset) option" where
  "ffs_and_set b = run_ffs (2 * lf_align_N b + 4) b FCall"

section \<open>The one-word set\<close>

definition w_test :: "nat \<Rightarrow> u64 \<Rightarrow> bool option" where
  "w_test i w = do { m \<leftarrow> shl 1 i; Some (w AND m \<noteq> 0) }"

definition w_set :: "nat \<Rightarrow> u64 \<Rightarrow> (bool \<times> u64) option" where
  "w_set i w = do { m \<leftarrow> shl 1 i; Some (w AND m \<noteq> 0, w OR m) }"

definition w_reset :: "nat \<Rightarrow> u64 \<Rightarrow> (bool \<times> u64) option" where
  "w_reset i w = do { m \<leftarrow> shl 1 i; Some (w AND m \<noteq> 0, w AND NOT m) }"

definition w_flip :: "nat \<Rightarrow> u64 \<Rightarrow> (bool \<times> u64) option" where
  "w_flip i w = do { m \<leftarrow> shl 1 i; Some (w AND m \<noteq> 0, w XOR m) }"

definition w_none :: "u64 \<Rightarrow> bool" where "w_none w \<longleftrightarrow> w = 0"
definition w_any :: "u64 \<Rightarrow> bool" where "w_any w \<longleftrightarrow> w \<noteq> 0"
definition w_nany :: "u64 \<Rightarrow> bool" where "w_nany w \<longleftrightarrow> NOT w \<noteq> 0"
definition w_all :: "u64 \<Rightarrow> bool" where "w_all w \<longleftrightarrow> NOT w = 0"

definition w_reset_bulk :: "nat \<Rightarrow> nat \<Rightarrow> u64 \<Rightarrow> u64 option" where
  "w_reset_bulk i n w =
     (if i = 0 \<and> n = 64 then Some 0
      else do { low \<leftarrow> shl 1 n; m \<leftarrow> shl (low - 1) i; Some (w AND NOT m) })"

text \<open>
  The search of \<^verbatim>\<open>ffs_and_set_bulk\<close> in the last value seen: either it gives up (\<open>Some None\<close>), or it
  goes for the exchange at a position. The claim of a single bit uses the first free one.
\<close>

function bulk_scan :: "nat \<Rightarrow> u64 \<Rightarrow> nat \<Rightarrow> nat option option" where
  "bulk_scan n w idx =
     (if n \<le> 64 \<and> idx \<le> 64 - n then do {
        free \<leftarrow> shr (NOT w) idx;
        let first_0 = ffsl free;
        if first_0 = 0 then Some None
        else do {
          rest \<leftarrow> shr w (idx + first_0);
          let first_1_after_0 = ffsl rest;
          if first_1_after_0 \<noteq> 0 \<and> first_1_after_0 < n then bulk_scan n w (idx + first_0 + first_1_after_0)
          else if 64 - n < idx + first_0 - 1 then Some None
          else Some (Some (idx + first_0 - 1)) } }
      else Some None)"
  by pat_completeness auto
termination by (relation "measure (\<lambda>(n, w, idx). 65 - idx)") (auto simp: Let_def split: if_splits)

declare bulk_scan.simps [simp del]

definition bulk_mask :: "nat \<Rightarrow> u64 option" where
  "bulk_mask n = (if n = 64 then Some (NOT 0) else do { low \<leftarrow> shl 1 n; Some (low - 1) })"

definition scan :: "nat \<Rightarrow> u64 \<Rightarrow> nat option option" where
  "scan n w = (if n = 1 then Some (let idx = ffsl (NOT w) in if idx = 0 then None else Some (idx - 1)) else bulk_scan n w 0)"

datatype wpc64 = W64Idle | W64Call nat | W64Try nat u64 | W64Ret nat "nat option"

fun w_step :: "bool \<Rightarrow> u64 \<Rightarrow> wpc64 \<Rightarrow> (u64 \<times> wpc64) option" where
  "w_step spurious word (W64Call n) = do { m \<leftarrow> (if n = 1 then Some 1 else bulk_mask n); Some (word, W64Try n word) }"
| "w_step spurious word (W64Try n w) = do {
     r \<leftarrow> scan n w;
     case r of
       None \<Rightarrow> Some (word, W64Ret n None)
     | Some p \<Rightarrow>
         if word = w \<and> \<not> spurious then do {
           m \<leftarrow> bulk_mask n;
           m \<leftarrow> shl m p;
           Some (w OR m, W64Ret n (Some p)) }
         else Some (word, W64Try n word) }"
| "w_step spurious word _ = None"

fun run_w :: "nat \<Rightarrow> u64 \<Rightarrow> wpc64 \<Rightarrow> (nat option \<times> u64) option" where
  "run_w fuel word (W64Ret n r) = Some (r, word)"
| "run_w 0 word c = None"
| "run_w (Suc fuel) word c = do { (word, c) \<leftarrow> w_step False word c; run_w fuel word c }"

definition ffs_and_set_bulk :: "nat \<Rightarrow> u64 \<Rightarrow> (nat option \<times> u64) option" where
  "ffs_and_set_bulk n word = run_w 2 word (W64Call n)"

section \<open>Lemmas on bits\<close>

lemma one_bit_exp: "one_bit k = 2 ^ k"
  by (simp add: one_bit_def push_bit_eq_mult)

lemma and_one_bit [simp]: "w AND one_bit k = 0 \<longleftrightarrow> \<not> bit w k"
  using and_exp_eq_0_iff_not_bit [of w k] by (simp add: one_bit_exp)

lemma bit_one_bit [simp]: "bit (one_bit k) n \<longleftrightarrow> n = k \<and> k < 64"
  unfolding one_bit_exp using bit_exp_iff [of k n, where 'a = u64] by auto

lemma bit_u64_beyond: "bit (w :: u64) n \<Longrightarrow> n < 64"
  using bit_imp_le_length [of w n] by simp

lemma u64_eqI: "(\<And>n. n < 64 \<Longrightarrow> bit (v :: u64) n = bit w n) \<Longrightarrow> v = w"
  by (rule bit_word_eqI) simp

lemma not_eq_0_iff: "NOT (w :: u64) = 0 \<longleftrightarrow> (\<forall>k<64. bit w k)"
  by (auto simp: bit_eq_iff bit_not_iff)

lemma ffsl_eq_0: "ffsl w = 0 \<longleftrightarrow> w = 0"
proof -
  have "ffsl w = 0 \<longleftrightarrow> find (bit w) [0..<64] = None" by (simp add: ffsl_def split: option.splits)
  also have "\<dots> \<longleftrightarrow> (\<forall>k<64. \<not> bit w k)" by (auto simp: find_None_iff)
  finally have "ffsl w = 0 \<longleftrightarrow> (\<forall>k<64. \<not> bit w k)" .
  then show ?thesis by (auto simp: bit_eq_iff dest: bit_u64_beyond)
qed

lemma ffsl_Suc: "ffsl w = Suc i \<Longrightarrow> bit w i \<and> (\<forall>j<i. \<not> bit w j) \<and> i < 64"
  by (auto simp: ffsl_def find_Some_iff split: option.splits)

lemma ffsl_pos: "ffsl w \<noteq> 0 \<Longrightarrow> bit w (ffsl w - 1) \<and> (\<forall>j < ffsl w - 1. \<not> bit w j) \<and> ffsl w \<le> 64"
  using ffsl_Suc [of w "ffsl w - 1"] by (cases "ffsl w") auto

text \<open>The bits of an array of words.\<close>

definition has_bit :: "u64 list \<Rightarrow> nat \<Rightarrow> bool" where
  "has_bit ws i \<longleftrightarrow> i div 64 < length ws \<and> bit (ws ! (i div 64)) (i mod 64)"

lemma div_mod_eq_64: "(i :: nat) div 64 = j div 64 \<Longrightarrow> i mod 64 = j mod 64 \<Longrightarrow> i = j"
  by (metis div_mult_mod_eq)

lemma has_bit_upd:
  "k < length ws \<Longrightarrow> has_bit (ws[k := w]) i \<longleftrightarrow> (if i div 64 = k then bit w (i mod 64) else has_bit ws i)"
  by (auto simp: has_bit_def nth_list_update)

lemma has_bit_zero [simp]: "\<not> has_bit (replicate k 0) i"
  by (simp add: has_bit_def)

lemma word_op_bits:
  assumes "i div 64 < length ws"
  shows "has_bit (ws[i div 64 := ws ! (i div 64) OR one_bit (i mod 64)]) j \<longleftrightarrow> j = i \<or> has_bit ws j"
    "has_bit (ws[i div 64 := ws ! (i div 64) AND NOT (one_bit (i mod 64))]) j \<longleftrightarrow> j \<noteq> i \<and> has_bit ws j"
    "has_bit (ws[i div 64 := ws ! (i div 64) XOR one_bit (i mod 64)]) j \<longleftrightarrow> (if j = i then \<not> has_bit ws j else has_bit ws j)"
  using assms div_mod_eq_64 [of i j]
  by (auto simp: has_bit_upd bit_or_iff bit_and_iff bit_not_iff bit_xor_iff) (auto simp: has_bit_def)

lemma full_loop_iff: "full_loop ws \<longleftrightarrow> (\<forall>i < 64 * length ws. has_bit ws i)"
proof -
  have "full_loop ws \<longleftrightarrow> (\<forall>w\<in>set ws. \<forall>k<64. bit w k)" by (induction ws) (auto simp: not_eq_0_iff)
  also have "\<dots> \<longleftrightarrow> (\<forall>n < length ws. \<forall>k<64. bit (ws ! n) k)" by (metis in_set_conv_nth)
  also have "\<dots> \<longleftrightarrow> (\<forall>i < 64 * length ws. has_bit ws i)"
  proof (intro iffI allI impI)
    fix i assume a: "\<forall>n < length ws. \<forall>k<64. bit (ws ! n) k" and i: "i < 64 * length ws"
    then have "i div 64 < length ws" by (simp add: less_mult_imp_div_less mult.commute)
    then show "has_bit ws i" using a by (simp add: has_bit_def)
  next
    fix n k :: nat assume a: "\<forall>i < 64 * length ws. has_bit ws i" and n: "n < length ws" "k < 64"
    then have "64 * n + k < 64 * length ws" by simp
    with a have "has_bit ws (64 * n + k)" by blast
    then show "bit (ws ! n) k" using n by (simp add: has_bit_def)
  qed
  finally show ?thesis .
qed

lemma none_loop_iff: "none_loop ws \<longleftrightarrow> (\<forall>i. \<not> has_bit ws i)" "any_loop ws \<longleftrightarrow> \<not> none_loop ws"
proof -
  have "none_loop ws \<longleftrightarrow> (\<forall>w\<in>set ws. w = 0)" by (induction ws) auto
  also have "\<dots> \<longleftrightarrow> (\<forall>n < length ws. ws ! n = 0)" by (metis in_set_conv_nth)
  also have "\<dots> \<longleftrightarrow> (\<forall>i. \<not> has_bit ws i)"
  proof (intro iffI allI impI)
    fix n assume a: "\<forall>i. \<not> has_bit ws i" and n: "n < length ws"
    show "ws ! n = 0"
    proof (rule u64_eqI)
      fix k :: nat assume "k < 64"
      then show "bit (ws ! n) k = bit 0 k" using a [rule_format, of "64 * n + k"] n by (simp add: has_bit_def)
    qed
  qed (auto simp: has_bit_def)
  finally show "none_loop ws \<longleftrightarrow> (\<forall>i. \<not> has_bit ws i)" .
  show "any_loop ws \<longleftrightarrow> \<not> none_loop ws" by (induction ws) auto
qed

section \<open>Bitmap is a set\<close>

definition bm_set :: "Bitmap \<Rightarrow> nat set" where
  "bm_set b = {i. i < unat (bm_bits b) \<and> has_bit (bm_data b) i}"

text \<open>The invariant: the words cover the bits, and the bits beyond the last one are set so that no search
  returns them.\<close>

definition bm_ok :: "Bitmap \<Rightarrow> bool" where
  "bm_ok b \<longleftrightarrow> length (bm_data b) = unat (bm_n64 b) \<and> unat (bm_n64 b) = (unat (bm_bits b) + 63) div 64 \<and>
     (\<forall>i. unat (bm_bits b) \<le> i \<and> i < 64 * unat (bm_n64 b) \<longrightarrow> has_bit (bm_data b) i)"

lemma unat_64_u32 [simp]: "unat (i div 64 :: u32) = unat i div 64" "unat (i mod 64 :: u32) = unat i mod 64"
  by (simp_all add: unat_div unat_mod)

lemma bm_index: "bm_ok b \<Longrightarrow> i < unat (bm_bits b) \<Longrightarrow> i div 64 < length (bm_data b)"
  by (auto simp: bm_ok_def)

lemma pad_word:
  assumes "0 < r" "r < 64" "k < 64"
  shows "bit (NOT 0 XOR (push_bit r 1 - 1) :: u64) k \<longleftrightarrow> r \<le> k"
proof -
  have "push_bit r 1 - 1 = (mask r :: u64)" by (simp add: push_bit_eq_mult mask_eq_exp_minus_1)
  then show ?thesis using assms by (auto simp: bit_xor_iff bit_not_iff bit_mask_iff)
qed

lemma ceil_64:
  fixes b :: nat
  shows "b mod 64 = 0 \<Longrightarrow> 64 * ((b + 63) div 64) = b" "b mod 64 \<noteq> 0 \<Longrightarrow> 64 * ((b + 63) div 64) + b mod 64 = b + 64"
    "b \<le> 64 * ((b + 63) div 64)"
proof -
  obtain q r where b: "b = 64 * q + r" "r < 64" using div_mult_mod_eq [of b 64] mod_less_divisor [of 64 b] by (metis mult.commute zero_less_numeral)
  have "(b + 63) div 64 = (if r = 0 then q else q + 1)" "b mod 64 = r" using b by (auto intro!: div_nat_eqI)
  then show "b mod 64 = 0 \<Longrightarrow> 64 * ((b + 63) div 64) = b" "b mod 64 \<noteq> 0 \<Longrightarrow> 64 * ((b + 63) div 64) + b mod 64 = b + 64"
      "b \<le> 64 * ((b + 63) div 64)"
    using b by (auto split: if_splits)
qed

lemma NewBitmap_words:
  assumes "unat bits + 63 < 2 ^ 32"
  defines "n \<equiv> (unat bits + 63) div 64" and "r \<equiv> unat bits mod 64"
  shows "NewBitmap bits = Some \<lparr>bm_bits = bits, bm_n64 = (bits + 63) div 64,
      bm_data = (if r = 0 then replicate n 0 else (replicate n 0)[n - 1 := NOT 0 XOR (push_bit r 1 - 1)])\<rparr>"
    "unat ((bits + 63) div 64) = n"
proof -
  have "unat (bits + 63) = unat bits + 63" using assms(1) by (simp add: unat_word_ariths)
  then show n: "unat ((bits + 63) div 64) = n" by (simp add: n_def)
  have r: "unat (bits mod 64) = r" by (simp add: r_def)
  then have r0: "bits mod 64 = 0 \<longleftrightarrow> r = 0" by (metis unat_0 word_unat_eq_iff)
  show "NewBitmap bits = Some \<lparr>bm_bits = bits, bm_n64 = (bits + 63) div 64,
      bm_data = (if r = 0 then replicate n 0 else (replicate n 0)[n - 1 := NOT 0 XOR (push_bit r 1 - 1)])\<rparr>"
  proof (cases "r = 0")
    case True
    then show ?thesis unfolding NewBitmap_def Let_def n r0 by simp
  next
    case False
    have nb: "0 < n" using False ceil_64(2) [of "unat bits"] by (cases n) (auto simp: n_def r_def)
    then have "1 \<le> (bits + 63) div 64" using n by (simp add: word_le_nat_alt)
    then have "unat ((bits + 63) div 64 - 1) = n - 1" using n by (simp add: unat_sub)
    then show ?thesis using False nb unfolding NewBitmap_def Let_def n r0 r by simp
  qed
qed

lemma NewBitmap_ok:
  assumes "unat bits + 63 < 2 ^ 32"
  shows "\<exists>b. NewBitmap bits = Some b \<and> bm_ok b \<and> bm_bits b = bits \<and> bm_set b = {}"
proof -
  define n where "n = (unat bits + 63) div 64"
  define r where "r = unat bits mod 64"
  define ws where "ws = (if r = 0 then replicate n 0 else (replicate n 0)[n - 1 := NOT 0 XOR (push_bit r 1 - 1) :: u64])"
  note N = NewBitmap_words [OF assms, folded n_def r_def, folded ws_def]
  have len: "length ws = n" by (simp add: ws_def)
  have "has_bit ws i \<longleftrightarrow> unat bits \<le> i" if i: "i < 64 * n" for i
  proof (cases "r = 0")
    case True
    then have "64 * n = unat bits" using ceil_64(1) by (simp add: n_def r_def)
    then show ?thesis using i True by (simp add: ws_def)
  next
    case False
    have "64 * n + r = unat bits + 64" using ceil_64(2) [of "unat bits"] False by (simp add: n_def r_def)
    moreover have "r < 64" by (simp add: r_def)
    ultimately have nb: "0 < n" "64 * (n - 1) + r = unat bits" "r < 64" by linarith+
    have "has_bit ws i \<longleftrightarrow> i div 64 = n - 1 \<and> r \<le> i mod 64"
      using False nb pad_word [of r "i mod 64"] by (simp add: ws_def has_bit_upd)
    also have "\<dots> \<longleftrightarrow> unat bits \<le> i" 
    proof -
      obtain q k where i': "i = 64 * q + k" "k < 64" "i div 64 = q" "i mod 64 = k" by (metis div_mult_mod_eq mod_less_divisor mult.commute zero_less_numeral)
      then have "q \<le> n - 1" using i nb(1) by simp
      then show ?thesis using i' nb by (cases "q = n - 1") auto
    qed
    finally show ?thesis .
  qed
  moreover have "unat bits \<le> 64 * n" using ceil_64(3) by (simp add: n_def)
  ultimately have "bm_ok \<lparr>bm_bits = bits, bm_n64 = (bits + 63) div 64, bm_data = ws\<rparr>"
      "bm_set \<lparr>bm_bits = bits, bm_n64 = (bits + 63) div 64, bm_data = ws\<rparr> = {}"
    using N(2) len unfolding bm_ok_def bm_set_def by (auto simp: n_def)
  then show ?thesis using N(1) by simp
qed

subsection \<open>The operations\<close>

lemma unat_of_nat_32: "i < 2 ^ 32 \<Longrightarrow> unat (of_nat i :: u32) = i"
  by (simp add: unsigned_of_nat take_bit_nat_eq_self)

lemma unat_of_nat_u32: "i < unat (b :: u32) \<Longrightarrow> unat (of_nat i :: u32) = i"
  using unat_less_two_power [of b] by (intro unat_of_nat_32) simp

lemma of_nat_less_u32: "i < unat (b :: u32) \<Longrightarrow> (of_nat i :: u32) < b"
  by (simp add: word_less_nat_alt unat_of_nat_u32)

abbreviation bm_set_was :: "nat \<Rightarrow> Bitmap \<Rightarrow> (bool \<times> Bitmap) option" where
  "bm_set_was i b \<equiv> map_option (\<lambda>(new, b). (\<not> new, b)) (Set (of_nat i) b)"

lemma bm_ok_upd:
  assumes "bm_ok b" "length ws = length (bm_data b)" "\<And>j. unat (bm_bits b) \<le> j \<Longrightarrow> has_bit ws j \<longleftrightarrow> has_bit (bm_data b) j"
  shows "bm_ok (b\<lparr>bm_data := ws\<rparr>)"
  using assms by (auto simp: bm_ok_def)

interpretation bm: bitset "\<lambda>i. Test (of_nat i)" bm_set_was "\<lambda>i. Reset (of_nat i)" bm_set "\<lambda>b. unat (bm_bits b)" bm_ok
proof unfold_locales
  fix b i assume ok: "bm_ok b" and i: "i < unat (bm_bits b)"
  note ix = bm_index [OF ok i] and oi = unat_of_nat_u32 [OF i] of_nat_less_u32 [OF i]
  let ?w = "bm_data b ! (i div 64)"
  have mem: "i \<in> bm_set b \<longleftrightarrow> bit ?w (i mod 64)" using i ix by (simp add: bm_set_def has_bit_def)
  show "Test (of_nat i) b = Some (i \<in> bm_set b)" using ix oi mem by (simp add: Test_def)
  note W = word_op_bits [OF ix]
  let ?b1 = "b\<lparr>bm_data := (bm_data b)[i div 64 := ?w OR one_bit (i mod 64)]\<rparr>"
  have "bm_ok ?b1" by (rule bm_ok_upd [OF ok]) (use i W in auto)
  moreover have "bm_set ?b1 = insert i (bm_set b)" using i W by (auto simp: bm_set_def)
  moreover have "Set (of_nat i) b = (if i \<in> bm_set b then Some (False, b) else Some (True, ?b1))"
    using ix oi mem by (simp add: Set_def)
  ultimately show "\<exists>b'. bm_set_was i b = Some (i \<in> bm_set b, b') \<and> bm_ok b' \<and> unat (bm_bits b') = unat (bm_bits b) \<and>
      bm_set b' = insert i (bm_set b)"
    using ok by (cases "i \<in> bm_set b") (auto simp: insert_absorb)
  let ?b2 = "b\<lparr>bm_data := (bm_data b)[i div 64 := ?w AND NOT (one_bit (i mod 64))]\<rparr>"
  have "bm_ok ?b2" by (rule bm_ok_upd [OF ok]) (use i W in auto)
  moreover have "bm_set ?b2 = bm_set b - {i}" using i W by (auto simp: bm_set_def)
  moreover have "Reset (of_nat i) b = Some ?b2" using ix oi by (simp add: Reset_def)
  ultimately show "\<exists>b'. Reset (of_nat i) b = Some b' \<and> bm_ok b' \<and> unat (bm_bits b') = unat (bm_bits b) \<and> bm_set b' = bm_set b - {i}"
    by auto
qed

lemma has_bit_Cons: "has_bit (w # ws) i \<longleftrightarrow> (if i < 64 then bit w i else has_bit ws (i - 64))"
proof (cases "i < 64")
  case False
  then obtain j where "i = j + 64" by (metis le_add_diff_inverse2 not_less)
  moreover have "(j + 64) div 64 = Suc (j div 64)" by (simp add: div_add_self2)
  ultimately show ?thesis by (simp add: has_bit_def)
qed (simp add: has_bit_def)

lemma first_free_loop_spec:
  assumes "64 * (k + length ws) \<le> 2 ^ 31"
  shows "if full_loop ws then first_free_loop (of_nat k) ws = - 1
    else \<exists>p < 64 * length ws. first_free_loop (of_nat k) ws = int (64 * k + p) \<and> \<not> has_bit ws p \<and> (\<forall>j<p. has_bit ws j)"
  using assms
proof (induction ws arbitrary: k)
  case (Cons w ws)
  show ?case
  proof (cases "NOT w = 0")
    case True
    have fl: "first_free_loop (of_nat k) (w # ws) = first_free_loop (of_nat (k + 1)) ws"
      using True ffsl_eq_0 [of "NOT w"] by (simp add: Let_def add.commute)
    have b: "bit w i" if "i < 64" for i using True that by (simp add: not_eq_0_iff)
    show ?thesis
    proof (cases "full_loop ws")
      case f: True
      have "64 * (k + 1 + length ws) \<le> 2 ^ 31" using Cons.prems by simp
      from Cons.IH [OF this] f True show ?thesis unfolding fl by simp
    next
      case False
      with Cons.IH [of "k + 1"] Cons.prems obtain p where p: "p < 64 * length ws"
          "first_free_loop (of_nat (k + 1)) ws = int (64 * (k + 1) + p)" "\<not> has_bit ws p" "\<forall>j<p. has_bit ws j" by auto
      have "\<forall>j < p + 64. has_bit (w # ws) j" using p(4) b by (auto simp: has_bit_Cons)
      moreover have "\<not> has_bit (w # ws) (p + 64)" using p(3) by (simp add: has_bit_Cons)
      ultimately show ?thesis
        using p False True unfolding fl by (auto intro!: exI [of _ "p + 64"])
    qed
  next
    case False
    then have f: "ffsl (NOT w) \<noteq> 0" by (simp add: ffsl_eq_0)
    define p where "p = ffsl (NOT w) - 1"
    have p: "bit (NOT w) p" "\<forall>j<p. \<not> bit (NOT w) j" "p < 64" "ffsl (NOT w) = Suc p" using ffsl_pos [OF f] f by (auto simp: p_def)
    have "64 * k + p < 2 ^ 31" using Cons.prems p(3) by simp
    then have "unat (of_nat (64 * k + p) :: u32) = 64 * k + p" by (intro unat_of_nat_32) simp
    then have "int_of_u32 (of_nat k * 64 + of_nat p) = int (64 * k + p)"
      using \<open>64 * k + p < 2 ^ 31\<close> by (simp add: int_of_u32_def mult.commute)
    then have "first_free_loop (of_nat k) (w # ws) = int (64 * k + p)" using p(4) by (simp add: Let_def)
    moreover have "\<not> has_bit (w # ws) p" "\<forall>j<p. has_bit (w # ws) j" using p by (auto simp: has_bit_Cons bit_not_iff)
    ultimately show ?thesis using False p(3) by auto
  qed
qed simp

lemma bm_full:
  assumes "bm_ok b"
  shows "Full b \<longleftrightarrow> bm_set b = {..<unat (bm_bits b)}"
    "unat (bm_bits b) \<le> 2 ^ 31 - 64 \<Longrightarrow> FirstFreePos b =
      (if bm_set b = {..<unat (bm_bits b)} then - 1 else int (LEAST i. i \<notin> bm_set b))"
proof -
  have len: "length (bm_data b) = unat (bm_n64 b)" "unat (bm_n64 b) = (unat (bm_bits b) + 63) div 64" using assms by (auto simp: bm_ok_def)
  have le: "unat (bm_bits b) \<le> 64 * unat (bm_n64 b)" using ceil_64(3) [of "unat (bm_bits b)"] len(2) by simp
  have pad: "has_bit (bm_data b) i" if "unat (bm_bits b) \<le> i" "i < 64 * unat (bm_n64 b)" for i using assms that by (auto simp: bm_ok_def)
  have tk: "take (unat (bm_n64 b)) (bm_data b) = bm_data b" using len(1) by simp
  show full: "Full b \<longleftrightarrow> bm_set b = {..<unat (bm_bits b)}"
    unfolding Full_def tk full_loop_iff len(1) using pad le
    by (auto simp: bm_set_def)
  assume sm: "unat (bm_bits b) \<le> 2 ^ 31 - 64"
  have "64 * (0 + length (bm_data b)) \<le> 2 ^ 31"
    using sm len ceil_64(1,2) [of "unat (bm_bits b)"] by (cases "unat (bm_bits b) mod 64 = 0") auto
  note F = first_free_loop_spec [OF this]
  show "FirstFreePos b = (if bm_set b = {..<unat (bm_bits b)} then - 1 else int (LEAST i. i \<notin> bm_set b))"
  proof (cases "full_loop (bm_data b)")
    case True
    then show ?thesis using F full by (simp add: FirstFreePos_def Full_def tk)
  next
    case False
    then obtain p where p: "p < 64 * length (bm_data b)" "first_free_loop 0 (bm_data b) = int p" "\<not> has_bit (bm_data b) p"
        "\<forall>j<p. has_bit (bm_data b) j" using F by auto
    have "p < unat (bm_bits b)" using pad [of p] p(1,3) len(1) by (cases "unat (bm_bits b) \<le> p") auto
    then have "(LEAST i. i \<notin> bm_set b) = p"
      using p(3,4) by (intro Least_equality) (auto simp: bm_set_def linorder_not_less [symmetric])
    then show ?thesis using False full p(2) by (simp add: FirstFreePos_def Full_def tk)
  qed
qed

end
