(* ===== verification/Lf_Bitsets.thy ===== *)
theory Lf_Bitsets
  imports Bitmaps
begin

text \<open>
  Proofs for the bit sets of \<^verbatim>\<open>src/cpp-util/bitmap.h\<close>: the lock-free sets refine a set of naturals
  (\<open>lf\<close>, \<open>ws\<close>), their claims are exclusive in every interleaving (\<open>lfa\<close>, \<open>wsa\<close>), and the search for a run of free
  bits finds the first one. The properties of the component are at the end.
\<close>

unbundle bit_operations_syntax

section \<open>The lock-free bit set is a set\<close>

definition lf_bits :: "lfbitset \<Rightarrow> nat set" where
  "lf_bits b = {i. has_bit (lf_words b) i}"

definition lf_ok :: "lfbitset \<Rightarrow> bool" where
  "lf_ok b \<longleftrightarrow> length (lf_words b) = lf_align_N b \<and> lf_align_N b = (lf_Nbits b + 63) div 64 \<and> (\<forall>i. has_bit (lf_words b) i \<longrightarrow> i < lf_Nbits b)"

lemma lf_index: "lf_ok b \<Longrightarrow> i < lf_Nbits b \<Longrightarrow> i div 64 < length (lf_words b)"
  by (auto simp: lf_ok_def)

lemma lfbitset_new_ok: "lf_ok (lfbitset_new n)" "lf_bits (lfbitset_new n) = {}" "lf_Nbits (lfbitset_new n) = n"
  by (auto simp: lfbitset_new_def lf_clear_def lf_ok_def lf_bits_def map_replicate_const)

lemma lf_clear_ok: "lf_ok b \<Longrightarrow> lf_ok (lf_clear b) \<and> lf_bits (lf_clear b) = {}"
  by (auto simp: lf_clear_def lf_ok_def lf_bits_def map_replicate_const)

lemma lf_fetch_ok:
  assumes ok: "lf_ok b" and i: "i < lf_Nbits b"
  shows "lf_set i b = Some (i \<in> lf_bits b, b\<lparr>lf_words := (lf_words b)[i div 64 := lf_words b ! (i div 64) OR one_bit (i mod 64)]\<rparr>)"
    "lf_reset i b = Some (i \<in> lf_bits b, b\<lparr>lf_words := (lf_words b)[i div 64 := lf_words b ! (i div 64) AND NOT (one_bit (i mod 64))]\<rparr>)"
    "lf_flip i b = Some (i \<in> lf_bits b, b\<lparr>lf_words := (lf_words b)[i div 64 := lf_words b ! (i div 64) XOR one_bit (i mod 64)]\<rparr>)"
    "lf_test i b = Some (i \<in> lf_bits b)"
  using lf_index [OF assms] by (simp_all add: lf_set_def lf_reset_def lf_flip_def lf_fetch_def lf_test_def lf_bits_def has_bit_def)

lemma lf_op_ok:
  assumes ok: "lf_ok b" and i: "i < lf_Nbits b"
  shows "\<exists>b'. lf_set i b = Some (i \<in> lf_bits b, b') \<and> lf_ok b' \<and> lf_Nbits b' = lf_Nbits b \<and> lf_bits b' = insert i (lf_bits b)"
    "\<exists>b'. lf_reset i b = Some (i \<in> lf_bits b, b') \<and> lf_ok b' \<and> lf_Nbits b' = lf_Nbits b \<and> lf_bits b' = lf_bits b - {i}"
    "\<exists>b'. lf_flip i b = Some (i \<in> lf_bits b, b') \<and> lf_ok b' \<and> lf_Nbits b' = lf_Nbits b \<and>
      lf_bits b' = (if i \<in> lf_bits b then lf_bits b - {i} else insert i (lf_bits b))"
  unfolding lf_fetch_ok [OF assms] using ok i word_op_bits [OF lf_index [OF assms]]
  by (auto simp: lf_ok_def lf_bits_def split: if_splits)

interpretation lf: bitset lf_test lf_set "\<lambda>i b. map_option snd (lf_reset i b)" lf_bits lf_Nbits lf_ok
proof unfold_locales
  fix b i assume a: "lf_ok b" "i < lf_Nbits b"
  show "lf_test i b = Some (i \<in> lf_bits b)" using lf_fetch_ok(4) [OF a] .
  show "\<exists>b'. lf_set i b = Some (i \<in> lf_bits b, b') \<and> lf_ok b' \<and> lf_Nbits b' = lf_Nbits b \<and> lf_bits b' = insert i (lf_bits b)"
    using lf_op_ok(1) [OF a] .
  show "\<exists>b'. map_option snd (lf_reset i b) = Some b' \<and> lf_ok b' \<and> lf_Nbits b' = lf_Nbits b \<and> lf_bits b' = lf_bits b - {i}"
    using lf_op_ok(2) [OF a] by auto
qed

lemma lf_none_any:
  assumes "lf_ok b"
  shows "lf_none b \<longleftrightarrow> lf_bits b = {}" "lf_any b \<longleftrightarrow> lf_bits b \<noteq> {}"
  using assms by (auto simp: lf_none_def lf_any_def lf_ok_def none_loop_iff lf_bits_def)

lemma low_mask: "w = one_bit t - 1 \<longleftrightarrow> (\<forall>k<64. bit w k \<longleftrightarrow> k < t)"
proof -
  have m: "one_bit t - 1 = (mask t :: u64)" by (simp add: one_bit_exp mask_eq_exp_minus_1)
  have b: "bit (mask t :: u64) k \<longleftrightarrow> k < t" if "k < 64" for k using that by (auto simp: bit_mask_iff)
  show ?thesis unfolding m by (auto simp: b intro: u64_eqI)
qed

text \<open>The last word of the array holds \<open>tail\<close> bits, or 64 when the tail is 0.\<close>

lemma lf_last_word:
  assumes ok: "lf_ok b" and n: "0 < lf_Nbits b"
  defines "a \<equiv> lf_align_N b - 1" and "t \<equiv> lf_Nbits b mod 64"
  shows "length (lf_words b) = Suc a" "lf_align_N b = Suc a" "lf_Nbits b = 64 * a + (if t = 0 then 64 else t)" "t < 64"
    "k < 64 \<Longrightarrow> bit (lf_words b ! a) k \<longleftrightarrow> has_bit (lf_words b) (64 * a + k)"
proof -
  have len: "length (lf_words b) = lf_align_N b" "lf_align_N b = (lf_Nbits b + 63) div 64" using ok by (auto simp: lf_ok_def)
  have pos: "0 < (lf_Nbits b + 63) div 64" using n by simp
  show al: "lf_align_N b = Suc a" using pos len(2) by (simp add: a_def)
  then show l: "length (lf_words b) = Suc a" using len(1) by simp
  show "t < 64" by (simp add: t_def)
  have c: "(lf_Nbits b + 63) div 64 = Suc a" using al len(2) by simp
  show "lf_Nbits b = 64 * a + (if t = 0 then 64 else t)"
    using ceil_64(1,2) [of "lf_Nbits b"] unfolding t_def c by (cases "lf_Nbits b mod 64 = 0") simp_all
  show "k < 64 \<Longrightarrow> bit (lf_words b ! a) k \<longleftrightarrow> has_bit (lf_words b) (64 * a + k)" using l by (simp add: has_bit_def)
qed

lemma all_below_split: "(\<forall>i < m + k. P i) \<longleftrightarrow> (\<forall>i<m. P i) \<and> (\<forall>j<k. P (m + j :: nat))"
proof (intro iffI conjI allI impI)
  fix i assume a: "(\<forall>i<m. P i) \<and> (\<forall>j<k. P (m + j))" and i: "i < m + k"
  show "P i"
  proof (cases "i < m")
    case False
    then show ?thesis using a [THEN conjunct2, rule_format, of "i - m"] i by simp
  qed (use a in blast)
qed auto

lemma lf_all_ok:
  assumes ok: "lf_ok b" and n: "0 < lf_Nbits b"
  shows "lf_all b = Some (lf_bits b = {..<lf_Nbits b})" "lf_nany b = Some (lf_bits b \<noteq> {..<lf_Nbits b})"
proof -
  define a where "a = lf_align_N b - 1"
  define t where "t = lf_Nbits b mod 64"
  define ws where "ws = lf_words b"
  note L = lf_last_word [OF assms, folded a_def t_def ws_def]
  have sub: "has_bit ws i \<Longrightarrow> i < lf_Nbits b" for i using ok by (auto simp: lf_ok_def ws_def)
  have full: "full_loop (take a ws) \<longleftrightarrow> (\<forall>i<64 * a. has_bit ws i)"
  proof -
    have "has_bit (take a ws) i \<longleftrightarrow> has_bit ws i" if "i < 64 * a" for i
      using that L(1) less_mult_imp_div_less [of i a 64] by (simp add: has_bit_def mult.commute)
    then show ?thesis using L(1) by (auto simp: full_loop_iff)
  qed
  have tail: "(\<forall>k<(if t = 0 then 64 else t). has_bit ws (64 * a + k)) \<longleftrightarrow>
      (if t = 0 then NOT (ws ! a) = 0 else ws ! a = one_bit t - 1)"
  proof (cases "t = 0")
    case False
    have "k < t" if "k < 64" "bit (ws ! a) k" for k
      using sub [of "64 * a + k"] that L(3) L(5) [of k] False by simp
    then show ?thesis using False low_mask [of "ws ! a" t] L(4,5) by auto
  qed (use L(5) not_eq_0_iff in auto)
  have "lf_bits b = {..<lf_Nbits b} \<longleftrightarrow> (\<forall>i<lf_Nbits b. has_bit ws i)" using sub by (auto simp: lf_bits_def ws_def)
  then have eq: "lf_bits b = {..<lf_Nbits b} \<longleftrightarrow> full_loop (take a ws) \<and> (if t = 0 then NOT (ws ! a) = 0 else ws ! a = one_bit t - 1)"
    unfolding full tail [symmetric] L(3) all_below_split .
  have r: "rd ws a = Some (ws ! a)" using L(1) by simp
  show "lf_all b = Some (lf_bits b = {..<lf_Nbits b})"
    unfolding eq lf_all_def Let_def a_def [symmetric] t_def [symmetric] ws_def [symmetric] r using L(2) by auto
  show "lf_nany b = Some (lf_bits b \<noteq> {..<lf_Nbits b})"
    unfolding eq lf_nany_def Let_def a_def [symmetric] t_def [symmetric] ws_def [symmetric] r using L(2) by auto
qed

section \<open>Clearing a range\<close>

lemma and_word_bits:
  assumes "k < length ws"
  shows "\<exists>ws'. and_word k m ws = Some ws' \<and> length ws' = length ws \<and>
    (\<forall>j. has_bit ws' j \<longleftrightarrow> has_bit ws j \<and> (j div 64 = k \<longrightarrow> bit m (j mod 64)))"
  using assms by (auto simp: and_word_def has_bit_upd bit_and_iff) (auto simp: has_bit_def)

lemma wr_zero_bits:
  assumes "k < length ws"
  shows "\<exists>ws'. wr ws k 0 = Some ws' \<and> length ws' = length ws \<and> (\<forall>j. has_bit ws' j \<longleftrightarrow> has_bit ws j \<and> j div 64 \<noteq> k)"
  using assms by (auto simp: has_bit_upd)

lemma clear_words_bits:
  "m + k \<le> length ws \<Longrightarrow> \<exists>ws'. clear_words m k ws = Some ws' \<and> length ws' = length ws \<and>
    (\<forall>j. has_bit ws' j \<longleftrightarrow> has_bit ws j \<and> \<not> (m \<le> j div 64 \<and> j div 64 < m + k))"
proof (induction k arbitrary: m ws)
  case (Suc k)
  obtain v where v: "wr ws m 0 = Some v" "length v = length ws" "\<forall>j. has_bit v j \<longleftrightarrow> has_bit ws j \<and> j div 64 \<noteq> m"
    using wr_zero_bits [of m ws] Suc.prems by auto
  obtain u where u: "clear_words (m + 1) k v = Some u" "length u = length v"
    "\<forall>j. has_bit u j \<longleftrightarrow> has_bit v j \<and> \<not> (m + 1 \<le> j div 64 \<and> j div 64 < m + 1 + k)"
    using Suc.IH [of "m + 1" v] Suc.prems v(2) by auto
  have "d \<noteq> m \<and> \<not> (m + 1 \<le> d \<and> d < m + 1 + k) \<longleftrightarrow> \<not> (m \<le> d \<and> d < m + Suc k)" for d :: nat by auto
  then have "\<forall>j. has_bit u j \<longleftrightarrow> has_bit ws j \<and> \<not> (m \<le> j div 64 \<and> j div 64 < m + Suc k)" using u(3) v(3) by blast
  then show ?case using u(1,2) v(1,2) by (intro exI [of _ u]) simp
qed auto

lemma range_mask:
  assumes "n < 64" "k < 64"
  shows "shl 1 n = Some (2 ^ n)" "bit (NOT (push_bit r (2 ^ n - 1 :: u64))) k \<longleftrightarrow> \<not> (r \<le> k \<and> k < r + n)"
    "bit (NOT (2 ^ n - 1 :: u64)) k \<longleftrightarrow> n \<le> k"
proof -
  show "shl 1 n = Some (2 ^ n)" using assms by (simp add: shl_def push_bit_eq_mult)
  have m: "(2 ^ n - 1 :: u64) = mask n" by (simp add: mask_eq_exp_minus_1)
  show "bit (NOT (push_bit r (2 ^ n - 1 :: u64))) k \<longleftrightarrow> \<not> (r \<le> k \<and> k < r + n)"
    unfolding m using assms by (auto simp: bit_not_iff bit_push_bit_iff bit_mask_iff)
  show "bit (NOT (2 ^ n - 1 :: u64)) k \<longleftrightarrow> n \<le> k"
    unfolding m using assms by (auto simp: bit_not_iff bit_mask_iff)
qed

lemma le_64_iff:
  fixes s :: nat
  assumes "p < 64" "r < 64"
  shows "64 * s + p \<le> 64 * d + r \<longleftrightarrow> s < d \<or> s = d \<and> p \<le> r"
  using assms by (cases s d rule: linorder_cases) auto

lemma in_range_64:
  fixes i n j :: nat
  shows "j \<in> {i..<i + n} \<longleftrightarrow> (i div 64 < j div 64 \<or> i div 64 = j div 64 \<and> i mod 64 \<le> j mod 64) \<and>
    (j div 64 < (i + n) div 64 \<or> j div 64 = (i + n) div 64 \<and> j mod 64 < (i + n) mod 64)"
proof -
  have le: "k \<le> j \<longleftrightarrow> k div 64 < j div 64 \<or> k div 64 = j div 64 \<and> k mod 64 \<le> j mod 64" for k
    using le_64_iff [of "k mod 64" "j mod 64" "k div 64" "j div 64"] unfolding mult_div_mod_eq by simp
  have "\<not> (x < y \<or> x = y \<and> p \<le> r) \<longleftrightarrow> y < x \<or> y = x \<and> r < p" for x y p r :: nat by auto
  moreover have "j \<in> {i..<i + n} \<longleftrightarrow> i \<le> j \<and> \<not> i + n \<le> j" by auto
  ultimately show ?thesis unfolding le [of i] le [of "i + n"] by blast
qed

lemma one_word_range:
  fixes i n :: nat
  assumes "i div 64 = (i + n) div 64"
  shows "n < 64" "(i + n) mod 64 = i mod 64 + n"
proof -
  have "i + n = 64 * (i div 64) + (i + n) mod 64" using assms by (metis div_mult_mod_eq mult.commute)
  moreover have "i = 64 * (i div 64) + i mod 64" by simp
  ultimately show e: "(i + n) mod 64 = i mod 64 + n" by linarith
  show "n < 64" using mod_less_divisor [of 64 "i + n"] unfolding e by simp
qed

text \<open>The first word of a longer range is cleared from bit \<open>i mod 64\<close> on.\<close>

lemma clear_first:
  assumes "i div 64 < length ws"
  shows "\<exists>ws'. (let h = 64 - i mod 64 in if h = 64 then wr ws (i div 64) 0
      else do { low \<leftarrow> shl 1 h; and_word (i div 64) (NOT (push_bit (i mod 64) (low - 1))) ws }) = Some ws' \<and>
    length ws' = length ws \<and>
    (\<forall>j. has_bit ws' j \<longleftrightarrow> has_bit ws j \<and> \<not> (j div 64 = i div 64 \<and> i mod 64 \<le> j mod 64))"
proof (cases "i mod 64 = 0")
  case True
  then show ?thesis using wr_zero_bits [OF assms] by simp
next
  case False
  define r where "r = i mod 64"
  have r: "64 - r < 64" "64 - r \<noteq> 64" "r < 64" using False by (auto simp: r_def)
  obtain v where v: "and_word (i div 64) (NOT (push_bit r (2 ^ (64 - r) - 1))) ws = Some v" "length v = length ws"
    "\<forall>j. has_bit v j \<longleftrightarrow> has_bit ws j \<and> (j div 64 = i div 64 \<longrightarrow> bit (NOT (push_bit r (2 ^ (64 - r) - 1)) :: u64) (j mod 64))"
    using and_word_bits [OF assms] by blast
  have "bit (NOT (push_bit r (2 ^ (64 - r) - 1)) :: u64) (j mod 64) \<longleftrightarrow> \<not> r \<le> j mod 64" for j
    using range_mask(2) [OF r(1), of "j mod 64" r] r(3) by simp
  then have "\<forall>j. has_bit v j \<longleftrightarrow> has_bit ws j \<and> \<not> (j div 64 = i div 64 \<and> r \<le> j mod 64)" using v(3) by blast
  then show ?thesis using v(1,2) r(2) range_mask(1) [OF r(1) r(3)] by (simp add: r_def Let_def)
qed

lemma lf_reset_bulk_words:
  assumes "(i + n) div 64 < length (lf_words b)"
  shows "\<exists>ws. lf_reset_bulk i n b = Some (b\<lparr>lf_words := ws\<rparr>) \<and> length ws = length (lf_words b) \<and>
    (\<forall>j. has_bit ws j \<longleftrightarrow> has_bit (lf_words b) j \<and> j \<notin> {i..<i + n})"
proof -
  define s where "s = i div 64"
  define e where "e = (i + n) div 64"
  define t where "t = (i + n) mod 64"
  have se: "s \<le> e" by (simp add: s_def e_def div_le_mono)
  have el: "e < length (lf_words b)" using assms by (simp add: e_def)
  show ?thesis
  proof (cases "s = e")
    case True
    note o = one_word_range [OF True [unfolded s_def e_def]]
    obtain v where v: "and_word s (NOT (push_bit (i mod 64) (2 ^ n - 1))) (lf_words b) = Some v" "length v = length (lf_words b)"
      "\<forall>j. has_bit v j \<longleftrightarrow> has_bit (lf_words b) j \<and> (j div 64 = s \<longrightarrow> bit (NOT (push_bit (i mod 64) (2 ^ n - 1)) :: u64) (j mod 64))"
      using and_word_bits [of s "lf_words b"] el True by blast
    have "(j div 64 = s \<longrightarrow> bit (NOT (push_bit (i mod 64) (2 ^ n - 1)) :: u64) (j mod 64)) \<longleftrightarrow> j \<notin> {i..<i + n}" for j
    proof -
      have "(d = s \<longrightarrow> \<not> (p \<le> r \<and> r < p + n)) \<longleftrightarrow> \<not> ((s < d \<or> s = d \<and> p \<le> r) \<and> (d < s \<or> d = s \<and> r < p + n))" for d r p :: nat
        by auto
      then show ?thesis using range_mask(2) [OF o(1), of "j mod 64" "i mod 64"]
        unfolding in_range_64 o(2) s_def [symmetric] e_def [symmetric] True [symmetric] by simp
    qed
    then have "\<forall>j. has_bit v j \<longleftrightarrow> has_bit (lf_words b) j \<and> j \<notin> {i..<i + n}" using v(3) by blast
    moreover have "lf_reset_bulk i n b = Some (b\<lparr>lf_words := v\<rparr>)"
      unfolding lf_reset_bulk_def Let_def s_def [symmetric] e_def [symmetric]
      using True o(1) v(1) range_mask(1) [OF o(1), of 0] by simp
    ultimately show ?thesis using v(2) by blast
  next
    case False
    obtain u where u: "(let h = 64 - i mod 64 in if h = 64 then wr (lf_words b) s 0
        else do { low \<leftarrow> shl 1 h; and_word s (NOT (push_bit (i mod 64) (low - 1))) (lf_words b) }) = Some u"
      "length u = length (lf_words b)"
      "\<forall>j. has_bit u j \<longleftrightarrow> has_bit (lf_words b) j \<and> \<not> (j div 64 = s \<and> i mod 64 \<le> j mod 64)"
      using clear_first [of i "lf_words b"] el se unfolding s_def [symmetric] by auto
    obtain v where v: "clear_words (s + 1) (e - (s + 1)) u = Some v" "length v = length u"
      "\<forall>j. has_bit v j \<longleftrightarrow> has_bit u j \<and> \<not> (s + 1 \<le> j div 64 \<and> j div 64 < s + 1 + (e - (s + 1)))"
      using clear_words_bits [of "s + 1" "e - (s + 1)" u] el se u(2) False by auto
    obtain w where w: "and_word e (NOT (2 ^ t - 1)) v = Some w" "length w = length v"
      "\<forall>j. has_bit w j \<longleftrightarrow> has_bit v j \<and> (j div 64 = e \<longrightarrow> bit (NOT (2 ^ t - 1) :: u64) (j mod 64))"
      using and_word_bits [of e v] el u(2) v(2) by metis
    have t: "t < 64" by (simp add: t_def)
    have "has_bit w j \<longleftrightarrow> has_bit (lf_words b) j \<and> j \<notin> {i..<i + n}" for j
    proof -
      have "((H \<and> \<not> (d = s \<and> p \<le> r)) \<and> \<not> (s + 1 \<le> d \<and> d < s + 1 + (e - (s + 1)))) \<and> (d = e \<longrightarrow> t \<le> r) \<longleftrightarrow>
          H \<and> \<not> ((s < d \<or> s = d \<and> p \<le> r) \<and> (d < e \<or> d = e \<and> r < t))" for d r p :: nat and H
        using se False by auto
      then show ?thesis using range_mask(3) [OF t, of "j mod 64"]
        unfolding in_range_64 s_def [symmetric] e_def [symmetric] t_def [symmetric] u(3) [rule_format] v(3) [rule_format] w(3) [rule_format]
        by simp
    qed
    moreover have "lf_reset_bulk i n b = Some (b\<lparr>lf_words := w\<rparr>)"
      unfolding lf_reset_bulk_def Let_def s_def [symmetric] e_def [symmetric] t_def [symmetric]
      using False u(1) v(1) w(1) t range_mask(1) [OF t, of 0] by (simp add: Let_def)
    ultimately show ?thesis using u(2) v(2) w(2) by auto
  qed
qed

lemma lf_reset_bulk_ok:
  assumes "lf_ok b" "(i + n) div 64 < lf_align_N b"
  shows "\<exists>b'. lf_reset_bulk i n b = Some b' \<and> lf_ok b' \<and> lf_bits b' = lf_bits b - {i..<i + n}"
  using lf_reset_bulk_words [of i n b] assms by (auto simp: lf_ok_def lf_bits_def)

lemma lf_reset_bulk_end:
  assumes ok: "lf_ok b" and n: "0 < n" and e: "i + n = 64 * lf_align_N b"
  shows "lf_reset_bulk i n b = None"
proof -
  define s where "s = i div 64"
  define e where "e = length (lf_words b)"
  have al: "lf_align_N b = e" using ok by (simp add: lf_ok_def e_def)
  have se: "s < e" using n \<open>i + n = _\<close> al by (simp add: s_def less_mult_imp_div_less)
  have d: "(i + n) div 64 = e" "(i + n) mod 64 = 0" using \<open>i + n = _\<close> al by simp_all
  obtain u where u: "(let h = 64 - i mod 64 in if h = 64 then wr (lf_words b) s 0
      else do { low \<leftarrow> shl 1 h; and_word s (NOT (push_bit (i mod 64) (low - 1))) (lf_words b) }) = Some u"
    "length u = e"
    using clear_first [of i "lf_words b"] se unfolding s_def [symmetric] e_def by auto
  obtain v where v: "clear_words (s + 1) (e - (s + 1)) u = Some v" "length v = e"
    using clear_words_bits [of "s + 1" "e - (s + 1)" u] se u(2) by auto
  have "and_word e m v = None" for m using v(2) by (simp add: and_word_def rd_def)
  then show ?thesis unfolding lf_reset_bulk_def Let_def s_def [symmetric] d
    using se u(1) v(1) by (simp add: Let_def shl_def)
qed

section \<open>Claiming a bit of the lock-free set\<close>

lemma ffsl_not:
  assumes "ffsl (NOT w) \<noteq> 0"
  shows "\<not> bit w (ffsl (NOT w) - 1)" "ffsl (NOT w) - 1 < 64" "\<And>j. j < ffsl (NOT w) - 1 \<Longrightarrow> bit w j"
  using ffsl_pos [OF assms] assms by (auto simp: bit_not_iff)

lemma ffs_hit:
  assumes ok: "lf_ok b" and k: "k < lf_align_N b"
    and hit: "ffsl (NOT (lf_words b ! k)) \<noteq> 0" "k * 64 + ffsl (NOT (lf_words b ! k)) \<le> lf_Nbits b"
  defines "i \<equiv> k * 64 + ffsl (NOT (lf_words b ! k)) - 1"
    and "b' \<equiv> b\<lparr>lf_words := (lf_words b)[k := lf_words b ! k OR one_bit (ffsl (NOT (lf_words b ! k)) - 1)]\<rparr>"
  shows "i < lf_Nbits b" "i \<notin> lf_bits b" "lf_ok b'" "lf_bits b' = insert i (lf_bits b)"
proof -
  define f where "f = ffsl (NOT (lf_words b ! k)) - 1"
  note F = ffsl_not [OF hit(1), folded f_def]
  have i1: "i = k * 64 + f" using hit(1) by (simp add: i_def f_def)
  then have i: "i = k * 64 + f" "i div 64 = k" "i mod 64 = f" using F(2) by simp_all
  show lt: "i < lf_Nbits b" using hit i(1) by (auto simp: f_def)
  show "i \<notin> lf_bits b" using F(1) i by (simp add: lf_bits_def has_bit_def)
  have "b' = b\<lparr>lf_words := (lf_words b)[i div 64 := lf_words b ! (i div 64) OR one_bit (i mod 64)]\<rparr>"
    unfolding i(2,3) by (simp add: b'_def f_def)
  then have "lf_set i b = Some (i \<in> lf_bits b, b')" using lf_fetch_ok(1) [OF ok lt] by simp
  then show "lf_ok b'" "lf_bits b' = insert i (lf_bits b)" using lf_op_ok(1) [OF ok lt] by auto
qed

definition word_taken :: "lfbitset \<Rightarrow> nat \<Rightarrow> bool" where
  "word_taken b k \<longleftrightarrow> (\<forall>r<64. k * 64 + r < lf_Nbits b \<longrightarrow> k * 64 + r \<in> lf_bits b)"

lemma ffs_miss:
  assumes ok: "lf_ok b" and k: "k < lf_align_N b"
    and miss: "ffsl (NOT (lf_words b ! k)) = 0 \<or> lf_Nbits b < k * 64 + ffsl (NOT (lf_words b ! k))"
  shows "word_taken b k"
  unfolding word_taken_def
proof (intro allI impI)
  fix r assume r: "r < 64" "k * 64 + r < lf_Nbits b"
  have "bit (lf_words b ! k) r"
  proof (cases "ffsl (NOT (lf_words b ! k)) = 0")
    case True
    then show ?thesis using r(1) by (simp add: ffsl_eq_0 not_eq_0_iff)
  next
    case False
    then show ?thesis using miss r ffsl_not(3) [OF False, of r] by simp
  qed
  then show "k * 64 + r \<in> lf_bits b" using ok k r(1) by (simp add: lf_bits_def has_bit_def lf_ok_def)
qed

definition claimed_one :: "lfbitset \<Rightarrow> nat option \<Rightarrow> lfbitset \<Rightarrow> bool" where
  "claimed_one b r b' \<longleftrightarrow> lf_ok b' \<and> (case r of
     None \<Rightarrow> b' = b \<and> lf_bits b = {..<lf_Nbits b}
   | Some i \<Rightarrow> i < lf_Nbits b \<and> i \<notin> lf_bits b \<and> lf_bits b' = insert i (lf_bits b))"

lemma all_words_taken:
  assumes ok: "lf_ok b" and n: "0 < lf_align_N b"
    and all: "\<forall>j<lf_align_N b. word_taken b ((k + j) mod lf_align_N b)"
  shows "lf_bits b = {..<lf_Nbits b}"
proof -
  let ?a = "lf_align_N b"
  have w: "word_taken b m" if m: "m < ?a" for m
  proof -
    obtain j where "j < ?a" "(k + j) mod ?a = m"
    proof -
      have "(k + (m + ?a - k mod ?a) mod ?a) mod ?a = (k mod ?a + (m + ?a - k mod ?a)) mod ?a" by (metis mod_add_left_eq mod_add_right_eq)
      also have "k mod ?a + (m + ?a - k mod ?a) = m + ?a" using mod_less_divisor [OF n, of k] by simp
      also have "(m + ?a) mod ?a = m" using m by simp
      finally show ?thesis using that [of "(m + ?a - k mod ?a) mod ?a"] n by simp
    qed
    then show ?thesis using all by auto
  qed
  have "i \<in> lf_bits b" if i: "i < lf_Nbits b" for i
  proof -
    have "i div 64 < ?a" using lf_index [OF ok i] ok by (simp add: lf_ok_def)
    then have "word_taken b (i div 64)" using w by blast
    then show ?thesis using i unfolding word_taken_def by (metis div_mult_mod_eq mod_less_divisor zero_less_numeral)
  qed
  then show ?thesis using ok by (auto simp: lf_ok_def lf_bits_def)
qed

lemma run_ffs_rounds:
  assumes ok: "lf_ok b" and n: "0 < lf_align_N b"
  shows "i + d = lf_align_N b \<Longrightarrow> \<forall>j<i. word_taken b ((k + j) mod lf_align_N b) \<Longrightarrow>
    \<exists>r b'. run_ffs (2 * d + 3) b (FLoad i ((k + i) mod lf_align_N b)) = Some (r, b') \<and> claimed_one b r b'"
proof (induction d arbitrary: i)
  case 0
  then have "lf_bits b = {..<lf_Nbits b}" using all_words_taken [OF ok n] by simp
  then show ?case using 0 ok by (simp add: claimed_one_def eval_nat_numeral)
next
  case (Suc d)
  define m where "m = (k + i) mod lf_align_N b"
  have m: "m < lf_align_N b" "m < length (lf_words b)" using n ok by (simp_all add: m_def lf_ok_def)
  define F where "F = 2 * d + 3"
  have fuel: "2 * Suc d + 3 = Suc (Suc F)" "\<exists>F'. F = Suc F'" by (simp_all add: F_def eval_nat_numeral)
  have nx: "(m + 1) mod lf_align_N b = (k + Suc i) mod lf_align_N b" by (simp add: m_def mod_Suc_eq)
  show ?case
  proof (cases "ffsl (NOT (lf_words b ! m)) = 0 \<or> lf_Nbits b < m * 64 + ffsl (NOT (lf_words b ! m))")
    case True
    have "\<forall>j<Suc i. word_taken b ((k + j) mod lf_align_N b)"
      using Suc.prems(2) ffs_miss [OF ok m(1) True] by (auto simp: less_Suc_eq m_def)
    then show ?thesis using Suc.IH [of "Suc i"] Suc.prems(1) True m(2) nx unfolding fuel(1) F_def [symmetric] m_def [symmetric]
      by (auto simp: Let_def)
  next
    case False
    then have h: "ffsl (NOT (lf_words b ! m)) \<noteq> 0" "m * 64 + ffsl (NOT (lf_words b ! m)) \<le> lf_Nbits b" by auto
    note H = ffs_hit [OF ok m(1) h]
    show ?thesis using H False Suc.prems(1) m(2) fuel(2) unfolding fuel(1) m_def [symmetric]
      by (auto simp: Let_def claimed_one_def lf_ok_def lf_bits_def)
  qed
qed

lemma ffs_and_set_ok:
  assumes ok: "lf_ok b" and n: "0 < lf_Nbits b"
  shows "\<exists>r b'. ffs_and_set b = Some (r, b') \<and> claimed_one b r b'"
proof -
  have a: "0 < lf_align_N b" using assms by (auto simp: lf_ok_def)
  define F where "F = 2 * lf_align_N b + 3"
  have "2 * lf_align_N b + 4 = Suc F" by (simp add: F_def)
  then show ?thesis using run_ffs_rounds [OF ok a, of 0 "lf_align_N b" "lf_widx b", folded F_def] a
    unfolding ffs_and_set_def by (simp only:) simp
qed

subsection \<open>Several threads\<close>

text \<open>
  A state is the set and the program counters of the threads. A thread starts \<^verbatim>\<open>ffs_and_set\<close> when it is
  outside it, and claims the index at the exchange; it releases an index by \<^verbatim>\<open>reset\<close>.
\<close>

type_synonym lf_state = "lfbitset \<times> (nat \<Rightarrow> fpc)"

fun lf_claimed :: "fpc \<Rightarrow> nat set" where
  "lf_claimed (FStore k i) = {i}"
| "lf_claimed _ = {}"

inductive lf_thread :: "nat \<Rightarrow> lf_state \<Rightarrow> nat set \<Rightarrow> lf_state \<Rightarrow> bool" where
  call: "pcs p = FIdle \<or> pcs p = FRet r \<Longrightarrow> lf_thread p (b, pcs) {} (b, pcs(p := FCall))"
| step: "ffs_step spurious b (pcs p) = Some (b', c) \<Longrightarrow> lf_thread p (b, pcs) (lf_claimed c) (b', pcs(p := c))"

inductive lf_free :: "nat set \<Rightarrow> lf_state \<Rightarrow> lf_state \<Rightarrow> bool" where
  reset: "lf_reset i b = Some (x, b') \<Longrightarrow> lf_free {i} (b, pcs) (b', pcs)"

fun fpc_ok :: "lfbitset \<Rightarrow> fpc \<Rightarrow> bool" where
  "fpc_ok b (FLoad i k) \<longleftrightarrow> k < lf_align_N b"
| "fpc_ok b (FTry i k w) \<longleftrightarrow> k < lf_align_N b"
| "fpc_ok b _ \<longleftrightarrow> True"

definition lf_state_ok :: "lf_state \<Rightarrow> bool" where
  "lf_state_ok s \<longleftrightarrow> lf_ok (fst s) \<and> 0 < lf_Nbits (fst s) \<and> (\<forall>p. fpc_ok (fst s) (snd s p))"

lemma fpc_ok_cong: "lf_align_N b' = lf_align_N b \<Longrightarrow> fpc_ok b' c = fpc_ok b c"
  by (cases c) auto

lemma lf_widx_ok [simp]: "lf_ok (b\<lparr>lf_widx := k\<rparr>) = lf_ok b" "lf_bits (b\<lparr>lf_widx := k\<rparr>) = lf_bits b"
  by (simp_all add: lf_ok_def lf_bits_def)

definition ffs_step_post :: "lfbitset \<Rightarrow> lfbitset \<Rightarrow> fpc \<Rightarrow> bool" where
  "ffs_step_post b b' c \<longleftrightarrow> lf_ok b' \<and> lf_Nbits b' = lf_Nbits b \<and> lf_align_N b' = lf_align_N b \<and> fpc_ok b' c \<and>
     lf_claimed c \<inter> lf_bits b = {} \<and> lf_bits b' = lf_bits b \<union> lf_claimed c"

lemma ffs_step_post_same: "lf_ok b \<Longrightarrow> fpc_ok b c \<Longrightarrow> lf_claimed c = {} \<Longrightarrow> ffs_step_post b b c"
  by (simp add: ffs_step_post_def)

lemma ffs_try_ok:
  assumes ok: "lf_ok b" and k: "k < lf_align_N b" and st: "ffs_step spurious b (FTry i k w) = Some (b', c')"
  shows "ffs_step_post b b' c'"
proof (cases "ffsl (NOT w) = 0 \<or> lf_Nbits b < k * 64 + ffsl (NOT w)")
  case True
  then have "b' = b" "c' = FLoad (i + 1) ((k + 1) mod lf_align_N b)" using st by (auto simp: Let_def)
  moreover have "(k + 1) mod lf_align_N b < lf_align_N b" using k by (intro mod_less_divisor) simp
  ultimately show ?thesis using ok by (simp add: ffs_step_post_same)
next
  case miss: False
  have len: "k < length (lf_words b)" using k ok by (simp add: lf_ok_def)
  show ?thesis
  proof (cases "lf_words b ! k = w \<and> \<not> spurious")
    case True
    then have h: "ffsl (NOT (lf_words b ! k)) \<noteq> 0" "k * 64 + ffsl (NOT (lf_words b ! k)) \<le> lf_Nbits b" using miss by auto
    have "b' = b\<lparr>lf_words := (lf_words b)[k := lf_words b ! k OR one_bit (ffsl (NOT (lf_words b ! k)) - 1)]\<rparr>"
      "c' = FStore k (k * 64 + ffsl (NOT (lf_words b ! k)) - 1)" using st True miss len by (simp_all add: Let_def)
    then show ?thesis using ffs_hit [OF ok k h] by (simp add: ffs_step_post_def)
  next
    case False
    then have "b' = b" "c' = FTry i k (lf_words b ! k)" using st miss len by (auto simp: Let_def)
    then show ?thesis using ok k by (simp add: ffs_step_post_same)
  qed
qed

lemma ffs_step_ok:
  assumes ok: "lf_ok b" "0 < lf_Nbits b" and c: "fpc_ok b c" and st: "ffs_step spurious b c = Some (b', c')"
  shows "ffs_step_post b b' c'"
proof (cases c)
  case FCall
  have "0 < lf_align_N b" using ok by (auto simp: lf_ok_def)
  then have "b' = b" "c' = FLoad 0 (lf_widx b mod lf_align_N b)" "lf_widx b mod lf_align_N b < lf_align_N b"
    using st by (auto simp: FCall)
  then show ?thesis using ok by (simp add: ffs_step_post_same)
next
  case (FLoad i k)
  then have k: "k < length (lf_words b)" "k < lf_align_N b" using c ok by (simp_all add: lf_ok_def)
  then have "b' = b" "c' = FTry i k (lf_words b ! k) \<or> c' = FRet None" using st by (auto simp: FLoad split: if_splits)
  then show ?thesis using ok k by (auto simp: ffs_step_post_same)
next
  case (FTry i k w)
  then show ?thesis using ffs_try_ok ok(1) c st by simp
next
  case (FStore k i)
  then have "b' = b\<lparr>lf_widx := k + 8\<rparr>" "c' = FRet (Some i)" using st by simp_all
  then show ?thesis using ok by (simp add: ffs_step_post_def)
qed (use st in simp_all)

interpretation lfa: claims lf_thread lf_free "\<lambda>s. lf_bits (fst s)" lf_state_ok
proof unfold_locales
  fix s p A s' assume ok: "lf_state_ok s" and st: "lf_thread p s A s'"
  from st show "lf_state_ok s' \<and> A \<inter> lf_bits (fst s) = {} \<and> lf_bits (fst s') = lf_bits (fst s) \<union> A"
  proof cases
    case (step spurious b pcs b' c)
    have "fpc_ok b (pcs p)" "lf_ok b" "0 < lf_Nbits b" using ok step(1) by (auto simp: lf_state_ok_def)
    note S = ffs_step_ok [OF this(2,3,1) step(4), unfolded ffs_step_post_def]
    then have "fpc_ok b' (pcs q)" for q using ok step(1) fpc_ok_cong [of b' b] by (auto simp: lf_state_ok_def)
    then show ?thesis using S ok step by (auto simp: lf_state_ok_def)
  qed (use ok in \<open>auto simp: lf_state_ok_def\<close>)
next
  fix s R s' assume ok: "lf_state_ok s" and st: "lf_free R s s'" and R: "R \<subseteq> lf_bits (fst s)"
  from st show "lf_state_ok s' \<and> lf_bits (fst s') = lf_bits (fst s) - R"
  proof cases
    case (reset i b x b' pcs)
    have i: "lf_ok b" "i < lf_Nbits b" using ok R reset by (auto simp: lf_state_ok_def lf_ok_def lf_bits_def)
    have "lf_align_N b' = lf_align_N b" using reset(4) lf_fetch_ok(2) [OF i] by auto
    then show ?thesis using lf_op_ok(2) [OF i] ok reset fpc_ok_cong [of b' b] by (auto simp: lf_state_ok_def)
  qed
qed

lemma lf_start_ok: "0 < n \<Longrightarrow> lf_state_ok (lfbitset_new n, \<lambda>_. FIdle)"
  by (simp add: lf_state_ok_def lfbitset_new_ok)

text \<open>No thread inside the call is stuck or touches a word outside the array.\<close>

lemma ffs_step_defined:
  assumes "lf_ok b" "0 < lf_Nbits b" "fpc_ok b c" "c \<noteq> FIdle" "\<forall>r. c \<noteq> FRet r"
  shows "ffs_step spurious b c \<noteq> None"
proof -
  have "lf_align_N b = length (lf_words b)" "0 < lf_align_N b" using assms(1,2) by (auto simp: lf_ok_def)
  then show ?thesis using assms(3-) by (cases c) (simp_all add: Let_def)
qed

section \<open>The one-word set\<close>

definition w_bits :: "u64 \<Rightarrow> nat set" where
  "w_bits w = {i. bit w i}"

lemma w_bits_64: "i \<in> w_bits w \<Longrightarrow> i < 64"
  by (auto simp: w_bits_def dest: bit_u64_beyond)

lemma shl_one: "i < 64 \<Longrightarrow> shl 1 i = Some (one_bit i)"
  by (simp add: shl_def one_bit_def)

lemma w_op_ok:
  assumes "i < 64"
  shows "w_test i w = Some (i \<in> w_bits w)"
    "\<exists>w'. w_set i w = Some (i \<in> w_bits w, w') \<and> w_bits w' = insert i (w_bits w)"
    "\<exists>w'. w_reset i w = Some (i \<in> w_bits w, w') \<and> w_bits w' = w_bits w - {i}"
    "\<exists>w'. w_flip i w = Some (i \<in> w_bits w, w') \<and> w_bits w' = (if i \<in> w_bits w then w_bits w - {i} else insert i (w_bits w))"
  using assms by (auto simp: w_test_def w_set_def w_reset_def w_flip_def shl_one w_bits_def bit_or_iff bit_and_iff bit_not_iff bit_xor_iff
    dest: bit_u64_beyond)

interpretation ws: bitset w_test w_set "\<lambda>i w. map_option snd (w_reset i w)" w_bits "\<lambda>_. 64" "\<lambda>_. True"
proof unfold_locales
  fix w i assume i: "i < (64 :: nat)"
  show "w_test i w = Some (i \<in> w_bits w)" using w_op_ok(1) [OF i] .
  show "\<exists>b'. w_set i w = Some (i \<in> w_bits w, b') \<and> True \<and> (64 :: nat) = 64 \<and> w_bits b' = insert i (w_bits w)"
    using w_op_ok(2) [OF i] by simp
  show "\<exists>b'. map_option snd (w_reset i w) = Some b' \<and> True \<and> (64 :: nat) = 64 \<and> w_bits b' = w_bits w - {i}"
    using w_op_ok(3) [OF i, of w] by auto
qed

lemma w_reset_bulk_ok:
  assumes "i < 64" "i + n \<le> 64"
  shows "\<exists>w'. w_reset_bulk i n w = Some w' \<and> w_bits w' = w_bits w - {i..<i + n}"
proof (cases "n = 64")
  case True
  then show ?thesis using assms by (auto simp: w_reset_bulk_def w_bits_def dest: bit_u64_beyond)
next
  case False
  then have n: "n < 64" using assms by simp
  have "bit (NOT (push_bit i (2 ^ n - 1 :: u64))) k \<longleftrightarrow> \<not> (i \<le> k \<and> k < i + n)" if "k < 64" for k
    using range_mask(2) [OF n that] .
  then have "w_bits (w AND NOT (push_bit i (2 ^ n - 1))) = w_bits w - {i..<i + n}"
    unfolding w_bits_def bit_and_iff by (auto dest: bit_u64_beyond)
  then show ?thesis using range_mask(1) [OF n, of 0] assms(1) n by (simp add: w_reset_bulk_def shl_def)
qed

subsection \<open>The search for a run of free bits\<close>

definition run_at :: "nat \<Rightarrow> u64 \<Rightarrow> nat \<Rightarrow> bool" where
  "run_at n w p \<longleftrightarrow> p + n \<le> 64 \<and> (\<forall>k<n. \<not> bit w (p + k))"

text \<open>What a result of the search from \<open>idx\<close> on says.\<close>

fun scan_post :: "nat \<Rightarrow> u64 \<Rightarrow> nat \<Rightarrow> nat option \<Rightarrow> bool" where
  "scan_post n w idx None \<longleftrightarrow> (\<forall>q\<ge>idx. \<not> run_at n w q)"
| "scan_post n w idx (Some p) \<longleftrightarrow> idx \<le> p \<and> run_at n w p \<and> (\<forall>q. idx \<le> q \<and> q < p \<longrightarrow> \<not> run_at n w q)"

lemma scan_post_skip:
  assumes "\<And>q. idx \<le> q \<Longrightarrow> q < idx' \<Longrightarrow> \<not> run_at n w q" "idx \<le> idx'" "scan_post n w idx' r"
  shows "scan_post n w idx r"
  using assms by (cases r) (auto simp: not_less, (metis not_less)+)

lemma run_at_bit: "run_at n w q \<Longrightarrow> q \<le> z \<Longrightarrow> z < q + n \<Longrightarrow> \<not> bit w z"
  unfolding run_at_def using le_add_diff_inverse by (metis add_less_cancel_left)

lemma ffsl_shifted:
  assumes "idx < 64" "ffsl (drop_bit idx v) = Suc f"
  shows "bit v (idx + f)" "idx + f < 64" "\<And>k. idx \<le> k \<Longrightarrow> k < idx + f \<Longrightarrow> \<not> bit v k"
proof -
  note F = ffsl_Suc [OF assms(2), unfolded bit_drop_bit_eq, simplified]
  show b: "bit v (idx + f)" using F by (simp add: comp_def add.commute)
  show "idx + f < 64" using bit_u64_beyond [OF b] .
  fix k assume k: "idx \<le> k" "k < idx + f"
  have "\<forall>j<f. \<not> bit v (idx + j)" using F by (simp add: comp_def)
  then have "\<not> bit v (idx + (k - idx))" using k by (metis less_diff_conv2 add.commute)
  then show "\<not> bit v k" using k by simp
qed

lemma ffsl_shifted_0:
  assumes "ffsl (drop_bit idx v) = 0" "idx \<le> k"
  shows "\<not> bit v k"
proof -
  have "\<not> bit (drop_bit idx v) (k - idx)" using assms(1) by (simp add: ffsl_eq_0)
  then show ?thesis using assms(2) by (simp add: bit_drop_bit_eq comp_def)
qed

text \<open>One round: \<open>z\<close> is the first free bit from \<open>idx\<close> on, and \<open>g\<close> the length of its run, 0 when the run goes to
  the end of the word.\<close>

definition free_run :: "u64 \<Rightarrow> nat \<Rightarrow> nat \<Rightarrow> nat \<Rightarrow> bool" where
  "free_run w idx z g \<longleftrightarrow> idx \<le> z \<and> (\<forall>k. idx \<le> k \<and> k < z \<longrightarrow> bit w k) \<and>
     (if g = 0 then \<forall>k\<ge>z. \<not> bit w k else bit w (z + g) \<and> (\<forall>k. z \<le> k \<and> k < z + g \<longrightarrow> \<not> bit w k))"

lemma bulk_scan_round:
  assumes n: "0 < n" "n \<le> 64" "idx \<le> 64 - n" and r: "bulk_scan n w idx = Some r"
  shows "r = None \<and> (\<forall>k\<ge>idx. k < 64 \<longrightarrow> bit w k) \<or>
    (\<exists>z g. free_run w idx z g \<and> g \<noteq> 0 \<and> g < n \<and> bulk_scan n w (z + 1 + g) = Some r) \<or>
    (\<exists>z g. free_run w idx z g \<and> (g = 0 \<or> n \<le> g) \<and> r = (if 64 - n < z then None else Some z))"
proof -
  have idx: "idx < 64" using n by auto
  define f where "f = ffsl (drop_bit idx (NOT w))"
  have sh: "shr (NOT w) idx = Some (drop_bit idx (NOT w))" using idx by (simp add: shr_def)
  note step = r [unfolded bulk_scan.simps [of n w idx]]
  show ?thesis
  proof (cases f)
    case 0
    then have "r = None" using step sh n by (simp add: f_def Let_def)
    then show ?thesis using ffsl_shifted_0 [OF 0 [unfolded f_def]] by (simp add: bit_not_iff)
  next
    case j: (Suc j)
    note Z = ffsl_shifted [OF idx j [unfolded f_def], unfolded bit_not_iff, simplified]
    have l: "idx + f < 64" using step n sh j by (cases "idx + f < 64") (simp_all add: f_def [symmetric] Let_def shr_def)
    define g where "g = ffsl (drop_bit (idx + f) w)"
    have "free_run w idx (idx + j) g"
    proof (cases g)
      case 0
      then show ?thesis using Z ffsl_shifted_0 [OF 0 [unfolded g_def]] j
        by (auto simp: free_run_def) (metis Suc_leI add_Suc_right le_neq_implies_less)
    next
      case (Suc g')
      note G = ffsl_shifted [OF l Suc [unfolded g_def]]
      have "\<not> bit w k" if "idx + j \<le> k" "k < idx + j + g" for k
        using that Z(1) G(3) [of k] Suc j by (cases "k = idx + j") auto
      then show ?thesis using Z G(1) Suc j by (auto simp: free_run_def)
    qed
    moreover have "if g \<noteq> 0 \<and> g < n then bulk_scan n w (idx + j + 1 + g) = Some r
        else r = (if 64 - n < idx + j then None else Some (idx + j))"
      using step n sh j l by (auto simp: f_def [symmetric] g_def Let_def shr_def split: if_splits)
    ultimately show ?thesis by (metis not_less)
  qed
qed

lemma bulk_scan_spec:
  "0 < n \<Longrightarrow> bulk_scan n w idx = Some r \<Longrightarrow> scan_post n w idx r"
proof (induction "65 - idx" arbitrary: idx rule: less_induct)
  case less
  show ?case
  proof (cases "n \<le> 64 \<and> idx \<le> 64 - n")
    case False
    then have "r = None" using less.prems by (subst (asm) bulk_scan.simps) auto
    then show ?thesis using False by (auto simp: run_at_def)
  next
    case True
    have free: "\<not> bit w q \<and> q < 64" if "run_at n w q" for q using run_at_bit [OF that, of q] that less.prems(1) by (auto simp: run_at_def)
    from bulk_scan_round [OF less.prems(1) _ _ less.prems(2)] True
    consider "r = None" "\<forall>k\<ge>idx. k < 64 \<longrightarrow> bit w k"
      | z g where "free_run w idx z g" "g \<noteq> 0" "g < n" "bulk_scan n w (z + 1 + g) = Some r"
      | z g where "free_run w idx z g" "g = 0 \<or> n \<le> g" "r = (if 64 - n < z then None else Some z)"
      by blast
    then show ?thesis
    proof cases
      case 1
      then show ?thesis using free by auto
    next
      case 2
      then have "scan_post n w (z + 1 + g) r" using less True by (intro less.hyps) (auto simp: free_run_def)
      moreover have "\<not> run_at n w q" if "idx \<le> q" "q < z + 1 + g" for q
        using 2 that free [of q] run_at_bit [of n w q "z + g"] by (cases "q < z") (auto simp: free_run_def)
      ultimately show ?thesis using 2(1) by (intro scan_post_skip [of idx "z + 1 + g"]) (auto simp: free_run_def)
    next
      case 3
      have "\<not> run_at n w q" if "idx \<le> q" "q < z" for q using 3(1) that free [of q] by (auto simp: free_run_def)
      moreover have "run_at n w z" if "z \<le> 64 - n" using 3(1,2) that True by (auto simp: free_run_def run_at_def split: if_splits)
      ultimately show ?thesis using 3 True by (auto simp: free_run_def run_at_def)
    qed
  qed
qed

text \<open>The search is defined unless the last bit is free and the one before it is taken.\<close>

lemma bulk_scan_defined:
  assumes w: "bit w 63 \<or> \<not> bit w 62" and n: "2 \<le> n"
  shows "bulk_scan n w idx \<noteq> None"
proof (induction "65 - idx" arbitrary: idx rule: less_induct)
  case less
  show ?case
  proof (cases "n \<le> 64 \<and> idx \<le> 64 - n")
    case False
    then show ?thesis by (subst bulk_scan.simps) auto
  next
    case True
    then have idx: "idx < 63" using n by auto
    define f where "f = ffsl (drop_bit idx (NOT w))"
    show ?thesis
    proof (cases f)
      case 0
      then show ?thesis using True idx by (subst bulk_scan.simps) (simp add: f_def [symmetric] shr_def Let_def)
    next
      case (Suc j)
      have "idx < 64" using idx by simp
      note Z = ffsl_shifted [OF this Suc [unfolded f_def], unfolded bit_not_iff, simplified]
      have "idx + j \<noteq> 63" using Z(1) Z(3) [of 62] w idx by auto
      then have "idx + f < 64" using Z(2) Suc by simp
      then show ?thesis using True idx Suc less [of "idx + f + ffsl (drop_bit (idx + f) w)"]
        by (subst bulk_scan.simps) (simp add: f_def [symmetric] shr_def Let_def)
    qed
  qed
qed

lemma scan_spec:
  assumes "0 < n" "scan n w = Some r"
  shows "scan_post n w 0 r"
proof (cases "n = 1")
  case True
  show ?thesis
  proof (cases "ffsl (NOT w) = 0")
    case f: True
    then show ?thesis using assms(2) True by (auto simp: scan_def Let_def ffsl_eq_0 not_eq_0_iff run_at_def)
  next
    case False
    note F = ffsl_not [OF False]
    have "r = Some (ffsl (NOT w) - 1)" using assms(2) True False by (simp add: scan_def Let_def)
    then show ?thesis using F True by (auto simp: run_at_def)
  qed
next
  case False
  then show ?thesis using assms bulk_scan_spec [of n w 0 r] by (simp add: scan_def)
qed

lemma bulk_mask_ok: "n \<le> 64 \<Longrightarrow> bulk_mask n = Some (mask n)"
  by (auto simp: bulk_mask_def shl_def push_bit_eq_mult mask_eq_exp_minus_1 intro: u64_eqI)

lemma claim_bits:
  assumes "0 < n" "run_at n w p"
  shows "\<exists>m m'. bulk_mask n = Some m \<and> shl m p = Some m' \<and> w_bits (w OR m') = w_bits w \<union> {p..<p + n}" "{p..<p + n} \<inter> w_bits w = {}"
proof -
  have "p + n \<le> 64" using assms(2) by (simp add: run_at_def)
  then have p: "p < 64" "n \<le> 64" "p + n \<le> 64" using assms(1) by simp_all
  have B: "bit (push_bit p (mask n) :: u64) k \<longleftrightarrow> p \<le> k \<and> k < p + n" for k
    unfolding bit_push_bit_iff bit_mask_iff possible_bit_word using p by (cases "p \<le> k") (simp, linarith, simp)
  have "w_bits (w OR push_bit p (mask n)) = w_bits w \<union> {p..<p + n}" unfolding w_bits_def bit_or_iff B by auto
  moreover have "shl (mask n) p = Some (push_bit p (mask n))" using p(1) by (simp add: shl_def)
  ultimately show "\<exists>m m'. bulk_mask n = Some m \<and> shl m p = Some m' \<and> w_bits (w OR m') = w_bits w \<union> {p..<p + n}"
    using bulk_mask_ok [OF p(2)] by blast
  have "k \<notin> w_bits w" if "k \<in> {p..<p + n}" for k using run_at_bit [OF assms(2), of k] that by (simp add: w_bits_def)
  then show "{p..<p + n} \<inter> w_bits w = {}" by blast
qed

subsection \<open>Several threads\<close>

type_synonym w_state = "u64 \<times> (nat \<Rightarrow> wpc64)"

fun w_claimed :: "wpc64 \<Rightarrow> nat set" where
  "w_claimed (W64Ret n (Some q)) = {q..<q + n}"
| "w_claimed _ = {}"

inductive w_thread :: "nat \<Rightarrow> w_state \<Rightarrow> nat set \<Rightarrow> w_state \<Rightarrow> bool" where
  call: "pcs p = W64Idle \<or> pcs p = W64Ret k r \<Longrightarrow> 0 < n \<Longrightarrow> w_thread p (w, pcs) {} (w, pcs(p := W64Call n))"
| step: "w_step spurious w (pcs p) = Some (w', c) \<Longrightarrow> w_thread p (w, pcs) (w_claimed c) (w', pcs(p := c))"

inductive w_free :: "nat set \<Rightarrow> w_state \<Rightarrow> w_state \<Rightarrow> bool" where
  reset: "w_reset i w = Some (x, w') \<Longrightarrow> w_free {i} (w, pcs) (w', pcs)"
| reset_bulk: "w_reset_bulk i n w = Some w' \<Longrightarrow> w_free {i..<i + n} (w, pcs) (w', pcs)"

fun wpc_ok :: "wpc64 \<Rightarrow> bool" where
  "wpc_ok (W64Call n) \<longleftrightarrow> 0 < n"
| "wpc_ok (W64Try n w) \<longleftrightarrow> 0 < n"
| "wpc_ok _ \<longleftrightarrow> True"

lemma w_step_ok:
  assumes "wpc_ok c" "w_step spurious w c = Some (w', c')"
  shows "wpc_ok c' \<and> w_claimed c' \<inter> w_bits w = {} \<and> w_bits w' = w_bits w \<union> w_claimed c'"
proof (cases c)
  case (W64Call n)
  then show ?thesis using assms by (auto split: bind_splits)
next
  case (W64Try n v)
  then obtain r where r: "scan n v = Some r" using assms(2) by (auto split: bind_splits)
  have n: "0 < n" using assms(1) by (simp add: W64Try)
  show ?thesis
  proof (cases r)
    case None
    then show ?thesis using assms(2) r by (auto simp: W64Try)
  next
    case (Some p)
    have run: "run_at n v p" using scan_spec [OF n r] Some by simp
    show ?thesis
    proof (cases "w = v \<and> \<not> spurious")
      case True
      obtain m m' where "bulk_mask n = Some m" "shl m p = Some m'" "w_bits (v OR m') = w_bits v \<union> {p..<p + n}"
        using claim_bits(1) [OF n run] by blast
      then show ?thesis using assms(2) r Some True claim_bits(2) [OF n run] by (auto simp: W64Try)
    next
      case False
      then show ?thesis using assms(2) r Some n by (auto simp: W64Try)
    qed
  qed
qed (use assms(2) in simp_all)

lemma w_free_ok:
  assumes "w_free R (w, pcs) (w', pcs')" "R \<subseteq> w_bits w"
  shows "pcs' = pcs \<and> w_bits w' = w_bits w - R"
  using assms(1)
proof cases
  case (reset i x)
  then have "i < 64" using assms(2) w_bits_64 by auto
  then show ?thesis using reset w_op_ok(3) [of i w] by auto
next
  case (reset_bulk i n)
  show ?thesis
  proof (cases "n = 0")
    case True
    then show ?thesis using reset_bulk by (auto simp: w_reset_bulk_def shl_def split: if_splits)
  next
    case False
    then have "i \<in> w_bits w" "i + n - 1 \<in> w_bits w" using assms(2) reset_bulk(1) by auto
    then have "i < 64" "i + n \<le> 64" using w_bits_64 [of i w] w_bits_64 [of "i + n - 1" w] False by auto
    then show ?thesis using w_reset_bulk_ok [of i n w] reset_bulk by auto
  qed
qed

interpretation wsa: claims w_thread w_free "\<lambda>s. w_bits (fst s)" "\<lambda>s. \<forall>p. wpc_ok (snd s p)"
proof unfold_locales
  fix s p A s' assume ok: "\<forall>p. wpc_ok (snd s p)" and st: "w_thread p s A s'"
  from st show "(\<forall>p. wpc_ok (snd s' p)) \<and> A \<inter> w_bits (fst s) = {} \<and> w_bits (fst s') = w_bits (fst s) \<union> A"
  proof cases
    case (step spurious w pcs w' c)
    then have "wpc_ok (pcs p)" using ok by auto
    from w_step_ok [OF this step(4)] show ?thesis using ok step by auto
  qed (use ok in auto)
next
  fix s R s' assume ok: "\<forall>p. wpc_ok (snd s p)" and st: "w_free R s s'" and R: "R \<subseteq> w_bits (fst s)"
  then show "(\<forall>p. wpc_ok (snd s' p)) \<and> w_bits (fst s') = w_bits (fst s) - R"
    using w_free_ok [of R "fst s" "snd s" "fst s'" "snd s'"] by simp
qed

text \<open>In the excluded case the search shifts by 64.\<close>

lemma bulk_shift_64: "ffs_and_set_bulk 2 0x7FFFFFFFFFFFFFFF = None"
  by code_simp

section \<open>Properties of the bit sets\<close>

lemma set_neq_by: "x \<notin> A \<Longrightarrow> x \<in> B \<Longrightarrow> A \<noteq> B"
  by blast

lemma NewBitmap_wrap:
  assumes "2 ^ 32 \<le> unat bits + 63" "unat bits mod 64 \<noteq> 0"
  shows "NewBitmap bits = None"
proof -
  have "unat bits < 2 ^ 32" using unsigned_less [of bits] by simp
  then have "(unat bits + 63) mod 2 ^ 32 = unat bits + 63 - 2 ^ 32" using assms(1) by (subst mod_if) simp
  then have "unat (bits + 63) = unat bits + 63 - 2 ^ 32" by (simp add: unat_word_ariths)
  then have "unat (bits + 63) < 64" using \<open>unat bits < 2 ^ 32\<close> by simp
  then have "(bits + 63) div 64 = 0" by (simp add: word_unat_eq_iff)
  moreover have "bits mod 64 \<noteq> 0" using assms(2) by (metis unat_0 unat_64_u32(2))
  ultimately show ?thesis by (simp add: NewBitmap_def wr_def Let_def)
qed







text \<open>C13. Claims of runs of bits in the one-word set are exclusive: threads that claim runs by ffs_and_set_bulk, and
  release bits by reset or runs by reset_bulk, never hold the same bit twice, in any interleaving and
  with weak exchanges that may fail for no reason; every bit held is set in the word.
\<close>

theorem bulk_claims_exclusive:
  assumes "claim_reach w_thread w_free (0, \<lambda>_. W64Idle) (w, pcs) held"
  shows "(\<forall>p q. p \<noteq> q \<longrightarrow> held p \<inter> held q = {}) \<and> (\<forall>p. \<forall>i \<in> held p. i < 64 \<and> w_test i w = Some True)"
proof -
  have E: "(\<forall>p. held p \<subseteq> w_bits w) \<and> (\<forall>p q. p \<noteq> q \<longrightarrow> held p \<inter> held q = {})" using wsa.exclusive [OF assms] by simp
  have "i < 64 \<and> w_test i w = Some True" if "i \<in> held p" for p i
  proof -
    have i: "i \<in> w_bits w" using E that by blast
    then show ?thesis using w_bits_64 [OF i] w_op_ok(1) [of i w] by simp
  qed
  then show ?thesis using E by blast
qed

theorem bulk_claims_exclusive_witness:
  "\<exists>w pcs held. claim_reach w_thread w_free (0, \<lambda>_. W64Idle) (w, pcs) held \<and> held 7 = {0..<2} \<and>
    held 7 \<inter> held 8 = {} \<and> w_test 1 w = Some True"
proof -
  define a where "a = (\<lambda>_ :: nat. W64Idle)(7 := W64Call 2)"
  define b where "b = a(7 := W64Try 2 0)"
  define c where "c = b(7 := W64Ret 2 (Some 0))"
  have s1: "w_thread 7 (0, \<lambda>_. W64Idle) {} (0, a)" unfolding a_def by (rule w_thread.call) simp_all
  have "w_step False 0 (a 7) = Some (0, W64Try 2 0)" by (simp add: a_def bulk_mask_ok)
  from w_thread.step [of False 0 a 7, OF this] have s2: "w_thread 7 (0, a) {} (0, b)" by (simp add: b_def)
  have "scan 2 0 = Some (Some 0)" by code_simp
  then have "w_step False 0 (b 7) = Some (3, W64Ret 2 (Some 0))" by (simp add: b_def bulk_mask_ok shl_def) code_simp
  from w_thread.step [of False 0 b 7, OF this] have s3: "w_thread 7 (0, b) {0..<2} (3, c)" by (simp add: c_def numeral_2_eq_2)
  have "claim_reach w_thread w_free (0, \<lambda>_. W64Idle) (0, a) (\<lambda>_. {})"
    by (rule claim_to, rule claim_reach.start, rule s1) auto
  then have "claim_reach w_thread w_free (0, \<lambda>_. W64Idle) (0, b) (\<lambda>_. {})"
    by (rule claim_to [where run = w_thread, OF _ s2]) auto
  then have r: "claim_reach w_thread w_free (0, \<lambda>_. W64Idle) (3, c) ((\<lambda>_. {})(7 := {0..<2}))"
    by (rule claim_to [where run = w_thread, OF _ s3]) auto
  have "w_test 1 3 = Some True" using bulk_claims_exclusive [OF r, THEN conjunct2, rule_format, of 1 7] by simp
  then show ?thesis using r by (intro exI [of _ 3] exI [of _ c] exI [of _ "(\<lambda>_. {})(7 := {0..<2})"]) simp
qed



end
