(* ===== verification/Xxh_Base.thy ===== *)
theory Xxh_Base
  imports Util_Prelude
begin

text \<open>
  The parts of \<^verbatim>\<open>src/cpp-util/xxhash.h\<close> that all its hash functions share: reads and writes of
  little and big endian integers, byte swaps, rotations, the multiplicative constants, the long
  multiplications and the canonical representations.

  A region of memory is a list of bytes and a pointer into it is an offset. An access outside the region and a
  condition of \<^verbatim>\<open>XXH_ASSERT\<close> that does not hold abort (\<^const>\<open>None\<close>); the header either checks the
  condition or lets the compiler assume it. \<^verbatim>\<open>XXH_CPU_LITTLE_ENDIAN\<close> is an argument where the code asks for it. A null
  input has length 0 and is the empty region.
\<close>

unbundle bit_operations_syntax

section \<open>Loops and copies\<close>

text \<open>A \<^verbatim>\<open>for\<close> loop whose body may abort.\<close>

fun for_each :: "('s \<Rightarrow> nat \<Rightarrow> 's option) \<Rightarrow> nat list \<Rightarrow> 's \<Rightarrow> 's option" where
  "for_each f [] s = Some s"
| "for_each f (i # ks) s = do { s \<leftarrow> f s i; for_each f ks s }"

definition XXH_memcpy :: "bytes \<Rightarrow> nat \<Rightarrow> bytes \<Rightarrow> nat \<Rightarrow> nat \<Rightarrow> bytes option" where
  "XXH_memcpy dest d src s n =
     (if d + n \<le> length dest \<and> s + n \<le> length src
      then Some (take d dest @ take n (drop s src) @ drop (d + n) dest) else None)"

section \<open>Rotations, swaps and reads\<close>

definition XXH_rotl32 :: "u32 \<Rightarrow> nat \<Rightarrow> u32" where
  "XXH_rotl32 x r = push_bit r x OR drop_bit (32 - r) x"

definition XXH_rotl64 :: "u64 \<Rightarrow> nat \<Rightarrow> u64" where
  "XXH_rotl64 x r = push_bit r x OR drop_bit (64 - r) x"

definition XXH_swap32 :: "u32 \<Rightarrow> u32" where
  "XXH_swap32 x =
     (push_bit 24 x AND 0xff000000) OR (push_bit 8 x AND 0x00ff0000) OR
     (drop_bit 8 x AND 0x0000ff00) OR (drop_bit 24 x AND 0x000000ff)"

definition XXH_swap64 :: "u64 \<Rightarrow> u64" where
  "XXH_swap64 x =
     (push_bit 56 x AND 0xff00000000000000) OR (push_bit 40 x AND 0x00ff000000000000) OR
     (push_bit 24 x AND 0x0000ff0000000000) OR (push_bit 8 x AND 0x000000ff00000000) OR
     (drop_bit 8 x AND 0x00000000ff000000) OR (drop_bit 24 x AND 0x0000000000ff0000) OR
     (drop_bit 40 x AND 0x000000000000ff00) OR (drop_bit 56 x AND 0x00000000000000ff)"

definition XXH_readLE32 :: "bytes \<Rightarrow> nat \<Rightarrow> u32 option" where
  "XXH_readLE32 p i = do {
     b0 \<leftarrow> rd p i; b1 \<leftarrow> rd p (i + 1); b2 \<leftarrow> rd p (i + 2); b3 \<leftarrow> rd p (i + 3);
     Some (ucast b0 OR push_bit 8 (ucast b1) OR push_bit 16 (ucast b2) OR push_bit 24 (ucast b3)) }"

definition XXH_readBE32 :: "bytes \<Rightarrow> nat \<Rightarrow> u32 option" where
  "XXH_readBE32 p i = do {
     b0 \<leftarrow> rd p i; b1 \<leftarrow> rd p (i + 1); b2 \<leftarrow> rd p (i + 2); b3 \<leftarrow> rd p (i + 3);
     Some (ucast b3 OR push_bit 8 (ucast b2) OR push_bit 16 (ucast b1) OR push_bit 24 (ucast b0)) }"

definition XXH_readLE64 :: "bytes \<Rightarrow> nat \<Rightarrow> u64 option" where
  "XXH_readLE64 p i = do {
     b0 \<leftarrow> rd p i; b1 \<leftarrow> rd p (i + 1); b2 \<leftarrow> rd p (i + 2); b3 \<leftarrow> rd p (i + 3);
     b4 \<leftarrow> rd p (i + 4); b5 \<leftarrow> rd p (i + 5); b6 \<leftarrow> rd p (i + 6); b7 \<leftarrow> rd p (i + 7);
     Some (ucast b0 OR push_bit 8 (ucast b1) OR push_bit 16 (ucast b2) OR push_bit 24 (ucast b3) OR
       push_bit 32 (ucast b4) OR push_bit 40 (ucast b5) OR push_bit 48 (ucast b6) OR push_bit 56 (ucast b7)) }"

definition XXH_readBE64 :: "bytes \<Rightarrow> nat \<Rightarrow> u64 option" where
  "XXH_readBE64 p i = do {
     b0 \<leftarrow> rd p i; b1 \<leftarrow> rd p (i + 1); b2 \<leftarrow> rd p (i + 2); b3 \<leftarrow> rd p (i + 3);
     b4 \<leftarrow> rd p (i + 4); b5 \<leftarrow> rd p (i + 5); b6 \<leftarrow> rd p (i + 6); b7 \<leftarrow> rd p (i + 7);
     Some (ucast b7 OR push_bit 8 (ucast b6) OR push_bit 16 (ucast b5) OR push_bit 24 (ucast b4) OR
       push_bit 32 (ucast b3) OR push_bit 40 (ucast b2) OR push_bit 48 (ucast b1) OR push_bit 56 (ucast b0)) }"

text \<open>
  The other configuration reads a native integer (\<open>XXH_read32\<close>, \<open>XXH_read64\<close>, the bytes in the order of the CPU)
  and swaps it when the order is the wrong one.
\<close>

definition native32 :: "bool \<Rightarrow> u32 \<Rightarrow> bytes" where
  "native32 le w = (let bs = [ucast w, ucast (drop_bit 8 w), ucast (drop_bit 16 w), ucast (drop_bit 24 w)] in
     if le then bs else rev bs)"

definition native64 :: "bool \<Rightarrow> u64 \<Rightarrow> bytes" where
  "native64 le w = (let bs = map (\<lambda>k. ucast (drop_bit (8 * k) w)) [0..<8] in if le then bs else rev bs)"

definition XXH_read32 :: "bool \<Rightarrow> bytes \<Rightarrow> nat \<Rightarrow> u32 option" where
  "XXH_read32 le p i = (if le then XXH_readLE32 p i else XXH_readBE32 p i)"

definition XXH_read64 :: "bool \<Rightarrow> bytes \<Rightarrow> nat \<Rightarrow> u64 option" where
  "XXH_read64 le p i = (if le then XXH_readLE64 p i else XXH_readBE64 p i)"

definition XXH_readLE32_native :: "bool \<Rightarrow> bytes \<Rightarrow> nat \<Rightarrow> u32 option" where
  "XXH_readLE32_native le p i = (if le then XXH_read32 le p i else map_option XXH_swap32 (XXH_read32 le p i))"

definition XXH_readBE32_native :: "bool \<Rightarrow> bytes \<Rightarrow> nat \<Rightarrow> u32 option" where
  "XXH_readBE32_native le p i = (if le then map_option XXH_swap32 (XXH_read32 le p i) else XXH_read32 le p i)"

definition XXH_readLE64_native :: "bool \<Rightarrow> bytes \<Rightarrow> nat \<Rightarrow> u64 option" where
  "XXH_readLE64_native le p i = (if le then XXH_read64 le p i else map_option XXH_swap64 (XXH_read64 le p i))"

definition XXH_readBE64_native :: "bool \<Rightarrow> bytes \<Rightarrow> nat \<Rightarrow> u64 option" where
  "XXH_readBE64_native le p i = (if le then map_option XXH_swap64 (XXH_read64 le p i) else XXH_read64 le p i)"

definition XXH_writeLE64 :: "bool \<Rightarrow> bytes \<Rightarrow> nat \<Rightarrow> u64 \<Rightarrow> bytes option" where
  "XXH_writeLE64 le dst d v64 = XXH_memcpy dst d (native64 le (if le then v64 else XXH_swap64 v64)) 0 8"

section \<open>Canonical representation\<close>

definition XXH32_canonicalFromHash :: "bool \<Rightarrow> u32 \<Rightarrow> bytes" where
  "XXH32_canonicalFromHash le hash = native32 le (if le then XXH_swap32 hash else hash)"

definition XXH32_hashFromCanonical :: "bytes \<Rightarrow> u32 option" where
  "XXH32_hashFromCanonical src = XXH_readBE32 src 0"

definition XXH64_canonicalFromHash :: "bool \<Rightarrow> u64 \<Rightarrow> bytes" where
  "XXH64_canonicalFromHash le hash = native64 le (if le then XXH_swap64 hash else hash)"

definition XXH64_hashFromCanonical :: "bytes \<Rightarrow> u64 option" where
  "XXH64_hashFromCanonical src = XXH_readBE64 src 0"

record XXH128_hash_t =
  low64 :: u64
  high64 :: u64

definition XXH128_canonicalFromHash :: "bool \<Rightarrow> XXH128_hash_t \<Rightarrow> bytes" where
  "XXH128_canonicalFromHash le hash =
     (let hash = (if le then hash\<lparr>high64 := XXH_swap64 (high64 hash), low64 := XXH_swap64 (low64 hash)\<rparr> else hash) in
      native64 le (high64 hash) @ native64 le (low64 hash))"

definition XXH128_hashFromCanonical :: "bytes \<Rightarrow> XXH128_hash_t option" where
  "XXH128_hashFromCanonical src = do {
     h \<leftarrow> XXH_readBE64 src 0;
     l \<leftarrow> XXH_readBE64 src 8;
     Some \<lparr>low64 = l, high64 = h\<rparr> }"

text \<open>\<open>memcmp\<close> on two values without padding is 0 exactly when they are equal.\<close>

definition XXH128_isEqual :: "XXH128_hash_t \<Rightarrow> XXH128_hash_t \<Rightarrow> bool" where
  "XXH128_isEqual h1 h2 \<longleftrightarrow> native64 True (low64 h1) @ native64 True (high64 h1) = native64 True (low64 h2) @ native64 True (high64 h2)"

definition XXH128_cmp :: "XXH128_hash_t \<Rightarrow> XXH128_hash_t \<Rightarrow> int" where
  "XXH128_cmp h1 h2 =
     (let hcmp = of_bool (high64 h1 > high64 h2) - of_bool (high64 h2 > high64 h1) in
      if hcmp \<noteq> 0 then hcmp else of_bool (low64 h1 > low64 h2) - of_bool (low64 h2 > low64 h1))"

section \<open>Constants and long multiplications\<close>

definition XXH_PRIME32_1 :: u32 where "XXH_PRIME32_1 = 0x9E3779B1"
definition XXH_PRIME32_2 :: u32 where "XXH_PRIME32_2 = 0x85EBCA77"
definition XXH_PRIME32_3 :: u32 where "XXH_PRIME32_3 = 0xC2B2AE3D"
definition XXH_PRIME32_4 :: u32 where "XXH_PRIME32_4 = 0x27D4EB2F"
definition XXH_PRIME32_5 :: u32 where "XXH_PRIME32_5 = 0x165667B1"

definition XXH_PRIME64_1 :: u64 where "XXH_PRIME64_1 = 0x9E3779B185EBCA87"
definition XXH_PRIME64_2 :: u64 where "XXH_PRIME64_2 = 0xC2B2AE3D27D4EB4F"
definition XXH_PRIME64_3 :: u64 where "XXH_PRIME64_3 = 0x165667B19E3779F9"
definition XXH_PRIME64_4 :: u64 where "XXH_PRIME64_4 = 0x85EBCA77C2B2AE63"
definition XXH_PRIME64_5 :: u64 where "XXH_PRIME64_5 = 0x27D4EB2F165667C5"

definition XXH_mult32to64 :: "u64 \<Rightarrow> u64 \<Rightarrow> u64" where
  "XXH_mult32to64 x y = ucast (ucast x :: u32) * ucast (ucast y :: u32)"

text \<open>The product of two 64-bit integers: by a 128-bit type, and by four 32-bit products.\<close>

definition XXH_mult64to128 :: "u64 \<Rightarrow> u64 \<Rightarrow> XXH128_hash_t" where
  "XXH_mult64to128 lhs rhs =
     (let product = (ucast lhs :: 128 word) * ucast rhs in
      \<lparr>low64 = ucast product, high64 = ucast (drop_bit 64 product)\<rparr>)"

definition XXH_mult64to128_portable :: "u64 \<Rightarrow> u64 \<Rightarrow> XXH128_hash_t" where
  "XXH_mult64to128_portable lhs rhs =
     (let lo_lo = XXH_mult32to64 (lhs AND 0xFFFFFFFF) (rhs AND 0xFFFFFFFF);
          hi_lo = XXH_mult32to64 (drop_bit 32 lhs) (rhs AND 0xFFFFFFFF);
          lo_hi = XXH_mult32to64 (lhs AND 0xFFFFFFFF) (drop_bit 32 rhs);
          hi_hi = XXH_mult32to64 (drop_bit 32 lhs) (drop_bit 32 rhs);
          cross = drop_bit 32 lo_lo + (hi_lo AND 0xFFFFFFFF) + lo_hi;
          upper = drop_bit 32 hi_lo + drop_bit 32 cross + hi_hi;
          lower = push_bit 32 cross OR (lo_lo AND 0xFFFFFFFF)
      in \<lparr>low64 = lower, high64 = upper\<rparr>)"

definition XXH3_mul128_fold64 :: "u64 \<Rightarrow> u64 \<Rightarrow> u64" where
  "XXH3_mul128_fold64 lhs rhs = (let product = XXH_mult64to128 lhs rhs in low64 product XOR high64 product)"

section \<open>Lemmas\<close>

subsection \<open>Reads depend on a window\<close>

text \<open>The integer whose little endian bytes are given.\<close>

definition le_word :: "bytes \<Rightarrow> 'a::len word" where
  "le_word bs = foldr (\<lambda>b w. ucast b OR push_bit 8 w) bs 0"

lemma le_word_simps [simp]: "le_word [] = 0" "le_word (b # bs) = ucast b OR push_bit 8 (le_word bs)"
  by (simp_all add: le_word_def)

lemma take_drop_window: "i + n \<le> length p \<Longrightarrow> take n (drop i p) = map (\<lambda>k. p ! (i + k)) [0..<n]"
  by (rule nth_equalityI) auto

lemma push_bit_or_0: "push_bit k (a OR push_bit 8 b) = push_bit k a OR push_bit (k + 8) (b :: 'a::len word)"
  by (simp add: push_bit_or push_bit_push_bit)

lemma window_list:
  "i + 4 \<le> length p \<Longrightarrow> take 4 (drop i p) = [p ! i, p ! (i + 1), p ! (i + 2), p ! (i + 3)]"
  "i + 8 \<le> length p \<Longrightarrow> take 8 (drop i p) =
    [p ! i, p ! (i + 1), p ! (i + 2), p ! (i + 3), p ! (i + 4), p ! (i + 5), p ! (i + 6), p ! (i + 7)]"
  by (simp_all add: take_drop_window upt_rec eval_nat_numeral)

lemma readLE32_window: "XXH_readLE32 p i = (if i + 4 \<le> length p then Some (le_word (take 4 (drop i p))) else None)"
proof (cases "i + 4 \<le> length p")
  case True
  then show ?thesis by (simp add: XXH_readLE32_def window_list(1) push_bit_or push_bit_push_bit or.assoc)
qed (auto simp: XXH_readLE32_def rd_def split: bind_splits)

lemma readLE64_window: "XXH_readLE64 p i = (if i + 8 \<le> length p then Some (le_word (take 8 (drop i p))) else None)"
proof (cases "i + 8 \<le> length p")
  case True
  then show ?thesis by (simp add: XXH_readLE64_def window_list(2) push_bit_or push_bit_push_bit or.assoc)
qed (auto simp: XXH_readLE64_def rd_def split: bind_splits)

lemma readBE32_window: "XXH_readBE32 p i = (if i + 4 \<le> length p then Some (le_word (rev (take 4 (drop i p)))) else None)"
proof (cases "i + 4 \<le> length p")
  case True
  then show ?thesis by (simp add: XXH_readBE32_def window_list(1) push_bit_or push_bit_push_bit or.assoc)
qed (auto simp: XXH_readBE32_def rd_def split: bind_splits)

lemma readBE64_window: "XXH_readBE64 p i = (if i + 8 \<le> length p then Some (le_word (rev (take 8 (drop i p)))) else None)"
proof (cases "i + 8 \<le> length p")
  case True
  then show ?thesis by (simp add: XXH_readBE64_def window_list(2) push_bit_or push_bit_push_bit or.assoc)
qed (auto simp: XXH_readBE64_def rd_def split: bind_splits)

subsection \<open>Swaps reverse the bytes\<close>

lemma bit_le_word:
  "bit (le_word bs :: 'a::len word) n \<longleftrightarrow> n < LENGTH('a) \<and> n div 8 < length bs \<and> bit (bs ! (n div 8)) (n mod 8)"
proof (induction bs arbitrary: n)
  case (Cons b bs)
  show ?case
  proof (cases "n < 8")
    case True
    then show ?thesis by (auto simp: bit_or_iff bit_push_bit_iff bit_ucast_iff)
  next
    case False
    then have n: "n div 8 = Suc ((n - 8) div 8)" "(n - 8) mod 8 = n mod 8" by (simp_all add: le_div_geq le_mod_geq)
    have "\<not> bit b n" using False bit_imp_le_length [of b n] by auto
    then show ?thesis using False Cons.IH [of "n - 8"] n by (auto simp: bit_or_iff bit_push_bit_iff bit_ucast_iff)
  qed
qed simp

lemma byte_masks32:
  "(0xff000000 :: u32) = push_bit 24 (mask 8)" "(0x00ff0000 :: u32) = push_bit 16 (mask 8)"
  "(0x0000ff00 :: u32) = push_bit 8 (mask 8)" "(0x000000ff :: u32) = mask 8"
  by (simp_all add: mask_eq_exp_minus_1 push_bit_eq_mult)

lemma byte_masks64:
  "(0xff00000000000000 :: u64) = push_bit 56 (mask 8)" "(0x00ff000000000000 :: u64) = push_bit 48 (mask 8)"
  "(0x0000ff0000000000 :: u64) = push_bit 40 (mask 8)" "(0x000000ff00000000 :: u64) = push_bit 32 (mask 8)"
  "(0x00000000ff000000 :: u64) = push_bit 24 (mask 8)" "(0x0000000000ff0000 :: u64) = push_bit 16 (mask 8)"
  "(0x000000000000ff00 :: u64) = push_bit 8 (mask 8)" "(0x00000000000000ff :: u64) = mask 8"
  by (simp_all add: mask_eq_exp_minus_1 push_bit_eq_mult)

lemma less_cases:
  "(q :: nat) < 4 \<Longrightarrow> q = 0 \<or> q = 1 \<or> q = 2 \<or> q = 3"
  "(q :: nat) < 8 \<Longrightarrow> q = 0 \<or> q = 1 \<or> q = 2 \<or> q = 3 \<or> q = 4 \<or> q = 5 \<or> q = 6 \<or> q = 7"
  by linarith+

lemma bit_swap32:
  assumes "q < 4" "r < 8"
  shows "bit (XXH_swap32 x) (8 * q + r) \<longleftrightarrow> bit x (8 * (3 - q) + r)"
  using less_cases(1) [OF assms(1)] assms(2) unfolding XXH_swap32_def byte_masks32
  by (elim disjE) (simp_all add: bit_or_iff bit_and_iff bit_push_bit_iff bit_drop_bit_eq bit_mask_iff)

lemma bit_swap64:
  assumes "q < 8" "r < 8"
  shows "bit (XXH_swap64 x) (8 * q + r) \<longleftrightarrow> bit x (8 * (7 - q) + r)"
  using less_cases(2) [OF assms(1)] assms(2) unfolding XXH_swap64_def byte_masks64
  by (elim disjE) (simp_all add: bit_or_iff bit_and_iff bit_push_bit_iff bit_drop_bit_eq bit_mask_iff)

lemma swap32_le_word: "length bs = 4 \<Longrightarrow> XXH_swap32 (le_word bs) = le_word (rev bs)"
proof (rule bit_word_eqI)
  fix n assume l: "length bs = 4" and n: "n < LENGTH(32)"
  define q where "q = n div 8"
  define r where "r = n mod 8"
  have nqr: "n = 8 * q + r" "q < 4" "r < 8" using n by (auto simp: q_def r_def)
  then show "bit (XXH_swap32 (le_word bs)) n \<longleftrightarrow> bit (le_word (rev bs) :: u32) n"
    using l unfolding nqr(1) bit_swap32 [OF nqr(2,3)] by (auto simp: bit_le_word rev_nth)
qed

lemma swap64_le_word: "length bs = 8 \<Longrightarrow> XXH_swap64 (le_word bs) = le_word (rev bs)"
proof (rule bit_word_eqI)
  fix n assume l: "length bs = 8" and n: "n < LENGTH(64)"
  define q where "q = n div 8"
  define r where "r = n mod 8"
  have nqr: "n = 8 * q + r" "q < 8" "r < 8" using n by (auto simp: q_def r_def)
  then show "bit (XXH_swap64 (le_word bs)) n \<longleftrightarrow> bit (le_word (rev bs) :: u64) n"
    using l unfolding nqr(1) bit_swap64 [OF nqr(2,3)] by (auto simp: bit_le_word rev_nth)
qed

lemma native_bytes:
  "native32 le w = (let bs = map (\<lambda>k. ucast (drop_bit (8 * k) w)) [0..<4] in if le then bs else rev bs)"
  by (simp add: native32_def upt_rec eval_nat_numeral)

lemma le_word_native:
  "le_word (native32 True w) = w" "le_word (native64 True v) = v"
  "length (native32 le w) = 4" "length (native64 le v) = 8"
  "native32 False w = rev (native32 True w)" "native64 False v = rev (native64 True v)"
proof -
  show "le_word (native32 True w) = w"
    by (rule bit_word_eqI) (auto simp: native_bytes bit_le_word bit_ucast_iff bit_drop_bit_eq)
  show "le_word (native64 True v) = v"
    by (rule bit_word_eqI) (auto simp: native64_def bit_le_word bit_ucast_iff bit_drop_bit_eq)
qed (simp_all add: native32_def native64_def Let_def)

lemma le_word_inj:
  assumes "length bs = length cs" "8 * length bs \<le> LENGTH('a)" "(le_word bs :: 'a::len word) = le_word cs"
  shows "bs = cs"
proof (rule nth_equalityI)
  fix i assume i: "i < length bs"
  show "bs ! i = cs ! i"
  proof (rule bit_word_eqI)
    fix n assume "n < LENGTH(8)"
    then show "bit (bs ! i) n = bit (cs ! i) n"
      using assms i bit_le_word [of bs "8 * i + n", where 'a = 'a] bit_le_word [of cs "8 * i + n", where 'a = 'a] by simp
  qed
qed (use assms(1) in simp)

lemma native_swap: "native32 le (XXH_swap32 w) = rev (native32 le w)" "native64 le (XXH_swap64 v) = rev (native64 le v)"
proof -
  have a: "native32 True (XXH_swap32 w) = rev (native32 True w)"
    by (rule le_word_inj [where 'a = 32]) (simp_all add: le_word_native swap32_le_word [symmetric])
  show "native32 le (XXH_swap32 w) = rev (native32 le w)" using a by (cases le) (simp_all add: le_word_native)
  have b: "native64 True (XXH_swap64 v) = rev (native64 True v)"
    by (rule le_word_inj [where 'a = 64]) (simp_all add: le_word_native swap64_le_word [symmetric])
  show "native64 le (XXH_swap64 v) = rev (native64 le v)" using b by (cases le) (simp_all add: le_word_native)
qed

text \<open>Both configurations of the reads agree, on a CPU of either order, and so do the writes.\<close>

lemma native_reads:
  "XXH_readLE32_native le p i = XXH_readLE32 p i" "XXH_readBE32_native le p i = XXH_readBE32 p i"
  "XXH_readLE64_native le p i = XXH_readLE64 p i" "XXH_readBE64_native le p i = XXH_readBE64 p i"
  by (simp_all add: XXH_readLE32_native_def XXH_readBE32_native_def XXH_readLE64_native_def XXH_readBE64_native_def
    XXH_read32_def XXH_read64_def readLE32_window readBE32_window readLE64_window readBE64_window swap32_le_word swap64_le_word)

lemma writeLE64_window: "XXH_writeLE64 le dst d v = XXH_memcpy dst d (native64 True v) 0 8"
  by (cases le) (simp_all add: XXH_writeLE64_def native_swap le_word_native)

subsection \<open>The portable long multiplication\<close>

lemma mult32to64_nat: "unat (XXH_mult32to64 x y) = (unat x mod 2 ^ 32) * (unat y mod 2 ^ 32)"
proof -
  have m: "unat (ucast x :: u32) = unat x mod 2 ^ 32" for x :: u64
    by (simp add: unsigned_ucast_eq take_bit_eq_mod unat_mod)
  have l: "(unat x mod 2 ^ 32) * (unat y mod 2 ^ 32) < 2 ^ 64"
  proof -
    have "unat x mod 2 ^ 32 < 2 ^ 32" "unat y mod 2 ^ 32 < 2 ^ 32" by simp_all
    then have "(unat x mod 2 ^ 32) * (unat y mod 2 ^ 32) < 2 ^ 32 * 2 ^ 32" by (intro mult_strict_mono) simp_all
    then show ?thesis by simp
  qed
  then show ?thesis by (simp add: XXH_mult32to64_def unat_word_ariths m)
qed

text \<open>Long multiplication in base \<open>B\<close>.\<close>

lemma long_mult:
  fixes B :: nat
  assumes "a1 < B" "a0 < B" "b1 < B" "b0 < B"
  defines "cr \<equiv> a0 * b0 div B + a1 * b0 mod B + a0 * b1"
  defines "up \<equiv> a1 * b0 div B + cr div B + a1 * b1" and "lw \<equiv> cr mod B * B + a0 * b0 mod B"
  shows "up * (B * B) + lw = (a1 * B + a0) * (b1 * B + b0)" "lw < B * B" "cr < B * B" "up < B * B"
proof -
  have B: "0 < B" using assms by auto
  have sq: "a * b + (B - 1) + (B - 1) < B * B" if "a < B" "b < B" for a b
  proof -
    have "a * b \<le> (B - 1) * (B - 1)" using that by (intro mult_le_mono) auto
    moreover have "(B - 1) * (B - 1) + (B - 1) + (B - 1) = B * B - 1" using B by (cases B) auto
    ultimately show ?thesis using B by (cases "B * B") auto
  qed
  have "a0 * b0 div B < B" using assms(1-4) by (intro less_mult_imp_div_less mult_strict_mono) auto
  moreover have "a1 * b0 mod B < B" using B by simp
  ultimately show cr: "cr < B * B" using sq [OF assms(2,3)] unfolding cr_def by linarith
  have m: "x mod B \<le> B - 1" for x using mod_less_divisor [OF B, of x] by linarith
  show lw: "lw < B * B"
  proof -
    have "cr mod B * B \<le> (B - 1) * B" using m by (rule mult_le_mono1)
    moreover have "(B - 1) * B + (B - 1) < B * B" using B by (cases B) auto
    ultimately show ?thesis using m [of "a0 * b0"] unfolding lw_def by linarith
  qed
  have hl: "a1 * b0 div B * B + a1 * b0 mod B = a1 * b0" and ll: "a0 * b0 div B * B + a0 * b0 mod B = a0 * b0"
    and cc: "cr div B * B + cr mod B = cr" by simp_all
  have "up * (B * B) + lw = (a1 * b0 div B) * B * B + (cr div B * B + cr mod B) * B + a1 * b1 * B * B + a0 * b0 mod B"
    unfolding up_def lw_def by (simp only: algebra_simps)
  also have "\<dots> = (a1 * b0 div B * B + a1 * b0 mod B) * B + (a0 * b0 div B * B + a0 * b0 mod B) + a0 * b1 * B + a1 * b1 * B * B"
    unfolding cc by (subst cr_def) (simp only: algebra_simps)
  also have "\<dots> = (a1 * B + a0) * (b1 * B + b0)" unfolding hl ll by (simp add: algebra_simps)
  finally show eq: "up * (B * B) + lw = (a1 * B + a0) * (b1 * B + b0)" .
  have "a * B + b < B * B" if "a < B" "b < B" for a b
  proof -
    have "(a + 1) * B \<le> B * B" using that(1) by (intro mult_le_mono1) simp
    then show ?thesis using that(2) by simp
  qed
  then have "(a1 * B + a0) * (b1 * B + b0) < (B * B) * (B * B)" using assms(1-4) by (intro mult_strict_mono) auto
  then have "up * (B * B) < (B * B) * (B * B)" using eq by linarith
  then show "up < B * B" using mult_less_cancel2 by blast
qed

lemma mult64to128_nat:
  "unat (low64 (XXH_mult64to128 x y)) = unat x * unat y mod 2 ^ 64"
  "unat (high64 (XXH_mult64to128 x y)) = unat x * unat y div 2 ^ 64"
proof -
  define p where "p = (ucast x :: 128 word) * ucast y"
  have u: "unat (ucast x :: 128 word) = unat x" for x :: u64
  proof -
    have "unat x < 2 ^ 128" using unat_less_two_power [of x] by simp
    then show ?thesis by (simp add: unsigned_ucast_eq take_bit_nat_eq_self)
  qed
  have "unat x * unat y < 2 ^ 64 * 2 ^ 64" using unat_less_two_power [of x] unat_less_two_power [of y] by (intro mult_strict_mono) simp_all
  then have p: "unat p = unat x * unat y" "unat x * unat y < 2 ^ 128" unfolding p_def by (simp_all add: unat_word_ariths u)
  have c: "unat (ucast q :: u64) = unat q mod 2 ^ 64" for q :: "128 word" by (simp add: unsigned_ucast_eq take_bit_eq_mod unat_mod)
  show "unat (low64 (XXH_mult64to128 x y)) = unat x * unat y mod 2 ^ 64"
    by (simp add: XXH_mult64to128_def Let_def p_def [symmetric] c p)
  have "unat x * unat y div 2 ^ 64 < 2 ^ 64" using p(2) by (intro less_mult_imp_div_less) simp
  then show "unat (high64 (XXH_mult64to128 x y)) = unat x * unat y div 2 ^ 64"
    by (simp add: XXH_mult64to128_def Let_def p_def [symmetric] c unat_drop_bit_div p)
qed

lemma and_low32: "unat ((w :: u64) AND 0xFFFFFFFF) = unat w mod 2 ^ 32"
proof -
  have "(0xFFFFFFFF :: u64) = mask 32" by (simp add: mask_eq_exp_minus_1)
  then show ?thesis by (simp only: take_bit_eq_mask [symmetric] unsigned_take_bit_eq) (simp add: take_bit_eq_mod)
qed

lemma mult64to128_portable: "XXH_mult64to128_portable x y = XXH_mult64to128 x y"
proof -
  define B :: nat where "B = 2 ^ 32"
  define a1 where "a1 = unat x div B"
  define a0 where "a0 = unat x mod B"
  define b1 where "b1 = unat y div B"
  define b0 where "b0 = unat y mod B"
  have B: "B * B = 2 ^ 64" "0 < B" by (simp_all add: B_def)
  have l: "a1 < B" "a0 < B" "b1 < B" "b0 < B"
    using unat_less_two_power [of x] unat_less_two_power [of y] B by (auto simp: a1_def a0_def b1_def b0_def intro!: less_mult_imp_div_less)
  define cr where "cr = a0 * b0 div B + a1 * b0 mod B + a0 * b1"
  note L = long_mult [OF l, folded cr_def]
  have xy: "unat x = a1 * B + a0" "unat y = b1 * B + b0" by (simp_all add: a1_def a0_def b1_def b0_def)
  define ll where "ll = XXH_mult32to64 (x AND 0xFFFFFFFF) (y AND 0xFFFFFFFF)"
  define hl where "hl = XXH_mult32to64 (drop_bit 32 x) (y AND 0xFFFFFFFF)"
  define lh where "lh = XXH_mult32to64 (x AND 0xFFFFFFFF) (drop_bit 32 y)"
  define hh where "hh = XXH_mult32to64 (drop_bit 32 x) (drop_bit 32 y)"
  define c where "c = drop_bit 32 ll + (hl AND 0xFFFFFFFF) + lh"
  have prods: "unat ll = a0 * b0" "unat hl = a1 * b0" "unat lh = a0 * b1" "unat hh = a1 * b1"
    using l by (simp_all add: ll_def hl_def lh_def hh_def mult32to64_nat and_low32 unat_drop_bit_div a1_def a0_def b1_def b0_def B_def)
  have "unat c = cr mod 2 ^ 64" unfolding c_def
    by (simp add: unat_word_ariths and_low32 unat_drop_bit_div prods cr_def B_def mod_add_left_eq)
  then have c: "unat c = cr" using L(3) B by simp
  have up: "unat (drop_bit 32 hl + drop_bit 32 c + hh) = a1 * b0 div B + cr div B + a1 * b1"
    using L(4) by (simp add: unat_word_ariths unat_drop_bit_div prods c B_def mod_add_left_eq)
  have dis: "push_bit 32 c AND (ll AND 0xFFFFFFFF) = 0"
  proof -
    have "(0xFFFFFFFF :: u64) = mask 32" by (simp add: mask_eq_exp_minus_1)
    then show ?thesis by (simp only: bit_eq_iff) (auto simp: bit_and_iff bit_push_bit_iff bit_mask_iff)
  qed
  have sh: "unat (push_bit 32 c) = cr mod B * B"
    using B by (simp add: push_bit_eq_mult unat_word_ariths c B_def mult.commute) (simp add: mult_mod_right mult.commute)
  have lw: "unat (push_bit 32 c OR (ll AND 0xFFFFFFFF)) = cr mod B * B + a0 * b0 mod B"
    unfolding disjunctive_add_eq_or [OF dis, symmetric]
    using L(2) by (simp add: unat_word_ariths sh and_low32 prods B_def)
  have dm: "(u * M + l) mod M = l" "(u * M + l) div M = u" if "l < M" for u l M :: nat using that by simp_all
  have "unat x * unat y mod 2 ^ 64 = cr mod B * B + a0 * b0 mod B"
    "unat x * unat y div 2 ^ 64 = a1 * b0 div B + cr div B + a1 * b1"
    unfolding xy L(1) [symmetric] B(1) using dm [OF L(2) [unfolded B(1)]] by blast+
  then have "push_bit 32 c OR (ll AND 0xFFFFFFFF) = low64 (XXH_mult64to128 x y)" "drop_bit 32 hl + drop_bit 32 c + hh = high64 (XXH_mult64to128 x y)"
    unfolding word_unat_eq_iff lw up mult64to128_nat by simp_all
  then show ?thesis unfolding XXH_mult64to128_portable_def Let_def ll_def [symmetric] hl_def [symmetric] lh_def [symmetric]
    hh_def [symmetric] c_def [symmetric] by simp
qed

end
