(* ===== verification/Stream_Spec.thy ===== *)
theory Stream_Spec
  imports Util_Prelude
begin

text \<open>
  The contract between the one-shot and the streaming form of a hash function: whatever the chunks in
  which the input arrives, the digest is the hash of their concatenation (locale \<open>streaming_hash\<close>). The locale
  \<open>stripe_loop\<close> describes the inner loops that consume an input in stripes of a fixed length.
\<close>

section \<open>Streaming\<close>

fun updates :: "('st \<Rightarrow> bytes \<Rightarrow> 'st option) \<Rightarrow> 'st \<Rightarrow> bytes list \<Rightarrow> 'st option" where
  "updates update st [] = Some st"
| "updates update st (c # cs) = do { st \<leftarrow> update st c; updates update st cs }"

locale streaming_hash =
  fixes start :: 'st
    and update :: "'st \<Rightarrow> bytes \<Rightarrow> 'st option"
    and digest :: "'st \<Rightarrow> 'h option"
    and oneshot :: "bytes \<Rightarrow> 'h option"
    and rel :: "bytes \<Rightarrow> 'st \<Rightarrow> bool"
  assumes start_law: "rel [] start"
    and update_law: "rel xs st \<Longrightarrow> length (xs @ ys) < 2 ^ 64 \<Longrightarrow> \<exists>st'. update st ys = Some st' \<and> rel (xs @ ys) st'"
    and digest_law: "rel xs st \<Longrightarrow> length xs < 2 ^ 64 \<Longrightarrow> digest st = oneshot xs"
begin

lemma updates_rel:
  "rel xs st \<Longrightarrow> length (xs @ concat cs) < 2 ^ 64 \<Longrightarrow> \<exists>st'. updates update st cs = Some st' \<and> rel (xs @ concat cs) st'"
proof (induction cs arbitrary: xs st)
  case (Cons c cs)
  then obtain st1 where st1: "update st c = Some st1" "rel (xs @ c) st1" using update_law [of xs st c] by auto
  with Cons.IH [of "xs @ c" st1] Cons.prems show ?case by simp
qed simp

lemma stream_eq_oneshot:
  assumes "length (concat cs) < 2 ^ 64"
  shows "\<exists>st. updates update start cs = Some st \<and> digest st = oneshot (concat cs)"
  using updates_rel [OF start_law, of cs] digest_law assms by auto

end

section \<open>Stripes\<close>

text \<open>The reference for a loop over stripes: all the full stripes of an input, and what is left.\<close>

fun stripes_n :: "nat \<Rightarrow> nat \<Rightarrow> ('v \<Rightarrow> bytes \<Rightarrow> 'v) \<Rightarrow> 'v \<Rightarrow> bytes \<Rightarrow> 'v" where
  "stripes_n 0 L step v xs = v"
| "stripes_n (Suc k) L step v xs = stripes_n k L step (step v (take L xs)) (drop L xs)"

definition full_stripes :: "nat \<Rightarrow> ('v \<Rightarrow> bytes \<Rightarrow> 'v) \<Rightarrow> 'v \<Rightarrow> bytes \<Rightarrow> 'v" where
  "full_stripes L step v xs = stripes_n (length xs div L) L step v xs"

definition rest_of :: "nat \<Rightarrow> bytes \<Rightarrow> bytes" where
  "rest_of L xs = drop (L * (length xs div L)) xs"

lemma full_stripes_rec:
  assumes "0 < L"
  shows "full_stripes L step v xs = (if length xs < L then v else full_stripes L step (step v (take L xs)) (drop L xs))"
proof (cases "length xs < L")
  case False
  then have "length xs div L = Suc (length (drop L xs) div L)" using assms by (simp add: le_div_geq)
  then show ?thesis using False by (simp add: full_stripes_def)
qed (simp add: full_stripes_def)

lemma rest_of_rec:
  assumes "0 < L"
  shows "rest_of L xs = (if length xs < L then xs else rest_of L (drop L xs))"
proof (cases "length xs < L")
  case False
  then have "length xs div L = Suc (length (drop L xs) div L)" using assms by (simp add: le_div_geq)
  then show ?thesis using False by (simp add: rest_of_def add.commute)
qed (simp add: rest_of_def)

lemma length_rest_of: "length (rest_of L xs) = length xs mod L"
  by (simp add: rest_of_def minus_mult_div_eq_mod)

text \<open>Stripes of a concatenation: first those of the first part, then those of what it left and the second part.\<close>

lemma stripes_append:
  assumes L: "0 < L"
  shows "full_stripes L step v (xs @ ys) = full_stripes L step (full_stripes L step v xs) (rest_of L xs @ ys) \<and>
    rest_of L (xs @ ys) = rest_of L (rest_of L xs @ ys)"
proof (induction "length xs" arbitrary: xs v rule: less_induct)
  case less
  show ?case
  proof (cases "length xs < L")
    case True
    then show ?thesis using full_stripes_rec [OF L, of step v xs] rest_of_rec [OF L, of xs] by simp
  next
    case False
    then have "length (drop L xs) < length xs" using L by auto
    from less [OF this, of "step v (take L xs)"] show ?thesis
      using False full_stripes_rec [OF L, of step v xs] rest_of_rec [OF L, of xs]
        full_stripes_rec [OF L, of step v "xs @ ys"] rest_of_rec [OF L, of "xs @ ys"] by simp
  qed
qed

lemma stripes_short: "length xs < L \<Longrightarrow> full_stripes L step v xs = v" "length xs < L \<Longrightarrow> rest_of L xs = xs"
  by (simp_all add: full_stripes_def rest_of_def)

text \<open>An update first completes the stripe in the buffer, then goes on in its input.\<close>

lemma stripes_feed:
  assumes "length r < L" "L \<le> length r + length ys"
  defines "p \<equiv> if r = [] then 0 else L - length r"
  shows "full_stripes L step v (r @ ys) = full_stripes L step (if r = [] then v else step v (r @ take p ys)) (drop p ys)"
    "rest_of L (r @ ys) = rest_of L (drop p ys)" "p \<le> length ys"
proof -
  have L: "0 < L" using assms(1) by auto
  show "full_stripes L step v (r @ ys) = full_stripes L step (if r = [] then v else step v (r @ take p ys)) (drop p ys)"
    using assms(1,2) full_stripes_rec [OF L, of step v "r @ ys"] by (auto simp: p_def)
  show "rest_of L (r @ ys) = rest_of L (drop p ys)"
    using assms(1,2) rest_of_rec [OF L, of "r @ ys"] by (auto simp: p_def)
  show "p \<le> length ys" using assms(1,2) by (auto simp: p_def)
qed

lemma rest_suffix: "p \<le> length ys \<Longrightarrow> drop (length ys - length (rest_of L (drop p ys))) ys = rest_of L (drop p ys)"
proof -
  assume p: "p \<le> length ys"
  have "rest_of L (drop p ys) = drop (p + L * (length (drop p ys) div L)) ys" by (simp add: rest_of_def add.commute)
  moreover have "p + L * (length (drop p ys) div L) \<le> length ys"
    using p mult_div_mod_eq [of L "length ys - p"] by (simp only: length_drop)
  ultimately show ?thesis by simp
qed

locale stripe_loop =
  fixes L :: nat
    and step :: "'v \<Rightarrow> bytes \<Rightarrow> 'v"
    and stripe :: "bytes \<Rightarrow> nat \<Rightarrow> 'v \<Rightarrow> 'v option"
    and loop :: "bytes \<Rightarrow> nat \<Rightarrow> nat \<Rightarrow> 'v \<Rightarrow> ('v \<times> nat) option"
  assumes L_pos: "0 < L"
    and stripe_law: "i + L \<le> length p \<Longrightarrow> stripe p i v = Some (step v (take L (drop i p)))"
    and loop_law: "loop p i bound v = do { v \<leftarrow> stripe p i v; if i + L < bound then loop p (i + L) bound v else Some (v, i + L) }"
begin

text \<open>A loop that runs while a full stripe is left consumes exactly the full stripes.\<close>

lemma loop_full:
  "i + L \<le> length p \<Longrightarrow> loop p i (length p - (L - 1)) v =
    Some (full_stripes L step v (drop i p), length p - length (rest_of L (drop i p)))"
proof (induction "length p - i" arbitrary: i v rule: less_induct)
  case less
  have nl: "\<not> length (drop i p) < L" using less.prems by simp
  show ?case
  proof (cases "i + L + L \<le> length p")
    case True
    then have "i + L < length p - (L - 1)" using L_pos by linarith
    moreover have "loop p (i + L) (length p - (L - 1)) (step v (take L (drop i p))) =
        Some (full_stripes L step (step v (take L (drop i p))) (drop (i + L) p), length p - length (rest_of L (drop (i + L) p)))"
      using less.prems True L_pos by (intro less.hyps) auto
    ultimately show ?thesis using less.prems True nl L_pos stripe_law [of i p v]
      by (subst loop_law) (simp add: full_stripes_rec [OF L_pos, of _ _ "drop i p"] rest_of_rec [OF L_pos, of "drop i p"] add.commute)
  next
    case False
    then have n: "\<not> i + L < length p - (L - 1)" "length (drop (i + L) p) < L" using L_pos by auto
    then have s: "full_stripes L step (step v (take L (drop i p))) (drop (i + L) p) = step v (take L (drop i p))"
      "rest_of L (drop (i + L) p) = drop (i + L) p"
      using full_stripes_rec [OF L_pos, of step _ "drop (i + L) p"] rest_of_rec [OF L_pos, of "drop (i + L) p"] by simp_all
    show ?thesis using less.prems n s nl L_pos stripe_law [of i p v]
      by (subst loop_law) (simp add: full_stripes_rec [OF L_pos, of _ _ "drop i p"] rest_of_rec [OF L_pos, of "drop i p"] add.commute)
  qed
qed

end

end
