(* ===== verification/Xxh_Classic.thy ===== *)
theory Xxh_Classic
  imports Xxh_Base Stream_Spec
begin

text \<open>
  XXH32 and XXH64 of \<^verbatim>\<open>src/cpp-util/xxhash.h\<close>, in their one-shot and streaming forms. The alignment argument of
  the code only selects between two reads of the same bytes and is left out. The loops
  \<^verbatim>\<open>do ... while (p < limit)\<close> take the offset \<open>bound\<close> below which they go on; \<^verbatim>\<open>p <= limit\<close> is \<open>p < limit + 1\<close>. The number
  of buffered bytes, which stays below the length of a stripe, is a natural.
\<close>

unbundle bit_operations_syntax

section \<open>XXH32\<close>

type_synonym 'w lanes = "'w \<times> 'w \<times> 'w \<times> 'w"

definition XXH32_round :: "u32 \<Rightarrow> u32 \<Rightarrow> u32" where
  "XXH32_round acc input = XXH_rotl32 (acc + input * XXH_PRIME32_2) 13 * XXH_PRIME32_1"

definition XXH32_avalanche :: "u32 \<Rightarrow> u32" where
  "XXH32_avalanche hash =
     (let hash = hash XOR drop_bit 15 hash;
          hash = hash * XXH_PRIME32_2;
          hash = hash XOR drop_bit 13 hash;
          hash = hash * XXH_PRIME32_3
      in hash XOR drop_bit 16 hash)"

definition XXH_PROCESS1 :: "bytes \<Rightarrow> u32 \<times> nat \<Rightarrow> (u32 \<times> nat) option" where
  "XXH_PROCESS1 ptr = (\<lambda>(hash, i). do {
     b \<leftarrow> rd ptr i;
     Some (XXH_rotl32 (hash + ucast b * XXH_PRIME32_5) 11 * XXH_PRIME32_1, i + 1) })"

definition XXH_PROCESS4 :: "bytes \<Rightarrow> u32 \<times> nat \<Rightarrow> (u32 \<times> nat) option" where
  "XXH_PROCESS4 ptr = (\<lambda>(hash, i). do {
     w \<leftarrow> XXH_readLE32 ptr i;
     Some (XXH_rotl32 (hash + w * XXH_PRIME32_3) 17 * XXH_PRIME32_4, i + 4) })"

fun XXH32_by4 :: "bytes \<Rightarrow> nat \<Rightarrow> u32 \<times> nat \<Rightarrow> (u32 \<times> nat \<times> nat) option" where
  "XXH32_by4 ptr len (hash, i) =
     (if 4 \<le> len then do { s \<leftarrow> XXH_PROCESS4 ptr (hash, i); XXH32_by4 ptr (len - 4) s } else Some (hash, i, len))"

fun XXH32_by1 :: "bytes \<Rightarrow> nat \<Rightarrow> u32 \<times> nat \<Rightarrow> u32 option" where
  "XXH32_by1 ptr len (hash, i) =
     (if 0 < len then do { s \<leftarrow> XXH_PROCESS1 ptr (hash, i); XXH32_by1 ptr (len - 1) s } else Some hash)"

declare XXH32_by4.simps [simp del] XXH32_by1.simps [simp del]

definition XXH32_finalize :: "u32 \<Rightarrow> bytes \<Rightarrow> nat \<Rightarrow> nat \<Rightarrow> u32 option" where
  "XXH32_finalize hash ptr i len = do {
     (hash, i, len) \<leftarrow> XXH32_by4 ptr (len mod 16) (hash, i);
     hash \<leftarrow> XXH32_by1 ptr len (hash, i);
     Some (XXH32_avalanche hash) }"

text \<open>The variant with jumps, \<^verbatim>\<open>XXH32_ENDJMP\<close>: each case label enters a sequence of the two macros.\<close>

fun XXH_sequence :: "bytes \<Rightarrow> nat \<Rightarrow> nat \<Rightarrow> u32 \<times> nat \<Rightarrow> u32 option" where
  "XXH_sequence ptr (Suc n4) n1 s = do { s \<leftarrow> XXH_PROCESS4 ptr s; XXH_sequence ptr n4 n1 s }"
| "XXH_sequence ptr 0 (Suc n1) s = do { s \<leftarrow> XXH_PROCESS1 ptr s; XXH_sequence ptr 0 n1 s }"
| "XXH_sequence ptr 0 0 s = Some (XXH32_avalanche (fst s))"

definition XXH32_finalize_jmp :: "u32 \<Rightarrow> bytes \<Rightarrow> nat \<Rightarrow> nat \<Rightarrow> u32 option" where
  "XXH32_finalize_jmp hash ptr i len =
     (let k = len mod 16; s = (hash, i) in
      if k = 12 then XXH_sequence ptr 3 0 s else if k = 8 then XXH_sequence ptr 2 0 s else if k = 4 then XXH_sequence ptr 1 0 s
      else if k = 13 then XXH_sequence ptr 3 1 s else if k = 9 then XXH_sequence ptr 2 1 s else if k = 5 then XXH_sequence ptr 1 1 s
      else if k = 14 then XXH_sequence ptr 3 2 s else if k = 10 then XXH_sequence ptr 2 2 s else if k = 6 then XXH_sequence ptr 1 2 s
      else if k = 15 then XXH_sequence ptr 3 3 s else if k = 11 then XXH_sequence ptr 2 3 s else if k = 7 then XXH_sequence ptr 1 3 s
      else if k = 3 then XXH_sequence ptr 0 3 s else if k = 2 then XXH_sequence ptr 0 2 s else if k = 1 then XXH_sequence ptr 0 1 s
      else if k = 0 then XXH_sequence ptr 0 0 s else None)"

definition XXH32_stripe :: "bytes \<Rightarrow> nat \<Rightarrow> u32 lanes \<Rightarrow> u32 lanes option" where
  "XXH32_stripe input i = (\<lambda>(v1, v2, v3, v4). do {
     w1 \<leftarrow> XXH_readLE32 input i;
     w2 \<leftarrow> XXH_readLE32 input (i + 4);
     w3 \<leftarrow> XXH_readLE32 input (i + 8);
     w4 \<leftarrow> XXH_readLE32 input (i + 12);
     Some (XXH32_round v1 w1, XXH32_round v2 w2, XXH32_round v3 w3, XXH32_round v4 w4) })"

function XXH32_stripes :: "bytes \<Rightarrow> nat \<Rightarrow> nat \<Rightarrow> u32 lanes \<Rightarrow> (u32 lanes \<times> nat) option" where
  "XXH32_stripes input i bound v = do {
     v \<leftarrow> XXH32_stripe input i v;
     if i + 16 < bound then XXH32_stripes input (i + 16) bound v else Some (v, i + 16) }"
  by pat_completeness auto
termination by (relation "measure (\<lambda>(input, i, bound, v). bound - i)") auto

declare XXH32_stripes.simps [simp del]

definition XXH32_init :: "u32 \<Rightarrow> u32 lanes" where
  "XXH32_init seed = (seed + XXH_PRIME32_1 + XXH_PRIME32_2, seed + XXH_PRIME32_2, seed + 0, seed - XXH_PRIME32_1)"

definition XXH32_converge :: "u32 lanes \<Rightarrow> u32" where
  "XXH32_converge = (\<lambda>(v1, v2, v3, v4). XXH_rotl32 v1 1 + XXH_rotl32 v2 7 + XXH_rotl32 v3 12 + XXH_rotl32 v4 18)"

definition XXH32_endian_align :: "bytes \<Rightarrow> u32 \<Rightarrow> u32 option" where
  "XXH32_endian_align input seed = do {
     let len = length input;
     (h32, i) \<leftarrow> (if 16 \<le> len then do {
                  (v, i) \<leftarrow> XXH32_stripes input 0 (len - 15) (XXH32_init seed);
                  Some (XXH32_converge v, i) }
                else Some (seed + XXH_PRIME32_5, 0));
     XXH32_finalize (h32 + of_nat len) input i (len mod 16) }"

definition XXH32 :: "bytes \<Rightarrow> u32 \<Rightarrow> u32 option" where
  "XXH32 input seed = XXH32_endian_align input seed"

record XXH32_state =
  total_len_32 :: u32
  large_len :: u32
  v32 :: "u32 lanes"
  mem32 :: bytes
  memsize32 :: nat

definition XXH32_reset :: "u32 \<Rightarrow> XXH32_state" where
  "XXH32_reset seed = \<lparr>total_len_32 = 0, large_len = 0, v32 = XXH32_init seed, mem32 = replicate 16 0, memsize32 = 0\<rparr>"

definition XXH32_consume :: "XXH32_state \<Rightarrow> bytes \<Rightarrow> XXH32_state option" where
  "XXH32_consume st input = (let len = length input in
     if memsize32 st + len < 16 then do {
       mem \<leftarrow> XXH_memcpy (mem32 st) (memsize32 st) input 0 len;
       Some (st\<lparr>mem32 := mem, memsize32 := memsize32 st + len\<rparr>) }
     else do {
       (st, p) \<leftarrow> (if memsize32 st \<noteq> 0 then do {
                    mem \<leftarrow> XXH_memcpy (mem32 st) (memsize32 st) input 0 (16 - memsize32 st);
                    v \<leftarrow> XXH32_stripe mem 0 (v32 st);
                    Some (st\<lparr>mem32 := mem, v32 := v, memsize32 := 0\<rparr>, 16 - memsize32 st) }
                  else Some (st, 0));
       (st, p) \<leftarrow> (if p + 16 \<le> len then do {
                    (v, p) \<leftarrow> XXH32_stripes input p (len - 15) (v32 st);
                    Some (st\<lparr>v32 := v\<rparr>, p) }
                  else Some (st, p));
       if p < len then do {
         mem \<leftarrow> XXH_memcpy (mem32 st) 0 input p (len - p);
         Some (st\<lparr>mem32 := mem, memsize32 := len - p\<rparr>) }
       else Some st })"

definition XXH32_update :: "XXH32_state \<Rightarrow> bytes \<Rightarrow> XXH32_state option" where
  "XXH32_update st input = do {
     let len = length input;
     let st = st\<lparr>total_len_32 := total_len_32 st + of_nat len\<rparr>;
     let st = st\<lparr>large_len := large_len st OR of_bool (16 \<le> len \<or> 16 \<le> total_len_32 st)\<rparr>;
     XXH32_consume st input }"

definition XXH32_digest :: "XXH32_state \<Rightarrow> u32 option" where
  "XXH32_digest st = do {
     let h32 = (if large_len st \<noteq> 0 then XXH32_converge (v32 st) else fst (snd (snd (v32 st))) + XXH_PRIME32_5);
     XXH32_finalize (h32 + total_len_32 st) (mem32 st) 0 (memsize32 st) }"

section \<open>XXH64\<close>

definition XXH64_round :: "u64 \<Rightarrow> u64 \<Rightarrow> u64" where
  "XXH64_round acc input = XXH_rotl64 (acc + input * XXH_PRIME64_2) 31 * XXH_PRIME64_1"

definition XXH64_mergeRound :: "u64 \<Rightarrow> u64 \<Rightarrow> u64" where
  "XXH64_mergeRound acc val =
     (let val = XXH64_round 0 val;
          acc = acc XOR val
      in acc * XXH_PRIME64_1 + XXH_PRIME64_4)"

definition XXH64_avalanche :: "u64 \<Rightarrow> u64" where
  "XXH64_avalanche hash =
     (let hash = hash XOR drop_bit 33 hash;
          hash = hash * XXH_PRIME64_2;
          hash = hash XOR drop_bit 29 hash;
          hash = hash * XXH_PRIME64_3
      in hash XOR drop_bit 32 hash)"

fun XXH64_by8 :: "bytes \<Rightarrow> nat \<Rightarrow> nat \<Rightarrow> u64 \<Rightarrow> (u64 \<times> nat \<times> nat) option" where
  "XXH64_by8 ptr i len hash =
     (if 8 \<le> len then do {
        w \<leftarrow> XXH_readLE64 ptr i;
        let k1 = XXH64_round 0 w;
        let hash = hash XOR k1;
        XXH64_by8 ptr (i + 8) (len - 8) (XXH_rotl64 hash 27 * XXH_PRIME64_1 + XXH_PRIME64_4) }
      else Some (hash, i, len))"

fun XXH64_by1 :: "bytes \<Rightarrow> nat \<Rightarrow> nat \<Rightarrow> u64 \<Rightarrow> u64 option" where
  "XXH64_by1 ptr i len hash =
     (if 0 < len then do {
        b \<leftarrow> rd ptr i;
        let hash = hash XOR ucast b * XXH_PRIME64_5;
        XXH64_by1 ptr (i + 1) (len - 1) (XXH_rotl64 hash 11 * XXH_PRIME64_1) }
      else Some hash)"

declare XXH64_by8.simps [simp del] XXH64_by1.simps [simp del]

definition XXH64_finalize :: "u64 \<Rightarrow> bytes \<Rightarrow> nat \<Rightarrow> nat \<Rightarrow> u64 option" where
  "XXH64_finalize hash ptr i len = do {
     (hash, i, len) \<leftarrow> XXH64_by8 ptr i (len mod 32) hash;
     (hash, i, len) \<leftarrow> (if 4 \<le> len then do {
          w \<leftarrow> XXH_readLE32 ptr i;
          let hash = hash XOR ucast w * XXH_PRIME64_1;
          Some (XXH_rotl64 hash 23 * XXH_PRIME64_2 + XXH_PRIME64_3, i + 4, len - 4) }
        else Some (hash, i, len));
     hash \<leftarrow> XXH64_by1 ptr i len hash;
     Some (XXH64_avalanche hash) }"

definition XXH64_stripe :: "bytes \<Rightarrow> nat \<Rightarrow> u64 lanes \<Rightarrow> u64 lanes option" where
  "XXH64_stripe input i = (\<lambda>(v1, v2, v3, v4). do {
     w1 \<leftarrow> XXH_readLE64 input i;
     w2 \<leftarrow> XXH_readLE64 input (i + 8);
     w3 \<leftarrow> XXH_readLE64 input (i + 16);
     w4 \<leftarrow> XXH_readLE64 input (i + 24);
     Some (XXH64_round v1 w1, XXH64_round v2 w2, XXH64_round v3 w3, XXH64_round v4 w4) })"

function XXH64_stripes :: "bytes \<Rightarrow> nat \<Rightarrow> nat \<Rightarrow> u64 lanes \<Rightarrow> (u64 lanes \<times> nat) option" where
  "XXH64_stripes input i bound v = do {
     v \<leftarrow> XXH64_stripe input i v;
     if i + 32 < bound then XXH64_stripes input (i + 32) bound v else Some (v, i + 32) }"
  by pat_completeness auto
termination by (relation "measure (\<lambda>(input, i, bound, v). bound - i)") auto

declare XXH64_stripes.simps [simp del]

definition XXH64_init :: "u64 \<Rightarrow> u64 lanes" where
  "XXH64_init seed = (seed + XXH_PRIME64_1 + XXH_PRIME64_2, seed + XXH_PRIME64_2, seed + 0, seed - XXH_PRIME64_1)"

definition XXH64_converge :: "u64 lanes \<Rightarrow> u64" where
  "XXH64_converge = (\<lambda>(v1, v2, v3, v4).
     let h64 = XXH_rotl64 v1 1 + XXH_rotl64 v2 7 + XXH_rotl64 v3 12 + XXH_rotl64 v4 18;
         h64 = XXH64_mergeRound h64 v1;
         h64 = XXH64_mergeRound h64 v2;
         h64 = XXH64_mergeRound h64 v3
     in XXH64_mergeRound h64 v4)"

definition XXH64_endian_align :: "bytes \<Rightarrow> u64 \<Rightarrow> u64 option" where
  "XXH64_endian_align input seed = do {
     let len = length input;
     (h64, i) \<leftarrow> (if 32 \<le> len then do {
                  (v, i) \<leftarrow> XXH64_stripes input 0 (len - 31) (XXH64_init seed);
                  Some (XXH64_converge v, i) }
                else Some (seed + XXH_PRIME64_5, 0));
     XXH64_finalize (h64 + of_nat len) input i len }"

definition XXH64 :: "bytes \<Rightarrow> u64 \<Rightarrow> u64 option" where
  "XXH64 input seed = XXH64_endian_align input seed"

record XXH64_state =
  total_len :: u64
  v64 :: "u64 lanes"
  mem64 :: bytes
  memsize64 :: nat

definition XXH64_reset :: "u64 \<Rightarrow> XXH64_state" where
  "XXH64_reset seed = \<lparr>total_len = 0, v64 = XXH64_init seed, mem64 = replicate 32 0, memsize64 = 0\<rparr>"

definition XXH64_consume :: "XXH64_state \<Rightarrow> bytes \<Rightarrow> XXH64_state option" where
  "XXH64_consume st input = (let len = length input in
     if memsize64 st + len < 32 then do {
       mem \<leftarrow> XXH_memcpy (mem64 st) (memsize64 st) input 0 len;
       Some (st\<lparr>mem64 := mem, memsize64 := memsize64 st + len\<rparr>) }
     else do {
       (st, p) \<leftarrow> (if memsize64 st \<noteq> 0 then do {
                    mem \<leftarrow> XXH_memcpy (mem64 st) (memsize64 st) input 0 (32 - memsize64 st);
                    v \<leftarrow> XXH64_stripe mem 0 (v64 st);
                    Some (st\<lparr>mem64 := mem, v64 := v, memsize64 := 0\<rparr>, 32 - memsize64 st) }
                  else Some (st, 0));
       (st, p) \<leftarrow> (if p + 32 \<le> len then do {
                    (v, p) \<leftarrow> XXH64_stripes input p (len - 31) (v64 st);
                    Some (st\<lparr>v64 := v\<rparr>, p) }
                  else Some (st, p));
       if p < len then do {
         mem \<leftarrow> XXH_memcpy (mem64 st) 0 input p (len - p);
         Some (st\<lparr>mem64 := mem, memsize64 := len - p\<rparr>) }
       else Some st })"

definition XXH64_update :: "XXH64_state \<Rightarrow> bytes \<Rightarrow> XXH64_state option" where
  "XXH64_update st input = do {
     let len = length input;
     let st = st\<lparr>total_len := total_len st + of_nat len\<rparr>;
     XXH64_consume st input }"

definition XXH64_digest :: "XXH64_state \<Rightarrow> u64 option" where
  "XXH64_digest st = do {
     let h64 = (if 32 \<le> total_len st then XXH64_converge (v64 st) else fst (snd (snd (v64 st))) + XXH_PRIME64_5);
     XXH64_finalize (h64 + total_len st) (mem64 st) 0 (unat (total_len st)) }"

section \<open>Reference definitions\<close>

text \<open>The two hashes on whole lists: the full stripes, then the bytes that are left.\<close>

fun step32 :: "u32 lanes \<Rightarrow> bytes \<Rightarrow> u32 lanes" where
  "step32 (v1, v2, v3, v4) w = (XXH32_round v1 (le_word (take 4 w)), XXH32_round v2 (le_word (take 4 (drop 4 w))),
     XXH32_round v3 (le_word (take 4 (drop 8 w))), XXH32_round v4 (le_word (take 4 (drop 12 w))))"

fun step64 :: "u64 lanes \<Rightarrow> bytes \<Rightarrow> u64 lanes" where
  "step64 (v1, v2, v3, v4) w = (XXH64_round v1 (le_word (take 8 w)), XXH64_round v2 (le_word (take 8 (drop 8 w))),
     XXH64_round v3 (le_word (take 8 (drop 16 w))), XXH64_round v4 (le_word (take 8 (drop 24 w))))"

definition mix4_32 :: "u32 \<Rightarrow> bytes \<Rightarrow> u32" where
  "mix4_32 h w = XXH_rotl32 (h + le_word (take 4 w) * XXH_PRIME32_3) 17 * XXH_PRIME32_4"

definition mix8_64 :: "u64 \<Rightarrow> bytes \<Rightarrow> u64" where
  "mix8_64 h w = XXH_rotl64 (h XOR XXH64_round 0 (le_word (take 8 w))) 27 * XXH_PRIME64_1 + XXH_PRIME64_4"

definition mix4_64 :: "u64 \<Rightarrow> bytes \<Rightarrow> u64" where
  "mix4_64 h w = XXH_rotl64 (h XOR ucast (le_word (take 4 w) :: u32) * XXH_PRIME64_1) 23 * XXH_PRIME64_2 + XXH_PRIME64_3"

definition mix1_32 :: "u32 \<Rightarrow> u8 \<Rightarrow> u32" where
  "mix1_32 h b = XXH_rotl32 (h + ucast b * XXH_PRIME32_5) 11 * XXH_PRIME32_1"

definition mix1_64 :: "u64 \<Rightarrow> u8 \<Rightarrow> u64" where
  "mix1_64 h b = XXH_rotl64 (h XOR ucast b * XXH_PRIME64_5) 11 * XXH_PRIME64_1"

definition tail32 :: "u32 \<Rightarrow> bytes \<Rightarrow> u32" where
  "tail32 h ws = XXH32_avalanche (foldl mix1_32 (full_stripes 4 mix4_32 h ws) (rest_of 4 ws))"

definition tail64 :: "u64 \<Rightarrow> bytes \<Rightarrow> u64" where
  "tail64 h ws = (let h8 = full_stripes 8 mix8_64 h ws; r = rest_of 8 ws in
     XXH64_avalanche (if 4 \<le> length r then foldl mix1_64 (mix4_64 h8 r) (drop 4 r) else foldl mix1_64 h8 r))"

definition hash32 :: "bytes \<Rightarrow> u32 \<Rightarrow> u32" where
  "hash32 xs seed = tail32 ((if 16 \<le> length xs then XXH32_converge (full_stripes 16 step32 (XXH32_init seed) xs)
     else seed + XXH_PRIME32_5) + of_nat (length xs)) (rest_of 16 xs)"

definition hash64 :: "bytes \<Rightarrow> u64 \<Rightarrow> u64" where
  "hash64 xs seed = tail64 ((if 32 \<le> length xs then XXH64_converge (full_stripes 32 step64 (XXH64_init seed) xs)
     else seed + XXH_PRIME64_5) + of_nat (length xs)) (rest_of 32 xs)"

section \<open>The loops implement the reference\<close>

interpretation s32: stripe_loop 16 step32 XXH32_stripe XXH32_stripes
proof unfold_locales
  fix i p v assume "i + 16 \<le> length (p :: bytes)"
  then show "XXH32_stripe p i v = Some (step32 v (take 16 (drop i p)))"
    by (cases v) (simp add: XXH32_stripe_def readLE32_window drop_take add.commute)
next
  fix p i bound v
  show "XXH32_stripes p i bound v = do { v \<leftarrow> XXH32_stripe p i v;
      if i + 16 < bound then XXH32_stripes p (i + 16) bound v else Some (v, i + 16) }"
    by (subst XXH32_stripes.simps) (rule refl)
qed simp

interpretation s64: stripe_loop 32 step64 XXH64_stripe XXH64_stripes
proof unfold_locales
  fix i p v assume "i + 32 \<le> length (p :: bytes)"
  then show "XXH64_stripe p i v = Some (step64 v (take 32 (drop i p)))"
    by (cases v) (simp add: XXH64_stripe_def readLE64_window drop_take add.commute)
next
  fix p i bound v
  show "XXH64_stripes p i bound v = do { v \<leftarrow> XXH64_stripe p i v;
      if i + 32 < bound then XXH64_stripes p (i + 32) bound v else Some (v, i + 32) }"
    by (subst XXH64_stripes.simps) (rule refl)
qed simp

lemma by1_32: "i + len \<le> length p \<Longrightarrow> XXH32_by1 p len (h, i) = Some (foldl mix1_32 h (take len (drop i p)))"
proof (induction len arbitrary: i h)
  case (Suc len)
  then have "take (Suc len) (drop i p) = p ! i # take len (drop (Suc i) p)" by (simp add: Cons_nth_drop_Suc [symmetric])
  then show ?case using Suc.IH [of "Suc i"] Suc.prems by (subst XXH32_by1.simps) (simp add: XXH_PROCESS1_def mix1_32_def [of h "p ! i"])
qed (subst XXH32_by1.simps, simp)

lemma by1_64: "i + len \<le> length p \<Longrightarrow> XXH64_by1 p i len h = Some (foldl mix1_64 h (take len (drop i p)))"
proof (induction len arbitrary: i h)
  case (Suc len)
  then have "take (Suc len) (drop i p) = p ! i # take len (drop (Suc i) p)" by (simp add: Cons_nth_drop_Suc [symmetric])
  then show ?case using Suc.IH [of "Suc i"] Suc.prems by (subst XXH64_by1.simps) (simp add: mix1_64_def [of h "p ! i"] Let_def)
qed (subst XXH64_by1.simps, simp)

text \<open>The loops by words leave a suffix of the window \<open>take len (drop i p)\<close>.\<close>

lemma by4_32:
  "i + len \<le> length p \<Longrightarrow> XXH32_by4 p len (h, i) =
    (let ws = take len (drop i p) in Some (full_stripes 4 mix4_32 h ws, i + (len - len mod 4), len mod 4))"
proof (induction len arbitrary: i h rule: less_induct)
  case (less len)
  show ?case
  proof (cases "4 \<le> len")
    case True
    then have m: "len - len mod 4 = 4 + (len - 4 - (len - 4) mod 4)" "(len - 4) mod 4 = len mod 4"
      using mod_less_eq_dividend [of "len - 4" 4] by (simp_all add: le_mod_geq)
    have "take 4 (take len (drop i p)) = take 4 (drop i p)" using True by (simp add: min_def)
    then show ?thesis using True less.prems less.IH [of "len - 4" "i + 4"] m full_stripes_rec [of 4 mix4_32 h "take len (drop i p)"]
      by (subst XXH32_by4.simps) (simp add: XXH_PROCESS4_def readLE32_window mix4_32_def [of h] drop_take add.commute Let_def)
  next
    case False
    then show ?thesis using full_stripes_rec [of 4 mix4_32 h "take len (drop i p)"] less.prems
      by (subst XXH32_by4.simps) (simp add: Let_def min_def)
  qed
qed

lemma by8_64:
  "i + len \<le> length p \<Longrightarrow> XXH64_by8 p i len h =
    (let ws = take len (drop i p) in Some (full_stripes 8 mix8_64 h ws, i + (len - len mod 8), len mod 8))"
proof (induction len arbitrary: i h rule: less_induct)
  case (less len)
  show ?case
  proof (cases "8 \<le> len")
    case True
    then have m: "len - len mod 8 = 8 + (len - 8 - (len - 8) mod 8)" "(len - 8) mod 8 = len mod 8"
      using mod_less_eq_dividend [of "len - 8" 8] by (simp_all add: le_mod_geq)
    have "take 8 (take len (drop i p)) = take 8 (drop i p)" using True by (simp add: min_def)
    then show ?thesis using True less.prems less.IH [of "len - 8" "i + 8"] m full_stripes_rec [of 8 mix8_64 h "take len (drop i p)"]
      by (subst XXH64_by8.simps) (simp add: readLE64_window mix8_64_def [of h] drop_take add.commute Let_def)
  next
    case False
    then show ?thesis using full_stripes_rec [of 8 mix8_64 h "take len (drop i p)"] less.prems
      by (subst XXH64_by8.simps) (simp add: Let_def min_def)
  qed
qed

lemma rest_of_window: "i + len \<le> length p \<Longrightarrow> rest_of L (take len (drop i p)) = take (len mod L) (drop (i + (len - len mod L)) p)"
  by (simp add: rest_of_def drop_take minus_mod_eq_mult_div minus_mult_div_eq_mod add.commute)

lemma finalize32: "i + len mod 16 \<le> length p \<Longrightarrow> XXH32_finalize h p i len = Some (tail32 h (take (len mod 16) (drop i p)))"
  using mod_less_eq_dividend [of "len mod 16" 4]
  by (simp add: XXH32_finalize_def by4_32 by1_32 tail32_def rest_of_window Let_def)

lemma finalize64: "i + len mod 32 \<le> length p \<Longrightarrow> XXH64_finalize h p i len = Some (tail64 h (take (len mod 32) (drop i p)))"
  using mod_less_eq_dividend [of "len mod 32" 8]
  by (auto simp: XXH64_finalize_def by8_64 by1_64 tail64_def rest_of_window Let_def readLE32_window mix4_64_def drop_take add.commute)

lemma endian_align32: "XXH32_endian_align xs seed = Some (hash32 xs seed)"
proof (cases "16 \<le> length xs")
  case True
  have "drop (length xs - length (rest_of 16 xs)) xs = rest_of 16 xs" using rest_suffix [of 0 xs 16] by simp
  then show ?thesis using True s32.loop_full [of 0 xs "XXH32_init seed"]
    by (simp add: XXH32_endian_align_def Let_def finalize32 hash32_def length_rest_of)
next
  case False
  then show ?thesis by (simp add: XXH32_endian_align_def Let_def finalize32 hash32_def stripes_short)
qed

lemma endian_align64: "XXH64_endian_align xs seed = Some (hash64 xs seed)"
proof (cases "32 \<le> length xs")
  case True
  have "drop (length xs - length (rest_of 32 xs)) xs = rest_of 32 xs" using rest_suffix [of 0 xs 32] by simp
  then show ?thesis using True s64.loop_full [of 0 xs "XXH64_init seed"]
    by (simp add: XXH64_endian_align_def Let_def finalize64 hash64_def length_rest_of)
next
  case False
  then show ?thesis by (simp add: XXH64_endian_align_def Let_def finalize64 hash64_def stripes_short)
qed

section \<open>Streaming\<close>

lemma memcpy_ok: "d + n \<le> length dest \<Longrightarrow> s + n \<le> length src \<Longrightarrow>
    XXH_memcpy dest d src s n = Some (take d dest @ take n (drop s src) @ drop (d + n) dest)"
  by (simp add: XXH_memcpy_def)

definition rel32 :: "u32 \<Rightarrow> bytes \<Rightarrow> XXH32_state \<Rightarrow> bool" where
  "rel32 seed xs st \<longleftrightarrow> total_len_32 st = of_nat (length xs) \<and> (large_len st \<noteq> 0 \<longleftrightarrow> 16 \<le> length xs) \<and>
     v32 st = full_stripes 16 step32 (XXH32_init seed) xs \<and>
     length (mem32 st) = 16 \<and> memsize32 st = length xs mod 16 \<and> take (memsize32 st) (mem32 st) = rest_of 16 xs"

definition rel64 :: "u64 \<Rightarrow> bytes \<Rightarrow> XXH64_state \<Rightarrow> bool" where
  "rel64 seed xs st \<longleftrightarrow> total_len st = of_nat (length xs) \<and>
     v64 st = full_stripes 32 step64 (XXH64_init seed) xs \<and>
     length (mem64 st) = 32 \<and> memsize64 st = length xs mod 32 \<and> take (memsize64 st) (mem64 st) = rest_of 32 xs"

lemma large_len_step: "(16 \<le> length xs \<or> 16 \<le> length ys \<or> (16 :: u32) \<le> of_nat (length (xs @ ys))) \<longleftrightarrow> 16 \<le> length (xs @ ys)"
proof (cases "length (xs @ ys) < 2 ^ 32")
  case True
  then have "unat (of_nat (length (xs @ ys)) :: u32) = length (xs @ ys)"
    by (simp only: unsigned_of_nat) (simp add: take_bit_nat_eq_self)
  then have "(16 :: u32) \<le> of_nat (length (xs @ ys)) \<longleftrightarrow> 16 \<le> length (xs @ ys)" by (simp only: word_le_nat_alt) simp
  then show ?thesis by auto
qed auto

text \<open>What the two update functions do with the lanes, the buffer and the number of buffered bytes.\<close>

definition feed :: "nat \<Rightarrow> (bytes \<Rightarrow> nat \<Rightarrow> 'v \<Rightarrow> 'v option) \<Rightarrow> (bytes \<Rightarrow> nat \<Rightarrow> nat \<Rightarrow> 'v \<Rightarrow> ('v \<times> nat) option) \<Rightarrow>
    'v \<Rightarrow> bytes \<Rightarrow> nat \<Rightarrow> bytes \<Rightarrow> ('v \<times> bytes \<times> nat) option" where
  "feed L stripe loop v mem m ys =
     (if m + length ys < L then do { mem \<leftarrow> XXH_memcpy mem m ys 0 (length ys); Some (v, mem, m + length ys) }
      else do {
        (v, mem, m, p) \<leftarrow> (if m \<noteq> 0 then do {
                    mem \<leftarrow> XXH_memcpy mem m ys 0 (L - m);
                    v \<leftarrow> stripe mem 0 v;
                    Some (v, mem, 0, L - m) }
                  else Some (v, mem, m, 0));
        (v, p) \<leftarrow> (if p + L \<le> length ys then loop ys p (length ys - (L - 1)) v else Some (v, p));
        if p < length ys then do { mem \<leftarrow> XXH_memcpy mem 0 ys p (length ys - p); Some (v, mem, length ys - p) }
        else Some (v, mem, m) })"

lemma update32_core:
  "XXH32_consume st ys = map_option (\<lambda>(v, mem, m). st\<lparr>v32 := v, mem32 := mem, memsize32 := m\<rparr>)
    (feed 16 XXH32_stripe XXH32_stripes (v32 st) (mem32 st) (memsize32 st) ys)"
proof (cases "memsize32 st + length ys < 16")
  case True
  then show ?thesis by (cases "XXH_memcpy (mem32 st) (memsize32 st) ys 0 (length ys)") (simp_all add: XXH32_consume_def feed_def Let_def)
next
  case False
  have loop: "do { (st, p) \<leftarrow> (if p + 16 \<le> length ys then do { (v, p) \<leftarrow> XXH32_stripes ys p (length ys - 15) v; Some (st\<lparr>v32 := v\<rparr>, p) }
                  else Some (st, p));
       if p < length ys then do {
         mem \<leftarrow> XXH_memcpy (mem32 st) 0 ys p (length ys - p);
         Some (st\<lparr>mem32 := mem, memsize32 := length ys - p\<rparr>) }
       else Some st } = map_option (\<lambda>(v, mem, m). st\<lparr>v32 := v, mem32 := mem, memsize32 := m\<rparr>) (do {
         (v, p) \<leftarrow> (if p + 16 \<le> length ys then XXH32_stripes ys p (length ys - 15) v else Some (v, p));
         if p < length ys then do { mem \<leftarrow> XXH_memcpy mem 0 ys p (length ys - p); Some (v, mem, length ys - p) }
         else Some (v, mem, m) })" if "v32 st = v" "mem32 st = mem" "memsize32 st = m" for st :: XXH32_state and p v mem m
    using that by (cases "XXH32_stripes ys p (length ys - 15) v") (auto simp: split_beta split: bind_split)
  show ?thesis
  proof (cases "memsize32 st = 0")
    case True
    then show ?thesis using False loop [of st _ _ 0 0, OF refl refl True] by (simp add: XXH32_consume_def feed_def Let_def)
  next
    case m: False
    show ?thesis
    proof (cases "XXH_memcpy (mem32 st) (memsize32 st) ys 0 (16 - memsize32 st) \<bind> (\<lambda>mem. map_option (Pair mem) (XXH32_stripe mem 0 (v32 st)))")
      case None
      then show ?thesis using m False by (simp add: XXH32_consume_def feed_def Let_def split: bind_splits)
    next
      case (Some q)
      then obtain mem v where f: "XXH_memcpy (mem32 st) (memsize32 st) ys 0 (16 - memsize32 st) = Some mem" "XXH32_stripe mem 0 (v32 st) = Some v"
        by (auto split: bind_splits)
      define st' where "st' = st\<lparr>mem32 := mem, v32 := v, memsize32 := 0\<rparr>"
      have st': "v32 st' = v" "mem32 st' = mem" "memsize32 st' = 0"
        "(\<lambda>(v, mem, m). st'\<lparr>v32 := v, mem32 := mem, memsize32 := m\<rparr>) = (\<lambda>(v, mem, m). st\<lparr>v32 := v, mem32 := mem, memsize32 := m\<rparr>)"
        by (auto simp: st'_def)
      have k: "(16 :: nat) - 1 = 15" by simp
      show ?thesis unfolding XXH32_consume_def feed_def Let_def
        by (simp only: False m f if_False if_True not_False_eq_True bind.bind_lunit prod.case st'_def [symmetric] st'(1)
          loop [OF st'(1-3)] st'(4) k)
    qed
  qed
qed

lemma update32_feed:
  "XXH32_update st ys = map_option (\<lambda>(v, mem, m). st\<lparr>total_len_32 := total_len_32 st + of_nat (length ys),
      large_len := large_len st OR of_bool (16 \<le> length ys \<or> 16 \<le> total_len_32 st + of_nat (length ys))\<rparr>\<lparr>v32 := v, mem32 := mem, memsize32 := m\<rparr>)
    (feed 16 XXH32_stripe XXH32_stripes (v32 st) (mem32 st) (memsize32 st) ys)"
  by (simp add: XXH32_update_def Let_def update32_core)

lemma update64_core:
  "XXH64_consume st ys = map_option (\<lambda>(v, mem, m). st\<lparr>v64 := v, mem64 := mem, memsize64 := m\<rparr>)
    (feed 32 XXH64_stripe XXH64_stripes (v64 st) (mem64 st) (memsize64 st) ys)"
proof (cases "memsize64 st + length ys < 32")
  case True
  then show ?thesis by (cases "XXH_memcpy (mem64 st) (memsize64 st) ys 0 (length ys)") (simp_all add: XXH64_consume_def feed_def Let_def)
next
  case False
  have loop: "do { (st, p) \<leftarrow> (if p + 32 \<le> length ys then do { (v, p) \<leftarrow> XXH64_stripes ys p (length ys - 31) v; Some (st\<lparr>v64 := v\<rparr>, p) }
                  else Some (st, p));
       if p < length ys then do {
         mem \<leftarrow> XXH_memcpy (mem64 st) 0 ys p (length ys - p);
         Some (st\<lparr>mem64 := mem, memsize64 := length ys - p\<rparr>) }
       else Some st } = map_option (\<lambda>(v, mem, m). st\<lparr>v64 := v, mem64 := mem, memsize64 := m\<rparr>) (do {
         (v, p) \<leftarrow> (if p + 32 \<le> length ys then XXH64_stripes ys p (length ys - 31) v else Some (v, p));
         if p < length ys then do { mem \<leftarrow> XXH_memcpy mem 0 ys p (length ys - p); Some (v, mem, length ys - p) }
         else Some (v, mem, m) })" if "v64 st = v" "mem64 st = mem" "memsize64 st = m" for st :: XXH64_state and p v mem m
    using that by (cases "XXH64_stripes ys p (length ys - 31) v") (auto simp: split_beta split: bind_split)
  show ?thesis
  proof (cases "memsize64 st = 0")
    case True
    then show ?thesis using False loop [of st _ _ 0 0, OF refl refl True] by (simp add: XXH64_consume_def feed_def Let_def)
  next
    case m: False
    show ?thesis
    proof (cases "XXH_memcpy (mem64 st) (memsize64 st) ys 0 (32 - memsize64 st) \<bind> (\<lambda>mem. map_option (Pair mem) (XXH64_stripe mem 0 (v64 st)))")
      case None
      then show ?thesis using m False by (simp add: XXH64_consume_def feed_def Let_def split: bind_splits)
    next
      case (Some q)
      then obtain mem v where f: "XXH_memcpy (mem64 st) (memsize64 st) ys 0 (32 - memsize64 st) = Some mem" "XXH64_stripe mem 0 (v64 st) = Some v"
        by (auto split: bind_splits)
      define st' where "st' = st\<lparr>mem64 := mem, v64 := v, memsize64 := 0\<rparr>"
      have st': "v64 st' = v" "mem64 st' = mem" "memsize64 st' = 0"
        "(\<lambda>(v, mem, m). st'\<lparr>v64 := v, mem64 := mem, memsize64 := m\<rparr>) = (\<lambda>(v, mem, m). st\<lparr>v64 := v, mem64 := mem, memsize64 := m\<rparr>)"
        by (auto simp: st'_def)
      have k: "(32 :: nat) - 1 = 31" by simp
      show ?thesis unfolding XXH64_consume_def feed_def Let_def
        by (simp only: False m f if_False if_True not_False_eq_True bind.bind_lunit prod.case st'_def [symmetric] st'(1)
          loop [OF st'(1-3)] st'(4) k)
    qed
  qed
qed

lemma update64_feed:
  "XXH64_update st ys = map_option (\<lambda>(v, mem, m). st\<lparr>total_len := total_len st + of_nat (length ys)\<rparr>\<lparr>v64 := v, mem64 := mem, memsize64 := m\<rparr>)
    (feed 32 XXH64_stripe XXH64_stripes (v64 st) (mem64 st) (memsize64 st) ys)"
  by (simp add: XXH64_update_def Let_def update64_core)

context stripe_loop
begin

lemma feed_ok:
  assumes mem: "length mem = L" and r: "take (length r) mem = r" "length r < L"
  shows "\<exists>mem'. feed L stripe loop v mem (length r) ys = Some (full_stripes L step v (r @ ys), mem', length (rest_of L (r @ ys))) \<and>
    length mem' = L \<and> take (length (rest_of L (r @ ys))) mem' = rest_of L (r @ ys)"
proof (cases "length r + length ys < L")
  case True
  then show ?thesis using mem r by (simp add: feed_def memcpy_ok stripes_short)
next
  case False
  define p where "p = (if r = [] then 0 else L - length r)"
  define v1 where "v1 = (if r = [] then v else step v (r @ take p ys))"
  define mem1 where "mem1 = (if r = [] then mem else r @ take p ys)"
  define R where "R = rest_of L (r @ ys)"
  have "L \<le> length r + length ys" using False by simp
  note F = stripes_feed [OF r(2) this, folded p_def]
  have p: "p \<le> length ys" "length mem1 = L" using F(3) False r(2) mem by (auto simp: p_def mem1_def)
  have first: "(if length r \<noteq> 0 then do { mem \<leftarrow> XXH_memcpy mem (length r) ys 0 (L - length r); v \<leftarrow> stripe mem 0 v;
        Some (v, mem, 0, L - length r) } else Some (v, mem, length r, 0)) = Some (v1, mem1, 0, p)"
    using mem r False F(3) stripe_law [of 0 mem1 v] p by (auto simp: memcpy_ok p_def v1_def mem1_def)
  have R: "drop (length ys - length R) ys = R" "length R \<le> length ys - p"
    using rest_suffix [OF p(1), of L] F(2) [folded R_def] length_rest_of [of L "drop p ys"] mod_less_eq_dividend [of "length ys - p" L] by auto
  have second: "(if p + L \<le> length ys then loop ys p (length ys - (L - 1)) v1 else Some (v1, p)) =
      Some (full_stripes L step v (r @ ys), length ys - length R)"
    using loop_full [of p ys v1] F(1) [of step v] F(2) [folded R_def] False r(2) p(1) stripes_short(1) [of "drop p ys" L step v1] stripes_short(2) [of "drop p ys" L]
    by (auto simp: v1_def [symmetric])
  have RL: "length R < L" "length R \<le> length ys"
    using R(2) length_rest_of [of L "r @ ys"] mod_less_divisor [OF L_pos, of "length (r @ ys)"] by (simp_all add: R_def [symmetric])
  have lt: "length ys - length R < length ys \<longleftrightarrow> R \<noteq> []" using RL(2) by (cases R) auto
  have third: "(if length ys - length R < length ys then do { mem \<leftarrow> XXH_memcpy mem1 0 ys (length ys - length R) (length ys - (length ys - length R));
        Some (w, mem, length ys - (length ys - length R)) } else Some (w, mem1, 0)) =
      Some (w, if R = [] then mem1 else R @ drop (length R) mem1, length R)" for w :: 'a
    using lt RL R(1) p(2) by (cases "R = []") (simp_all add: memcpy_ok)
  have "feed L stripe loop v mem (length r) ys = Some (full_stripes L step v (r @ ys),
      (if R = [] then mem1 else R @ drop (length R) mem1), length R)"
    unfolding feed_def by (simp only: False if_False first bind.bind_lunit prod.case second third)
  then show ?thesis using p(2) RL by (auto simp: R_def [symmetric])
qed

end

lemma update32_rel:
  assumes rel: "rel32 seed xs st"
  shows "\<exists>st'. XXH32_update st ys = Some st' \<and> rel32 seed (xs @ ys) st'"
proof -
  define r where "r = rest_of 16 xs"
  have st: "total_len_32 st = of_nat (length xs)" "v32 st = full_stripes 16 step32 (XXH32_init seed) xs" "memsize32 st = length r"
    "length (mem32 st) = 16" "take (length r) (mem32 st) = r" "length r < 16" "large_len st \<noteq> 0 \<longleftrightarrow> 16 \<le> length xs"
    using rel by (auto simp: rel32_def r_def length_rest_of)
  obtain mem' where mem': "feed 16 XXH32_stripe XXH32_stripes (v32 st) (mem32 st) (length r) ys =
      Some (full_stripes 16 step32 (v32 st) (r @ ys), mem', length (rest_of 16 (r @ ys)))"
    "length mem' = 16" "take (length (rest_of 16 (r @ ys))) mem' = rest_of 16 (r @ ys)"
    using s32.feed_ok [OF st(4-6)] by blast
  have app: "full_stripes 16 step32 (v32 st) (r @ ys) = full_stripes 16 step32 (XXH32_init seed) (xs @ ys)"
    "rest_of 16 (r @ ys) = rest_of 16 (xs @ ys)"
    using stripes_append [of 16 step32 "XXH32_init seed" xs ys] by (simp_all add: r_def st(2))
  have tot: "total_len_32 st + of_nat (length ys) = of_nat (length (xs @ ys))" by (simp add: st(1))
  have "large_len st OR of_bool (16 \<le> length ys \<or> (16 :: u32) \<le> of_nat (length (xs @ ys))) \<noteq> 0 \<longleftrightarrow> 16 \<le> length (xs @ ys)"
    using st(7) large_len_step [of xs ys] by (simp add: or_eq_0_iff)
  then show ?thesis unfolding update32_feed st(3) mem'(1) tot using mem'(2,3)
    by (simp add: rel32_def app length_rest_of del: length_append)
qed

lemma update64_rel:
  assumes rel: "rel64 seed xs st"
  shows "\<exists>st'. XXH64_update st ys = Some st' \<and> rel64 seed (xs @ ys) st'"
proof -
  define r where "r = rest_of 32 xs"
  have st: "total_len st = of_nat (length xs)" "v64 st = full_stripes 32 step64 (XXH64_init seed) xs" "memsize64 st = length r"
    "length (mem64 st) = 32" "take (length r) (mem64 st) = r" "length r < 32"
    using rel by (auto simp: rel64_def r_def length_rest_of)
  obtain mem' where mem': "feed 32 XXH64_stripe XXH64_stripes (v64 st) (mem64 st) (length r) ys =
      Some (full_stripes 32 step64 (v64 st) (r @ ys), mem', length (rest_of 32 (r @ ys)))"
    "length mem' = 32" "take (length (rest_of 32 (r @ ys))) mem' = rest_of 32 (r @ ys)"
    using s64.feed_ok [OF st(4-6)] by blast
  have app: "full_stripes 32 step64 (v64 st) (r @ ys) = full_stripes 32 step64 (XXH64_init seed) (xs @ ys)"
    "rest_of 32 (r @ ys) = rest_of 32 (xs @ ys)"
    using stripes_append [of 32 step64 "XXH64_init seed" xs ys] by (simp_all add: r_def st(2))
  have tot: "total_len st + of_nat (length ys) = of_nat (length (xs @ ys))" by (simp add: st(1))
  show ?thesis unfolding update64_feed st(3) mem'(1) tot using mem'(2,3)
    by (simp add: rel64_def app length_rest_of del: length_append)
qed

lemma third_init: "fst (snd (snd (XXH32_init s))) = s" "fst (snd (snd (XXH64_init t))) = t"
  by (simp_all add: XXH32_init_def XXH64_init_def)

lemma digest32_rel: "rel32 seed xs st \<Longrightarrow> XXH32_digest st = Some (hash32 xs seed)"
proof -
  assume rel: "rel32 seed xs st"
  have "full_stripes 16 step32 (XXH32_init seed) xs = XXH32_init seed" if "length xs < 16" using that by (simp add: stripes_short)
  then show ?thesis using rel
    by (auto simp: rel32_def XXH32_digest_def Let_def finalize32 hash32_def length_rest_of third_init not_le)
qed

lemma digest64_rel: "rel64 seed xs st \<Longrightarrow> length xs < 2 ^ 64 \<Longrightarrow> XXH64_digest st = Some (hash64 xs seed)"
proof -
  assume rel: "rel64 seed xs st" and len: "length xs < 2 ^ 64"
  have u: "unat (of_nat (length xs) :: u64) = length xs" using len by (simp add: unsigned_of_nat take_bit_nat_eq_self)
  have le: "(32 :: u64) \<le> of_nat (length xs) \<longleftrightarrow> 32 \<le> length xs" by (simp only: word_le_nat_alt u) simp
  have "full_stripes 32 step64 (XXH64_init seed) xs = XXH64_init seed" if "length xs < 32" using that by (simp add: stripes_short)
  then show ?thesis using rel
    by (auto simp: rel64_def XXH64_digest_def Let_def finalize64 hash64_def length_rest_of third_init not_le u le)
qed

interpretation x32: streaming_hash "XXH32_reset seed" XXH32_update XXH32_digest "\<lambda>xs. XXH32 xs seed" "rel32 seed" for seed
proof unfold_locales
  show "rel32 seed [] (XXH32_reset seed)"
    by (simp add: rel32_def XXH32_reset_def full_stripes_def rest_of_def)
  show "\<exists>st'. XXH32_update st ys = Some st' \<and> rel32 seed (xs @ ys) st'" if "rel32 seed xs st" for xs st ys
    using update32_rel [OF that] .
  show "XXH32_digest st = XXH32 xs seed" if "rel32 seed xs st" for xs st
    using digest32_rel [OF that] by (simp add: XXH32_def endian_align32)
qed

interpretation x64: streaming_hash "XXH64_reset seed" XXH64_update XXH64_digest "\<lambda>xs. XXH64 xs seed" "rel64 seed" for seed
proof unfold_locales
  show "rel64 seed [] (XXH64_reset seed)"
    by (simp add: rel64_def XXH64_reset_def full_stripes_def rest_of_def)
  show "\<exists>st'. XXH64_update st ys = Some st' \<and> rel64 seed (xs @ ys) st'" if "rel64 seed xs st" for xs st ys
    using update64_rel [OF that] .
  show "XXH64_digest st = XXH64 xs seed" if "rel64 seed xs st" "length xs < 2 ^ 64" for xs st
    using digest64_rel [OF that] by (simp add: XXH64_def endian_align64)
qed

text \<open>The variant of \<^verbatim>\<open>XXH32_finalize\<close> with jumps computes the same value.\<close>

lemma sequence_by1: "XXH_sequence ptr 0 n (h, i) = do { h \<leftarrow> XXH32_by1 ptr n (h, i); Some (XXH32_avalanche h) }"
proof (induction n arbitrary: h i)
  case 0
  show ?case by (subst XXH32_by1.simps) simp
next
  case (Suc n)
  have "XXH_sequence ptr 0 n = (\<lambda>s. do { h \<leftarrow> XXH32_by1 ptr n s; Some (XXH32_avalanche h) })"
    using Suc.IH by (auto simp: fun_eq_iff)
  then show ?case by (subst XXH32_by1.simps) simp
qed

lemma sequence_by4:
  "k < 4 \<Longrightarrow> XXH_sequence ptr n k (h, i) =
    do { (h, i, len) \<leftarrow> XXH32_by4 ptr (4 * n + k) (h, i); h \<leftarrow> XXH32_by1 ptr len (h, i); Some (XXH32_avalanche h) }"
proof (induction n arbitrary: h i)
  case 0
  then show ?case by (subst XXH32_by4.simps) (simp add: sequence_by1)
next
  case (Suc n)
  have "XXH_sequence ptr n k = (\<lambda>s. do { (h, i, len) \<leftarrow> XXH32_by4 ptr (4 * n + k) s; h \<leftarrow> XXH32_by1 ptr len (h, i); Some (XXH32_avalanche h) })"
    using Suc by (auto simp: fun_eq_iff)
  then show ?case by (subst XXH32_by4.simps) simp
qed

lemma finalize_jmp: "XXH32_finalize_jmp h p i len = XXH32_finalize h p i len"
proof -
  define k where "k = len mod 16"
  have f: "XXH_sequence p n4 n1 (h, i) = XXH32_finalize h p i len" if "k = 4 * n4 + n1" "n1 < 4" for n4 n1
    using sequence_by4 [OF that(2), of p n4 h i] that(1) by (simp add: XXH32_finalize_def k_def)
  define n4 where "n4 = k div 4"
  define n1 where "n1 = k mod 4"
  have n: "n4 < 4" "n1 < 4" and k: "k = 4 * n4 + n1" by (auto simp: n4_def n1_def k_def)
  have r: "XXH32_finalize_jmp h p i len = XXH_sequence p n4 n1 (h, i)"
    using less_cases(1) [OF n(1)] less_cases(1) [OF n(2)] k
    by (elim disjE) (simp_all add: XXH32_finalize_jmp_def k_def [symmetric] Let_def)
  then show ?thesis using f [OF k n(2)] by simp
qed

section \<open>Properties of XXH32 and XXH64\<close>

text \<open>C16. XXH32: a stream that is reset with a seed and fed the input in any chunks gives the hash that
  the one-shot function gives for the concatenation of the chunks; neither aborts or reads outside its
  input.\<close>

theorem xxh32_stream_eq_oneshot:
  assumes "length (concat chunks) < 2 ^ 64"
  shows "\<exists>st h. updates XXH32_update (XXH32_reset seed) chunks = Some st \<and> XXH32_digest st = Some h \<and> XXH32 (concat chunks) seed = Some h"
  using x32.stream_eq_oneshot [OF assms, of seed] by (auto simp: XXH32_def endian_align32)

theorem xxh32_stream_eq_oneshot_witness:
  "\<exists>st. updates XXH32_update (XXH32_reset 0) [[97], [98, 99]] = Some st \<and> XXH32_digest st = Some 0x32D153FF"
proof -
  have v: "XXH32 (concat [[97], [98, 99]]) 0 = Some 0x32D153FF" by code_simp
  have "length (concat [[97], [98, 99 :: u8]]) < 2 ^ 64" by simp
  from xxh32_stream_eq_oneshot [OF this, of 0] v show ?thesis by auto
qed

text \<open>C17. XXH64: a stream that is reset with a seed and fed the input in any chunks gives the hash that
  the one-shot function gives for the concatenation of the chunks, for inputs whose length fits a 64-bit
  count; neither aborts or reads outside its input.\<close>

theorem xxh64_stream_eq_oneshot:
  assumes "length (concat chunks) < 2 ^ 64"
  shows "\<exists>st h. updates XXH64_update (XXH64_reset seed) chunks = Some st \<and> XXH64_digest st = Some h \<and> XXH64 (concat chunks) seed = Some h"
  using x64.stream_eq_oneshot [OF assms, of seed] by (auto simp: XXH64_def endian_align64)

theorem xxh64_stream_eq_oneshot_witness:
  "\<exists>st. updates XXH64_update (XXH64_reset 0) [[97], [98, 99]] = Some st \<and> XXH64_digest st = Some 0x44BC2CF5AD770999"
proof -
  have v: "XXH64 (concat [[97], [98, 99]]) 0 = Some 0x44BC2CF5AD770999" by code_simp
  have "length (concat [[97], [98, 99 :: u8]]) < 2 ^ 64" by simp
  from xxh64_stream_eq_oneshot [OF this, of 0] v show ?thesis by auto
qed

end
