(* ===== verification/Xxh3.thy ===== *)
theory Xxh3
  imports Xxh_Classic
begin

text \<open>
  The one-shot functions of XXH3, with 64 and 128 bits, of \<^verbatim>\<open>src/cpp-util/xxhash.h\<close>: the scalar code path, without a
  secret, with a secret, with a seed, and with both. The accumulators are a list of eight words. Functions take the
  region of the input and the number of bytes to hash, as the code does; the little endian writes are those of a little
  endian CPU, which \<open>writeLE64_window\<close> shows to be the same on any.
\<close>

unbundle bit_operations_syntax

section \<open>Mixing\<close>

definition XXH3_kSecret :: bytes where
  "XXH3_kSecret = [
     0xb8, 0xfe, 0x6c, 0x39, 0x23, 0xa4, 0x4b, 0xbe, 0x7c, 0x01, 0x81, 0x2c, 0xf7, 0x21, 0xad, 0x1c,
     0xde, 0xd4, 0x6d, 0xe9, 0x83, 0x90, 0x97, 0xdb, 0x72, 0x40, 0xa4, 0xa4, 0xb7, 0xb3, 0x67, 0x1f,
     0xcb, 0x79, 0xe6, 0x4e, 0xcc, 0xc0, 0xe5, 0x78, 0x82, 0x5a, 0xd0, 0x7d, 0xcc, 0xff, 0x72, 0x21,
     0xb8, 0x08, 0x46, 0x74, 0xf7, 0x43, 0x24, 0x8e, 0xe0, 0x35, 0x90, 0xe6, 0x81, 0x3a, 0x26, 0x4c,
     0x3c, 0x28, 0x52, 0xbb, 0x91, 0xc3, 0x00, 0xcb, 0x88, 0xd0, 0x65, 0x8b, 0x1b, 0x53, 0x2e, 0xa3,
     0x71, 0x64, 0x48, 0x97, 0xa2, 0x0d, 0xf9, 0x4e, 0x38, 0x19, 0xef, 0x46, 0xa9, 0xde, 0xac, 0xd8,
     0xa8, 0xfa, 0x76, 0x3f, 0xe3, 0x9c, 0x34, 0x3f, 0xf9, 0xdc, 0xbb, 0xc7, 0xc7, 0x0b, 0x4f, 0x1d,
     0x8a, 0x51, 0xe0, 0x4b, 0xcd, 0xb4, 0x59, 0x31, 0xc8, 0x9f, 0x7e, 0xc9, 0xd9, 0x78, 0x73, 0x64,
     0xea, 0xc5, 0xac, 0x83, 0x34, 0xd3, 0xeb, 0xc3, 0xc5, 0x81, 0xa0, 0xff, 0xfa, 0x13, 0x63, 0xeb,
     0x17, 0x0d, 0xdd, 0x51, 0xb7, 0xf0, 0xda, 0x49, 0xd3, 0x16, 0x55, 0x26, 0x29, 0xd4, 0x68, 0x9e,
     0x2b, 0x16, 0xbe, 0x58, 0x7d, 0x47, 0xa1, 0xfc, 0x8f, 0xf8, 0xb8, 0xd1, 0x7a, 0xd0, 0x31, 0xce,
     0x45, 0xcb, 0x3a, 0x8f, 0x95, 0x16, 0x04, 0x28, 0xaf, 0xd7, 0xfb, 0xca, 0xbb, 0x4b, 0x40, 0x7e]"

definition XXH_xorshift64 :: "u64 \<Rightarrow> nat \<Rightarrow> u64" where
  "XXH_xorshift64 v shift = v XOR drop_bit shift v"

definition XXH3_avalanche :: "u64 \<Rightarrow> u64" where
  "XXH3_avalanche h64 = XXH_xorshift64 (XXH_xorshift64 h64 37 * 0x165667919E3779F9) 32"

definition XXH3_rrmxmx :: "u64 \<Rightarrow> u64 \<Rightarrow> u64" where
  "XXH3_rrmxmx h64 len =
     (let h64 = h64 XOR (XXH_rotl64 h64 49 XOR XXH_rotl64 h64 24);
          h64 = h64 * 0x9FB21C651E98DF25;
          h64 = h64 XOR (drop_bit 35 h64 + len);
          h64 = h64 * 0x9FB21C651E98DF25
      in XXH_xorshift64 h64 28)"

definition XXH3_mix16B :: "bytes \<Rightarrow> nat \<Rightarrow> bytes \<Rightarrow> nat \<Rightarrow> u64 \<Rightarrow> u64 option" where
  "XXH3_mix16B input i secret s seed64 = do {
     input_lo \<leftarrow> XXH_readLE64 input i;
     input_hi \<leftarrow> XXH_readLE64 input (i + 8);
     s_lo \<leftarrow> XXH_readLE64 secret s;
     s_hi \<leftarrow> XXH_readLE64 secret (s + 8);
     Some (XXH3_mul128_fold64 (input_lo XOR (s_lo + seed64)) (input_hi XOR (s_hi - seed64))) }"

section \<open>Short inputs, 64 bits\<close>

definition XXH3_len_1to3_64b :: "bytes \<Rightarrow> nat \<Rightarrow> bytes \<Rightarrow> u64 \<Rightarrow> u64 option" where
  "XXH3_len_1to3_64b input len secret seed = do {
     assert (1 \<le> len \<and> len \<le> 3);
     c1 \<leftarrow> rd input 0;
     c2 \<leftarrow> rd input (len div 2);
     c3 \<leftarrow> rd input (len - 1);
     let combined = (push_bit 16 (ucast c1) OR push_bit 24 (ucast c2) OR ucast c3 OR push_bit 8 (of_nat len) :: u32);
     s0 \<leftarrow> XXH_readLE32 secret 0;
     s1 \<leftarrow> XXH_readLE32 secret 4;
     let bitflip = ucast (s0 XOR s1) + seed;
     let keyed = ucast combined XOR bitflip;
     Some (XXH64_avalanche keyed) }"

definition XXH3_len_4to8_64b :: "bytes \<Rightarrow> nat \<Rightarrow> bytes \<Rightarrow> u64 \<Rightarrow> u64 option" where
  "XXH3_len_4to8_64b input len secret seed = do {
     assert (4 \<le> len \<and> len \<le> 8);
     let seed = seed XOR push_bit 32 (ucast (XXH_swap32 (ucast seed)));
     input1 \<leftarrow> XXH_readLE32 input 0;
     input2 \<leftarrow> XXH_readLE32 input (len - 4);
     s0 \<leftarrow> XXH_readLE64 secret 8;
     s1 \<leftarrow> XXH_readLE64 secret 16;
     let bitflip = (s0 XOR s1) - seed;
     let input64 = ucast input2 + push_bit 32 (ucast input1);
     let keyed = input64 XOR bitflip;
     Some (XXH3_rrmxmx keyed (of_nat len)) }"

definition XXH3_len_9to16_64b :: "bytes \<Rightarrow> nat \<Rightarrow> bytes \<Rightarrow> u64 \<Rightarrow> u64 option" where
  "XXH3_len_9to16_64b input len secret seed = do {
     assert (9 \<le> len \<and> len \<le> 16);
     s0 \<leftarrow> XXH_readLE64 secret 24;
     s1 \<leftarrow> XXH_readLE64 secret 32;
     let bitflip1 = (s0 XOR s1) + seed;
     s2 \<leftarrow> XXH_readLE64 secret 40;
     s3 \<leftarrow> XXH_readLE64 secret 48;
     let bitflip2 = (s2 XOR s3) - seed;
     lo \<leftarrow> XXH_readLE64 input 0;
     let input_lo = lo XOR bitflip1;
     hi \<leftarrow> XXH_readLE64 input (len - 8);
     let input_hi = hi XOR bitflip2;
     let acc = of_nat len + XXH_swap64 input_lo + input_hi + XXH3_mul128_fold64 input_lo input_hi;
     Some (XXH3_avalanche acc) }"

definition XXH3_len_0to16_64b :: "bytes \<Rightarrow> nat \<Rightarrow> bytes \<Rightarrow> u64 \<Rightarrow> u64 option" where
  "XXH3_len_0to16_64b input len secret seed = do {
     assert (len \<le> 16);
     if 8 < len then XXH3_len_9to16_64b input len secret seed
     else if 4 \<le> len then XXH3_len_4to8_64b input len secret seed
     else if len \<noteq> 0 then XXH3_len_1to3_64b input len secret seed
     else do {
       s0 \<leftarrow> XXH_readLE64 secret 56;
       s1 \<leftarrow> XXH_readLE64 secret 64;
       Some (XXH64_avalanche (seed XOR (s0 XOR s1))) } }"

definition XXH3_len_17to128_64b :: "bytes \<Rightarrow> nat \<Rightarrow> bytes \<Rightarrow> nat \<Rightarrow> u64 \<Rightarrow> u64 option" where
  "XXH3_len_17to128_64b input len secret secretSize seed = do {
     assert (136 \<le> secretSize);
     assert (16 < len \<and> len \<le> 128);
     let acc = of_nat len * XXH_PRIME64_1;
     m \<leftarrow> XXH3_mix16B input 0 secret 0 seed;
     let acc = acc + m;
     acc_end \<leftarrow> XXH3_mix16B input (len - 16) secret 16 seed;
     (acc, acc_end) \<leftarrow> (if 32 < len then do {
         m \<leftarrow> XXH3_mix16B input 16 secret 32 seed;
         let acc = acc + m;
         m \<leftarrow> XXH3_mix16B input (len - 32) secret 48 seed;
         let acc_end = acc_end + m;
         if 64 < len then do {
           m \<leftarrow> XXH3_mix16B input 32 secret 64 seed;
           let acc = acc + m;
           m \<leftarrow> XXH3_mix16B input (len - 48) secret 80 seed;
           let acc_end = acc_end + m;
           if 96 < len then do {
             m \<leftarrow> XXH3_mix16B input 48 secret 96 seed;
             let acc = acc + m;
             m \<leftarrow> XXH3_mix16B input (len - 64) secret 112 seed;
             Some (acc, acc_end + m) }
           else Some (acc, acc_end) }
         else Some (acc, acc_end) }
       else Some (acc, acc_end));
     Some (XXH3_avalanche (acc + acc_end)) }"

text \<open>The variant for small code, \<^verbatim>\<open>XXH_SIZE_OPT >= 1\<close>: one loop, from the last round down.\<close>

fun XXH3_mix_down :: "bytes \<Rightarrow> nat \<Rightarrow> bytes \<Rightarrow> u64 \<Rightarrow> nat \<Rightarrow> u64 \<Rightarrow> u64 option" where
  "XXH3_mix_down input len secret seed i acc = do {
     m \<leftarrow> XXH3_mix16B input (16 * i) secret (32 * i) seed;
     let acc = acc + m;
     m \<leftarrow> XXH3_mix16B input (len - 16 * (i + 1)) secret (32 * i + 16) seed;
     let acc = acc + m;
     (case i of 0 \<Rightarrow> Some acc | Suc i \<Rightarrow> XXH3_mix_down input len secret seed i acc) }"

declare XXH3_mix_down.simps [simp del]

definition XXH3_len_17to128_64b_small :: "bytes \<Rightarrow> nat \<Rightarrow> bytes \<Rightarrow> nat \<Rightarrow> u64 \<Rightarrow> u64 option" where
  "XXH3_len_17to128_64b_small input len secret secretSize seed = do {
     assert (136 \<le> secretSize);
     assert (16 < len \<and> len \<le> 128);
     acc \<leftarrow> XXH3_mix_down input len secret seed ((len - 1) div 32) (of_nat len * XXH_PRIME64_1);
     Some (XXH3_avalanche (acc + 0)) }"

definition XXH3_len_129to240_64b :: "bytes \<Rightarrow> nat \<Rightarrow> bytes \<Rightarrow> nat \<Rightarrow> u64 \<Rightarrow> u64 option" where
  "XXH3_len_129to240_64b input len secret secretSize seed = do {
     assert (136 \<le> secretSize);
     assert (128 < len \<and> len \<le> 240);
     let nbRounds = len div 16;
     acc \<leftarrow> for_each (\<lambda>acc i. do { m \<leftarrow> XXH3_mix16B input (16 * i) secret (16 * i) seed; Some (acc + m) })
       [0..<8] (of_nat len * XXH_PRIME64_1);
     acc_end \<leftarrow> XXH3_mix16B input (len - 16) secret (136 - 17) seed;
     assert (8 \<le> nbRounds);
     let acc = XXH3_avalanche acc;
     acc_end \<leftarrow> for_each (\<lambda>acc_end i. do { m \<leftarrow> XXH3_mix16B input (16 * i) secret (16 * (i - 8) + 3) seed; Some (acc_end + m) })
       [8..<nbRounds] acc_end;
     Some (XXH3_avalanche (acc + acc_end)) }"

section \<open>Long inputs\<close>

definition XXH3_scalarRound :: "u64 list \<Rightarrow> bytes \<Rightarrow> nat \<Rightarrow> bytes \<Rightarrow> nat \<Rightarrow> nat \<Rightarrow> u64 list option" where
  "XXH3_scalarRound acc input i secret s lane = do {
     assert (lane < 8);
     data_val \<leftarrow> XXH_readLE64 input (i + lane * 8);
     key \<leftarrow> XXH_readLE64 secret (s + lane * 8);
     let data_key = data_val XOR key;
     a \<leftarrow> rd acc (lane XOR 1);
     acc \<leftarrow> wr acc (lane XOR 1) (a + data_val);
     a \<leftarrow> rd acc lane;
     wr acc lane (a + XXH_mult32to64 (data_key AND 0xFFFFFFFF) (drop_bit 32 data_key)) }"

definition XXH3_accumulate_512 :: "u64 list \<Rightarrow> bytes \<Rightarrow> nat \<Rightarrow> bytes \<Rightarrow> nat \<Rightarrow> u64 list option" where
  "XXH3_accumulate_512 acc input i secret s = for_each (\<lambda>acc lane. XXH3_scalarRound acc input i secret s lane) [0..<8] acc"

definition XXH3_accumulate :: "u64 list \<Rightarrow> bytes \<Rightarrow> nat \<Rightarrow> bytes \<Rightarrow> nat \<Rightarrow> nat \<Rightarrow> u64 list option" where
  "XXH3_accumulate acc input i secret s nbStripes =
     for_each (\<lambda>acc n. XXH3_accumulate_512 acc input (i + n * 64) secret (s + n * 8)) [0..<nbStripes] acc"

definition XXH3_scalarScrambleRound :: "u64 list \<Rightarrow> bytes \<Rightarrow> nat \<Rightarrow> nat \<Rightarrow> u64 list option" where
  "XXH3_scalarScrambleRound acc secret s lane = do {
     assert (lane < 8);
     key64 \<leftarrow> XXH_readLE64 secret (s + lane * 8);
     acc64 \<leftarrow> rd acc lane;
     let acc64 = XXH_xorshift64 acc64 47;
     let acc64 = acc64 XOR key64;
     let acc64 = acc64 * ucast XXH_PRIME32_1;
     wr acc lane acc64 }"

definition XXH3_scrambleAcc :: "u64 list \<Rightarrow> bytes \<Rightarrow> nat \<Rightarrow> u64 list option" where
  "XXH3_scrambleAcc acc secret s = for_each (\<lambda>acc lane. XXH3_scalarScrambleRound acc secret s lane) [0..<8] acc"

definition XXH3_initCustomSecret :: "bytes \<Rightarrow> u64 \<Rightarrow> bytes option" where
  "XXH3_initCustomSecret customSecret seed64 =
     for_each (\<lambda>customSecret i. do {
        lo \<leftarrow> XXH_readLE64 XXH3_kSecret (16 * i);
        let lo = lo + seed64;
        hi \<leftarrow> XXH_readLE64 XXH3_kSecret (16 * i + 8);
        let hi = hi - seed64;
        customSecret \<leftarrow> XXH_writeLE64 True customSecret (16 * i) lo;
        XXH_writeLE64 True customSecret (16 * i + 8) hi }) [0..<12] customSecret"

definition XXH3_hashLong_internal_loop :: "u64 list \<Rightarrow> bytes \<Rightarrow> nat \<Rightarrow> bytes \<Rightarrow> nat \<Rightarrow> u64 list option" where
  "XXH3_hashLong_internal_loop acc input len secret secretSize = do {
     let nbStripesPerBlock = (secretSize - 64) div 8;
     let block_len = 64 * nbStripesPerBlock;
     let nb_blocks = (len - 1) div block_len;
     assert (136 \<le> secretSize);
     acc \<leftarrow> for_each (\<lambda>acc n. do {
         acc \<leftarrow> XXH3_accumulate acc input (n * block_len) secret 0 nbStripesPerBlock;
         XXH3_scrambleAcc acc secret (secretSize - 64) }) [0..<nb_blocks] acc;
     assert (64 < len);
     let nbStripes = ((len - 1) - block_len * nb_blocks) div 64;
     assert (nbStripes \<le> secretSize div 8);
     acc \<leftarrow> XXH3_accumulate acc input (nb_blocks * block_len) secret 0 nbStripes;
     XXH3_accumulate_512 acc input (len - 64) secret (secretSize - 64 - 7) }"

definition XXH3_mix2Accs :: "u64 list \<Rightarrow> nat \<Rightarrow> bytes \<Rightarrow> nat \<Rightarrow> u64 option" where
  "XXH3_mix2Accs acc a secret s = do {
     a0 \<leftarrow> rd acc a;
     s0 \<leftarrow> XXH_readLE64 secret s;
     a1 \<leftarrow> rd acc (a + 1);
     s1 \<leftarrow> XXH_readLE64 secret (s + 8);
     Some (XXH3_mul128_fold64 (a0 XOR s0) (a1 XOR s1)) }"

definition XXH3_mergeAccs :: "u64 list \<Rightarrow> bytes \<Rightarrow> nat \<Rightarrow> u64 \<Rightarrow> u64 option" where
  "XXH3_mergeAccs acc secret s start = do {
     result64 \<leftarrow> for_each (\<lambda>result64 i. do { m \<leftarrow> XXH3_mix2Accs acc (2 * i) secret (s + 16 * i); Some (result64 + m) }) [0..<4] start;
     Some (XXH3_avalanche result64) }"

definition XXH3_INIT_ACC :: "u64 list" where
  "XXH3_INIT_ACC = [ucast XXH_PRIME32_3, XXH_PRIME64_1, XXH_PRIME64_2, XXH_PRIME64_3,
     XXH_PRIME64_4, ucast XXH_PRIME32_2, XXH_PRIME64_5, ucast XXH_PRIME32_1]"

section \<open>The 64-bit functions\<close>

definition XXH3_hashLong_64b_internal :: "bytes \<Rightarrow> nat \<Rightarrow> bytes \<Rightarrow> nat \<Rightarrow> u64 option" where
  "XXH3_hashLong_64b_internal input len secret secretSize = do {
     acc \<leftarrow> XXH3_hashLong_internal_loop XXH3_INIT_ACC input len secret secretSize;
     assert (64 + 11 \<le> secretSize);
     XXH3_mergeAccs acc secret 11 (of_nat len * XXH_PRIME64_1) }"

definition XXH3_hashLong_64b_withSecret :: "bytes \<Rightarrow> nat \<Rightarrow> u64 \<Rightarrow> bytes \<Rightarrow> nat \<Rightarrow> u64 option" where
  "XXH3_hashLong_64b_withSecret input len seed64 secret secretLen = XXH3_hashLong_64b_internal input len secret secretLen"

definition XXH3_hashLong_64b_default :: "bytes \<Rightarrow> nat \<Rightarrow> u64 \<Rightarrow> bytes \<Rightarrow> nat \<Rightarrow> u64 option" where
  "XXH3_hashLong_64b_default input len seed64 secret secretLen = XXH3_hashLong_64b_internal input len XXH3_kSecret (length XXH3_kSecret)"

definition XXH3_hashLong_64b_withSeed_internal :: "bytes \<Rightarrow> nat \<Rightarrow> u64 \<Rightarrow> u64 option" where
  "XXH3_hashLong_64b_withSeed_internal input len seed =
     (if seed = 0 then XXH3_hashLong_64b_internal input len XXH3_kSecret (length XXH3_kSecret)
      else do {
        secret \<leftarrow> XXH3_initCustomSecret (replicate 192 0) seed;
        XXH3_hashLong_64b_internal input len secret (length secret) })"

definition XXH3_hashLong_64b_withSeed :: "bytes \<Rightarrow> nat \<Rightarrow> u64 \<Rightarrow> bytes \<Rightarrow> nat \<Rightarrow> u64 option" where
  "XXH3_hashLong_64b_withSeed input len seed secret secretLen = XXH3_hashLong_64b_withSeed_internal input len seed"

definition XXH3_64bits_internal ::
  "bytes \<Rightarrow> nat \<Rightarrow> u64 \<Rightarrow> bytes \<Rightarrow> nat \<Rightarrow> (bytes \<Rightarrow> nat \<Rightarrow> u64 \<Rightarrow> bytes \<Rightarrow> nat \<Rightarrow> u64 option) \<Rightarrow> u64 option" where
  "XXH3_64bits_internal input len seed64 secret secretLen f_hashLong = do {
     assert (136 \<le> secretLen);
     if len \<le> 16 then XXH3_len_0to16_64b input len secret seed64
     else if len \<le> 128 then XXH3_len_17to128_64b input len secret secretLen seed64
     else if len \<le> 240 then XXH3_len_129to240_64b input len secret secretLen seed64
     else f_hashLong input len seed64 secret secretLen }"

definition XXH3_64bits :: "bytes \<Rightarrow> nat \<Rightarrow> u64 option" where
  "XXH3_64bits input len = XXH3_64bits_internal input len 0 XXH3_kSecret (length XXH3_kSecret) XXH3_hashLong_64b_default"

definition XXH3_64bits_withSecret :: "bytes \<Rightarrow> nat \<Rightarrow> bytes \<Rightarrow> nat \<Rightarrow> u64 option" where
  "XXH3_64bits_withSecret input len secret secretSize = XXH3_64bits_internal input len 0 secret secretSize XXH3_hashLong_64b_withSecret"

definition XXH3_64bits_withSeed :: "bytes \<Rightarrow> nat \<Rightarrow> u64 \<Rightarrow> u64 option" where
  "XXH3_64bits_withSeed input len seed = XXH3_64bits_internal input len seed XXH3_kSecret (length XXH3_kSecret) XXH3_hashLong_64b_withSeed"

text \<open>The null function pointer of \<^verbatim>\<open>XXH3_64bits_withSecretandSeed\<close> aborts when it is called.\<close>

definition XXH3_64bits_withSecretandSeed :: "bytes \<Rightarrow> nat \<Rightarrow> bytes \<Rightarrow> nat \<Rightarrow> u64 \<Rightarrow> u64 option" where
  "XXH3_64bits_withSecretandSeed input len secret secretSize seed =
     (if len \<le> 240 then XXH3_64bits_internal input len seed XXH3_kSecret (length XXH3_kSecret) (\<lambda>_ _ _ _ _. None)
      else XXH3_hashLong_64b_withSecret input len seed secret secretSize)"

section \<open>The 128-bit functions\<close>

definition XXH3_len_1to3_128b :: "bytes \<Rightarrow> nat \<Rightarrow> bytes \<Rightarrow> u64 \<Rightarrow> XXH128_hash_t option" where
  "XXH3_len_1to3_128b input len secret seed = do {
     assert (1 \<le> len \<and> len \<le> 3);
     c1 \<leftarrow> rd input 0;
     c2 \<leftarrow> rd input (len div 2);
     c3 \<leftarrow> rd input (len - 1);
     let combinedl = (push_bit 16 (ucast c1) OR push_bit 24 (ucast c2) OR ucast c3 OR push_bit 8 (of_nat len) :: u32);
     let combinedh = XXH_rotl32 (XXH_swap32 combinedl) 13;
     s0 \<leftarrow> XXH_readLE32 secret 0;
     s1 \<leftarrow> XXH_readLE32 secret 4;
     let bitflipl = ucast (s0 XOR s1) + seed;
     s2 \<leftarrow> XXH_readLE32 secret 8;
     s3 \<leftarrow> XXH_readLE32 secret 12;
     let bitfliph = ucast (s2 XOR s3) - seed;
     let keyed_lo = ucast combinedl XOR bitflipl;
     let keyed_hi = ucast combinedh XOR bitfliph;
     Some \<lparr>low64 = XXH64_avalanche keyed_lo, high64 = XXH64_avalanche keyed_hi\<rparr> }"

definition XXH3_len_4to8_128b :: "bytes \<Rightarrow> nat \<Rightarrow> bytes \<Rightarrow> u64 \<Rightarrow> XXH128_hash_t option" where
  "XXH3_len_4to8_128b input len secret seed = do {
     assert (4 \<le> len \<and> len \<le> 8);
     let seed = seed XOR push_bit 32 (ucast (XXH_swap32 (ucast seed)));
     input_lo \<leftarrow> XXH_readLE32 input 0;
     input_hi \<leftarrow> XXH_readLE32 input (len - 4);
     let input_64 = ucast input_lo + push_bit 32 (ucast input_hi);
     s0 \<leftarrow> XXH_readLE64 secret 16;
     s1 \<leftarrow> XXH_readLE64 secret 24;
     let bitflip = (s0 XOR s1) + seed;
     let keyed = input_64 XOR bitflip;
     let m128 = XXH_mult64to128 keyed (XXH_PRIME64_1 + of_nat (len * 4));
     let m128 = m128\<lparr>high64 := high64 m128 + push_bit 1 (low64 m128)\<rparr>;
     let m128 = m128\<lparr>low64 := low64 m128 XOR drop_bit 3 (high64 m128)\<rparr>;
     let m128 = m128\<lparr>low64 := XXH_xorshift64 (low64 m128) 35\<rparr>;
     let m128 = m128\<lparr>low64 := low64 m128 * 0x9FB21C651E98DF25\<rparr>;
     let m128 = m128\<lparr>low64 := XXH_xorshift64 (low64 m128) 28\<rparr>;
     Some (m128\<lparr>high64 := XXH3_avalanche (high64 m128)\<rparr>) }"

text \<open>The addition to the high half has a variant for 32-bit targets.\<close>

definition XXH3_add_hi :: "bool \<Rightarrow> u64 \<Rightarrow> u64" where
  "XXH3_add_hi is32 input_hi =
     (if is32 then (input_hi AND 0xFFFFFFFF00000000) + XXH_mult32to64 (ucast (ucast input_hi :: u32)) (ucast XXH_PRIME32_2)
      else input_hi + XXH_mult32to64 (ucast (ucast input_hi :: u32)) (ucast (XXH_PRIME32_2 - 1)))"

definition XXH3_len_9to16_128b :: "bool \<Rightarrow> bytes \<Rightarrow> nat \<Rightarrow> bytes \<Rightarrow> u64 \<Rightarrow> XXH128_hash_t option" where
  "XXH3_len_9to16_128b is32 input len secret seed = do {
     assert (9 \<le> len \<and> len \<le> 16);
     s0 \<leftarrow> XXH_readLE64 secret 32;
     s1 \<leftarrow> XXH_readLE64 secret 40;
     let bitflipl = (s0 XOR s1) - seed;
     s2 \<leftarrow> XXH_readLE64 secret 48;
     s3 \<leftarrow> XXH_readLE64 secret 56;
     let bitfliph = (s2 XOR s3) + seed;
     input_lo \<leftarrow> XXH_readLE64 input 0;
     input_hi \<leftarrow> XXH_readLE64 input (len - 8);
     let m128 = XXH_mult64to128 (input_lo XOR input_hi XOR bitflipl) XXH_PRIME64_1;
     let m128 = m128\<lparr>low64 := low64 m128 + push_bit 54 (of_nat (len - 1))\<rparr>;
     let input_hi = input_hi XOR bitfliph;
     let m128 = m128\<lparr>high64 := high64 m128 + XXH3_add_hi is32 input_hi\<rparr>;
     let m128 = m128\<lparr>low64 := low64 m128 XOR XXH_swap64 (high64 m128)\<rparr>;
     let h128 = XXH_mult64to128 (low64 m128) XXH_PRIME64_2;
     let h128 = h128\<lparr>high64 := high64 h128 + high64 m128 * XXH_PRIME64_2\<rparr>;
     Some \<lparr>low64 = XXH3_avalanche (low64 h128), high64 = XXH3_avalanche (high64 h128)\<rparr> }"

definition XXH3_len_0to16_128b :: "bytes \<Rightarrow> nat \<Rightarrow> bytes \<Rightarrow> u64 \<Rightarrow> XXH128_hash_t option" where
  "XXH3_len_0to16_128b input len secret seed = do {
     assert (len \<le> 16);
     if 8 < len then XXH3_len_9to16_128b False input len secret seed
     else if 4 \<le> len then XXH3_len_4to8_128b input len secret seed
     else if len \<noteq> 0 then XXH3_len_1to3_128b input len secret seed
     else do {
       s0 \<leftarrow> XXH_readLE64 secret 64;
       s1 \<leftarrow> XXH_readLE64 secret 72;
       s2 \<leftarrow> XXH_readLE64 secret 80;
       s3 \<leftarrow> XXH_readLE64 secret 88;
       Some \<lparr>low64 = XXH64_avalanche (seed XOR (s0 XOR s1)), high64 = XXH64_avalanche (seed XOR (s2 XOR s3))\<rparr> } }"

definition XXH128_mix32B :: "XXH128_hash_t \<Rightarrow> bytes \<Rightarrow> nat \<Rightarrow> nat \<Rightarrow> bytes \<Rightarrow> nat \<Rightarrow> u64 \<Rightarrow> XXH128_hash_t option" where
  "XXH128_mix32B acc input i1 i2 secret s seed = do {
     m \<leftarrow> XXH3_mix16B input i1 secret s seed;
     let acc = acc\<lparr>low64 := low64 acc + m\<rparr>;
     a \<leftarrow> XXH_readLE64 input i2;
     b \<leftarrow> XXH_readLE64 input (i2 + 8);
     let acc = acc\<lparr>low64 := low64 acc XOR (a + b)\<rparr>;
     m \<leftarrow> XXH3_mix16B input i2 secret (s + 16) seed;
     let acc = acc\<lparr>high64 := high64 acc + m\<rparr>;
     a \<leftarrow> XXH_readLE64 input i1;
     b \<leftarrow> XXH_readLE64 input (i1 + 8);
     Some (acc\<lparr>high64 := high64 acc XOR (a + b)\<rparr>) }"

definition XXH3_finish_128b :: "XXH128_hash_t \<Rightarrow> nat \<Rightarrow> u64 \<Rightarrow> XXH128_hash_t" where
  "XXH3_finish_128b acc len seed =
     (let h_low = low64 acc + high64 acc;
          h_high = (low64 acc * XXH_PRIME64_1) + (high64 acc * XXH_PRIME64_4) + ((of_nat len - seed) * XXH_PRIME64_2)
      in \<lparr>low64 = XXH3_avalanche h_low, high64 = 0 - XXH3_avalanche h_high\<rparr>)"

definition XXH3_len_17to128_128b :: "bytes \<Rightarrow> nat \<Rightarrow> bytes \<Rightarrow> nat \<Rightarrow> u64 \<Rightarrow> XXH128_hash_t option" where
  "XXH3_len_17to128_128b input len secret secretSize seed = do {
     assert (136 \<le> secretSize);
     assert (16 < len \<and> len \<le> 128);
     let acc = \<lparr>low64 = of_nat len * XXH_PRIME64_1, high64 = 0\<rparr>;
     acc \<leftarrow> (if 32 < len then do {
         acc \<leftarrow> (if 64 < len then do {
             acc \<leftarrow> (if 96 < len then XXH128_mix32B acc input 48 (len - 64) secret 96 seed else Some acc);
             XXH128_mix32B acc input 32 (len - 48) secret 64 seed }
           else Some acc);
         XXH128_mix32B acc input 16 (len - 32) secret 32 seed }
       else Some acc);
     acc \<leftarrow> XXH128_mix32B acc input 0 (len - 16) secret 0 seed;
     Some (XXH3_finish_128b acc len seed) }"

fun XXH128_mix_down :: "bytes \<Rightarrow> nat \<Rightarrow> bytes \<Rightarrow> u64 \<Rightarrow> nat \<Rightarrow> XXH128_hash_t \<Rightarrow> XXH128_hash_t option" where
  "XXH128_mix_down input len secret seed i acc = do {
     acc \<leftarrow> XXH128_mix32B acc input (16 * i) (len - 16 * (i + 1)) secret (32 * i) seed;
     (case i of 0 \<Rightarrow> Some acc | Suc i \<Rightarrow> XXH128_mix_down input len secret seed i acc) }"

declare XXH128_mix_down.simps [simp del]

definition XXH3_len_17to128_128b_small :: "bytes \<Rightarrow> nat \<Rightarrow> bytes \<Rightarrow> nat \<Rightarrow> u64 \<Rightarrow> XXH128_hash_t option" where
  "XXH3_len_17to128_128b_small input len secret secretSize seed = do {
     assert (136 \<le> secretSize);
     assert (16 < len \<and> len \<le> 128);
     acc \<leftarrow> XXH128_mix_down input len secret seed ((len - 1) div 32) \<lparr>low64 = of_nat len * XXH_PRIME64_1, high64 = 0\<rparr>;
     Some (XXH3_finish_128b acc len seed) }"

text \<open>The counters of the two loops of the middle range are the multiples of 32 below 160, and from 160 up to the length.\<close>

definition XXH3_len_129to240_128b :: "bytes \<Rightarrow> nat \<Rightarrow> bytes \<Rightarrow> nat \<Rightarrow> u64 \<Rightarrow> XXH128_hash_t option" where
  "XXH3_len_129to240_128b input len secret secretSize seed = do {
     assert (136 \<le> secretSize);
     assert (128 < len \<and> len \<le> 240);
     let acc = \<lparr>low64 = of_nat len * XXH_PRIME64_1, high64 = 0\<rparr>;
     acc \<leftarrow> for_each (\<lambda>acc i. XXH128_mix32B acc input (i - 32) (i - 16) secret (i - 32) seed) (map ((*) 32) [1..<5]) acc;
     let acc = \<lparr>low64 = XXH3_avalanche (low64 acc), high64 = XXH3_avalanche (high64 acc)\<rparr>;
     acc \<leftarrow> for_each (\<lambda>acc i. XXH128_mix32B acc input (i - 32) (i - 16) secret (3 + i - 160) seed)
       (map ((*) 32) [5..<len div 32 + 1]) acc;
     acc \<leftarrow> XXH128_mix32B acc input (len - 16) (len - 32) secret (136 - 17 - 16) (0 - seed);
     Some (XXH3_finish_128b acc len seed) }"

definition XXH3_hashLong_128b_internal :: "bytes \<Rightarrow> nat \<Rightarrow> bytes \<Rightarrow> nat \<Rightarrow> XXH128_hash_t option" where
  "XXH3_hashLong_128b_internal input len secret secretSize = do {
     acc \<leftarrow> XXH3_hashLong_internal_loop XXH3_INIT_ACC input len secret secretSize;
     assert (64 + 11 \<le> secretSize);
     l \<leftarrow> XXH3_mergeAccs acc secret 11 (of_nat len * XXH_PRIME64_1);
     h \<leftarrow> XXH3_mergeAccs acc secret (secretSize - 64 - 11) (NOT (of_nat len * XXH_PRIME64_2));
     Some \<lparr>low64 = l, high64 = h\<rparr> }"

definition XXH3_hashLong_128b_default :: "bytes \<Rightarrow> nat \<Rightarrow> u64 \<Rightarrow> bytes \<Rightarrow> nat \<Rightarrow> XXH128_hash_t option" where
  "XXH3_hashLong_128b_default input len seed64 secret secretLen = XXH3_hashLong_128b_internal input len XXH3_kSecret (length XXH3_kSecret)"

definition XXH3_hashLong_128b_withSecret :: "bytes \<Rightarrow> nat \<Rightarrow> u64 \<Rightarrow> bytes \<Rightarrow> nat \<Rightarrow> XXH128_hash_t option" where
  "XXH3_hashLong_128b_withSecret input len seed64 secret secretLen = XXH3_hashLong_128b_internal input len secret secretLen"

definition XXH3_hashLong_128b_withSeed_internal :: "bytes \<Rightarrow> nat \<Rightarrow> u64 \<Rightarrow> XXH128_hash_t option" where
  "XXH3_hashLong_128b_withSeed_internal input len seed64 =
     (if seed64 = 0 then XXH3_hashLong_128b_internal input len XXH3_kSecret (length XXH3_kSecret)
      else do {
        secret \<leftarrow> XXH3_initCustomSecret (replicate 192 0) seed64;
        XXH3_hashLong_128b_internal input len secret (length secret) })"

definition XXH3_hashLong_128b_withSeed :: "bytes \<Rightarrow> nat \<Rightarrow> u64 \<Rightarrow> bytes \<Rightarrow> nat \<Rightarrow> XXH128_hash_t option" where
  "XXH3_hashLong_128b_withSeed input len seed64 secret secretLen = XXH3_hashLong_128b_withSeed_internal input len seed64"

definition XXH3_128bits_internal ::
  "bytes \<Rightarrow> nat \<Rightarrow> u64 \<Rightarrow> bytes \<Rightarrow> nat \<Rightarrow> (bytes \<Rightarrow> nat \<Rightarrow> u64 \<Rightarrow> bytes \<Rightarrow> nat \<Rightarrow> XXH128_hash_t option) \<Rightarrow> XXH128_hash_t option" where
  "XXH3_128bits_internal input len seed64 secret secretLen f_hl128 = do {
     assert (136 \<le> secretLen);
     if len \<le> 16 then XXH3_len_0to16_128b input len secret seed64
     else if len \<le> 128 then XXH3_len_17to128_128b input len secret secretLen seed64
     else if len \<le> 240 then XXH3_len_129to240_128b input len secret secretLen seed64
     else f_hl128 input len seed64 secret secretLen }"

definition XXH3_128bits :: "bytes \<Rightarrow> nat \<Rightarrow> XXH128_hash_t option" where
  "XXH3_128bits input len = XXH3_128bits_internal input len 0 XXH3_kSecret (length XXH3_kSecret) XXH3_hashLong_128b_default"

definition XXH3_128bits_withSecret :: "bytes \<Rightarrow> nat \<Rightarrow> bytes \<Rightarrow> nat \<Rightarrow> XXH128_hash_t option" where
  "XXH3_128bits_withSecret input len secret secretSize = XXH3_128bits_internal input len 0 secret secretSize XXH3_hashLong_128b_withSecret"

definition XXH3_128bits_withSeed :: "bytes \<Rightarrow> nat \<Rightarrow> u64 \<Rightarrow> XXH128_hash_t option" where
  "XXH3_128bits_withSeed input len seed = XXH3_128bits_internal input len seed XXH3_kSecret (length XXH3_kSecret) XXH3_hashLong_128b_withSeed"

definition XXH3_128bits_withSecretandSeed :: "bytes \<Rightarrow> nat \<Rightarrow> bytes \<Rightarrow> nat \<Rightarrow> u64 \<Rightarrow> XXH128_hash_t option" where
  "XXH3_128bits_withSecretandSeed input len secret secretSize seed =
     (if len \<le> 240 then XXH3_128bits_internal input len seed XXH3_kSecret (length XXH3_kSecret) (\<lambda>_ _ _ _ _. None)
      else XXH3_hashLong_128b_withSecret input len seed secret secretSize)"

definition XXH128 :: "bytes \<Rightarrow> nat \<Rightarrow> u64 \<Rightarrow> XXH128_hash_t option" where
  "XXH128 input len seed = XXH3_128bits_withSeed input len seed"

end
