(* ===== verification/Xxh3_Long.thy ===== *)
theory Xxh3_Long
  imports Xxh3
begin

text \<open>
  Lemmas on the one-shot functions of XXH3: they return for every input when the secret has at least 136 bytes, they
  depend on nothing but the bytes to hash, and the accumulators of a long input are those of one pass over its stripes
  (\<open>stripes_acc\<close>), the reference that the streaming functions are compared with.
\<close>

unbundle bit_operations_syntax

section \<open>Loops\<close>

lemma for_each_cong: "(\<And>s i. i \<in> set ks \<Longrightarrow> f s i = g s i) \<Longrightarrow> for_each f ks s = for_each g ks s"
proof (induction ks arbitrary: s)
  case (Cons k ks)
  have "for_each f ks = for_each g ks" using Cons by (simp add: fun_eq_iff)
  then show ?case using Cons.prems [of k s] by simp
qed simp

lemma for_each_append: "for_each f (ks @ js) s = do { s \<leftarrow> for_each f ks s; for_each f js s }"
proof (induction ks arbitrary: s)
  case (Cons k ks)
  then have "for_each f (ks @ js) = (\<lambda>s. do { s \<leftarrow> for_each f ks s; for_each f js s })" by (simp add: fun_eq_iff)
  then show ?case by simp
qed simp

lemma for_each_upt: "for_each f [0..<Suc k] s = do { s \<leftarrow> for_each f [0..<k] s; f s k }"
proof -
  have "for_each f [] = Some" by (simp add: fun_eq_iff)
  then have "for_each f [k] = (\<lambda>s. f s k)" by (intro ext) simp
  then show ?thesis by (simp add: for_each_append)
qed

lemma for_each_inv:
  assumes "\<And>s i. i \<in> set ks \<Longrightarrow> P s \<Longrightarrow> \<exists>s'. f s i = Some s' \<and> P s'" "P s"
  shows "\<exists>s'. for_each f ks s = Some s' \<and> P s'"
  using assms
proof (induction ks arbitrary: s)
  case (Cons k ks)
  then obtain s1 where "f s k = Some s1" "P s1" by (metis list.set_intros(1))
  with Cons.IH [of s1] Cons.prems(1) show ?case by auto
qed simp

text \<open>Rules to show that a computation returns.\<close>

lemma returns_bind: "\<exists>x. m = Some x \<Longrightarrow> (\<And>x. \<exists>y. f x = Some y) \<Longrightarrow> \<exists>y. Option.bind m f = Some y"
  by auto

lemma returns_if: "(b \<Longrightarrow> \<exists>x. m = Some x) \<Longrightarrow> (\<not> b \<Longrightarrow> \<exists>x. n = Some x) \<Longrightarrow> \<exists>x. (if b then m else n) = Some x"
  by simp

lemma returns_case_prod: "(\<And>a b. \<exists>y. f a b = Some y) \<Longrightarrow> \<exists>y. (case z of (a, b) \<Rightarrow> f a b) = Some y"
  by (cases z) simp

lemma returns_assert: "b \<Longrightarrow> \<exists>x. assert b = Some x"
  by (simp add: assert_def)

lemma returns_Some: "\<exists>y. Some x = Some y"
  by simp

lemma returns_for_each: "(\<And>s i. i \<in> set ks \<Longrightarrow> \<exists>s'. f s i = Some s') \<Longrightarrow> \<exists>s'. for_each f ks s = Some s'"
  using for_each_inv [of ks "\<lambda>_. True" f s] by simp

lemmas returns = returns_bind returns_if returns_case_prod returns_assert returns_Some returns_for_each

section \<open>Accumulators\<close>

lemma xor_one_less: "(lane :: nat) < 8 \<Longrightarrow> lane XOR 1 < 8"
  by (drule less_cases(2)) (elim disjE; simp)

lemma read_window: "i + k + 8 \<le> length p \<Longrightarrow> k + 8 \<le> n \<Longrightarrow> i + n \<le> length p \<Longrightarrow>
    XXH_readLE64 p (i + k) = XXH_readLE64 (take n (drop i p)) k"
  by (simp add: readLE64_window drop_take min_def add.commute; linarith)

lemma accumulate_512_window:
  assumes "i + 64 \<le> length input" "s + 64 \<le> length secret"
  shows "XXH3_accumulate_512 acc input i secret s = XXH3_accumulate_512 acc (take 64 (drop i input)) 0 (take 64 (drop s secret)) 0"
  unfolding XXH3_accumulate_512_def
proof (rule for_each_cong)
  fix acc lane assume "lane \<in> set [0..<8]"
  then have l: "lane * 8 + 8 \<le> 64" "lane < 8" by auto
  then show "XXH3_scalarRound acc input i secret s lane = XXH3_scalarRound acc (take 64 (drop i input)) 0 (take 64 (drop s secret)) 0 lane"
    using assms read_window [of i "lane * 8" input 64] read_window [of s "lane * 8" secret 64] by (simp add: XXH3_scalarRound_def)
qed

lemma accumulate_512_defined:
  assumes "length w = 64" "length k = 64" "length acc = 8"
  shows "\<exists>acc'. XXH3_accumulate_512 acc w 0 k 0 = Some acc' \<and> length acc' = 8"
  unfolding XXH3_accumulate_512_def
proof (rule for_each_inv)
  fix acc :: "u64 list" and lane assume "lane \<in> set [0..<8]" "length acc = 8"
  then show "\<exists>acc'. XXH3_scalarRound acc w 0 k 0 lane = Some acc' \<and> length acc' = 8"
    using assms xor_one_less [of lane] by (simp add: XXH3_scalarRound_def readLE64_window)
qed (rule assms(3))

lemma scrambleAcc_window:
  assumes "s + 64 \<le> length secret"
  shows "XXH3_scrambleAcc acc secret s = XXH3_scrambleAcc acc (take 64 (drop s secret)) 0"
  unfolding XXH3_scrambleAcc_def
proof (rule for_each_cong)
  fix acc lane assume "lane \<in> set [0..<8]"
  then have l: "lane * 8 + 8 \<le> 64" by auto
  then show "XXH3_scalarScrambleRound acc secret s lane = XXH3_scalarScrambleRound acc (take 64 (drop s secret)) 0 lane"
    using assms read_window [of s "lane * 8" secret 64] by (simp add: XXH3_scalarScrambleRound_def)
qed

lemma scrambleAcc_defined:
  assumes "length k = 64" "length acc = 8"
  shows "\<exists>acc'. XXH3_scrambleAcc acc k 0 = Some acc' \<and> length acc' = 8"
  unfolding XXH3_scrambleAcc_def
proof (rule for_each_inv)
  fix acc :: "u64 list" and lane assume "lane \<in> set [0..<8]" "length acc = 8"
  then show "\<exists>acc'. XXH3_scalarScrambleRound acc k 0 lane = Some acc' \<and> length acc' = 8"
    using assms by (simp add: XXH3_scalarScrambleRound_def readLE64_window Let_def)
qed (rule assms(2))

text \<open>The two operations as functions of a stripe and a piece of the secret, for use where they are defined.\<close>

definition stripe512 :: "u64 list \<Rightarrow> bytes \<Rightarrow> bytes \<Rightarrow> u64 list" where
  "stripe512 acc w k = the (XXH3_accumulate_512 acc w 0 k 0)"

definition scram :: "u64 list \<Rightarrow> bytes \<Rightarrow> u64 list" where
  "scram acc k = the (XXH3_scrambleAcc acc k 0)"

definition window :: "bytes \<Rightarrow> nat \<Rightarrow> bytes" where
  "window p i = take 64 (drop i p)"

lemma window_length: "i + 64 \<le> length p \<Longrightarrow> length (window p i) = 64"
  by (simp add: window_def)

lemma accumulate_512_eq:
  assumes "i + 64 \<le> length input" "s + 64 \<le> length secret" "length acc = 8"
  shows "XXH3_accumulate_512 acc input i secret s = Some (stripe512 acc (window input i) (window secret s))"
    "length (stripe512 acc (window input i) (window secret s)) = 8"
  using accumulate_512_window [OF assms(1,2), of acc] accumulate_512_defined [of "window input i" "window secret s" acc]
    window_length [OF assms(1)] window_length [OF assms(2)] assms(3) by (auto simp: stripe512_def window_def)

lemma scrambleAcc_eq:
  assumes "s + 64 \<le> length secret" "length acc = 8"
  shows "XXH3_scrambleAcc acc secret s = Some (scram acc (window secret s))" "length (scram acc (window secret s)) = 8"
  using scrambleAcc_window [OF assms(1), of acc] scrambleAcc_defined [of "window secret s" acc] window_length [OF assms(1)] assms(2)
  by (auto simp: scram_def window_def)

section \<open>One pass over the stripes\<close>

definition good_secret :: "bytes \<Rightarrow> nat \<Rightarrow> bool" where
  "good_secret secret limit \<longleftrightarrow> 72 \<le> limit \<and> limit + 64 \<le> length secret"

fun stripes_acc :: "bytes \<Rightarrow> nat \<Rightarrow> bytes \<Rightarrow> nat \<Rightarrow> u64 list" where
  "stripes_acc secret limit xs 0 = XXH3_INIT_ACC"
| "stripes_acc secret limit xs (Suc c) =
     (let acc = stripe512 (stripes_acc secret limit xs c) (window xs (64 * c)) (window secret (8 * (c mod (limit div 8)))) in
      if Suc c mod (limit div 8) = 0 then scram acc (window secret limit) else acc)"

fun block_acc :: "bytes \<Rightarrow> nat \<Rightarrow> bytes \<Rightarrow> nat \<Rightarrow> nat \<Rightarrow> u64 list" where
  "block_acc secret limit xs c 0 = stripes_acc secret limit xs c"
| "block_acc secret limit xs c (Suc m) =
     stripe512 (block_acc secret limit xs c m) (window xs (64 * (c + m))) (window secret (8 * (c mod (limit div 8) + m)))"

lemma good_secretD:
  assumes "good_secret secret limit"
  shows "9 \<le> limit div 8" "j < limit div 8 \<Longrightarrow> 8 * j + 64 \<le> length secret" "limit + 64 \<le> length secret"
proof -
  show "9 \<le> limit div 8" using assms by (auto simp: good_secret_def dest: div_le_mono [of 72 limit 8])
  show l: "limit + 64 \<le> length secret" using assms by (simp add: good_secret_def)
  assume "j < limit div 8"
  then have "8 * j \<le> 8 * (limit div 8)" by simp
  also have "\<dots> \<le> limit" by simp
  finally show "8 * j + 64 \<le> length secret" using l by simp
qed

lemma length_INIT_ACC [simp]: "length XXH3_INIT_ACC = 8"
  by (simp add: XXH3_INIT_ACC_def)

lemma mod_add_below: "0 < B \<Longrightarrow> c mod B + m < B \<Longrightarrow> (c + m) mod B = c mod B + (m :: nat)"
  using mod_add_left_eq [of c B m] by simp

lemma mod_add_full: "0 < B \<Longrightarrow> c mod B + m = B \<Longrightarrow> (c + m) mod B = (0 :: nat)"
  using mod_add_left_eq [of c B m] by simp

lemma length_stripes_acc:
  assumes g: "good_secret secret limit"
  shows "64 * c \<le> length xs \<Longrightarrow> length (stripes_acc secret limit xs c) = 8"
proof (induction c)
  case (Suc c)
  have "c mod (limit div 8) < limit div 8" using good_secretD(1) [OF g] by (intro mod_less_divisor) simp
  then have "length (stripe512 (stripes_acc secret limit xs c) (window xs (64 * c)) (window secret (8 * (c mod (limit div 8))))) = 8"
    using Suc good_secretD(2) [OF g] by (intro accumulate_512_eq(2)) auto
  then show ?case using scrambleAcc_eq(2) [OF good_secretD(3) [OF g]] by (simp add: Let_def)
qed simp

text \<open>Within a block the accumulators follow the pass; at its end they only miss the scrambling.\<close>

lemma block_acc_below:
  assumes g: "good_secret secret limit" and m: "c mod (limit div 8) + m < limit div 8"
  shows "block_acc secret limit xs c m = stripes_acc secret limit xs (c + m)"
  using m
proof (induction m)
  case (Suc m)
  have B: "0 < limit div 8" using good_secretD(1) [OF g] by simp
  have "(c + m) mod (limit div 8) = c mod (limit div 8) + m" "(c + Suc m) mod (limit div 8) = c mod (limit div 8) + Suc m"
    using Suc.prems mod_add_below [OF B, of c m] mod_add_below [OF B, of c "Suc m"] by auto
  then show ?case using Suc by (simp add: Let_def)
qed simp

lemma block_acc_end:
  assumes g: "good_secret secret limit" and m: "c mod (limit div 8) + m = limit div 8"
  shows "scram (block_acc secret limit xs c m) (window secret limit) = stripes_acc secret limit xs (c + m)"
proof -
  have B: "0 < limit div 8" using good_secretD(1) [OF g] by simp
  then obtain m' where m': "m = Suc m'" using m mod_less_divisor [OF B, of c] by (cases m) auto
  have "(c + m') mod (limit div 8) = c mod (limit div 8) + m'" "(c + m) mod (limit div 8) = 0"
    using m m' mod_add_below [OF B, of c m'] mod_add_full [OF B m] by auto
  then show ?thesis using block_acc_below [OF g, of c m' xs] m m' by (simp add: Let_def)
qed

text \<open>\<open>covers input off xs c m\<close>: at \<open>off\<close> the input holds the stripes \<open>c\<close> to \<open>c + m - 1\<close> of \<open>xs\<close>.\<close>

definition covers :: "bytes \<Rightarrow> nat \<Rightarrow> bytes \<Rightarrow> nat \<Rightarrow> nat \<Rightarrow> bool" where
  "covers input off xs c m \<longleftrightarrow> off + 64 * m \<le> length input \<and> 64 * (c + m) \<le> length xs \<and>
     take (64 * m) (drop off input) = take (64 * m) (drop (64 * c) xs)"

lemma covers_window:
  assumes "covers input off xs c m" "n < m"
  shows "window input (off + n * 64) = window xs (64 * (c + n))" "off + n * 64 + 64 \<le> length input"
proof -
  have n: "64 * n + 64 \<le> 64 * m" using assms(2) by simp
  have "window input (off + n * 64) = take 64 (drop (64 * n) (take (64 * m) (drop off input)))"
    using n by (simp add: window_def drop_take min_def add.commute mult.commute)
  also have "\<dots> = take 64 (drop (64 * n) (take (64 * m) (drop (64 * c) xs)))" using assms(1) by (simp add: covers_def)
  also have "\<dots> = window xs (64 * (c + n))" using n by (simp add: window_def drop_take min_def algebra_simps)
  finally show "window input (off + n * 64) = window xs (64 * (c + n))" .
  show "off + n * 64 + 64 \<le> length input" using assms n by (simp add: covers_def)
qed

lemma accumulate_block:
  assumes g: "good_secret secret limit" and cov: "covers input off xs c m" and m: "c mod (limit div 8) + m \<le> limit div 8"
  shows "XXH3_accumulate (stripes_acc secret limit xs c) input off secret (c mod (limit div 8) * 8) m = Some (block_acc secret limit xs c m) \<and>
    length (block_acc secret limit xs c m) = 8"
proof -
  have "k \<le> m \<Longrightarrow> for_each (\<lambda>acc n. XXH3_accumulate_512 acc input (off + n * 64) secret (c mod (limit div 8) * 8 + n * 8)) [0..<k]
      (stripes_acc secret limit xs c) = Some (block_acc secret limit xs c k) \<and> length (block_acc secret limit xs c k) = 8" for k
  proof (induction k)
    case 0
    then show ?case using length_stripes_acc [OF g, of c xs] cov by (simp add: covers_def)
  next
    case (Suc k)
    have w: "window input (off + k * 64) = window xs (64 * (c + k))" "off + k * 64 + 64 \<le> length input"
      using covers_window [OF cov, of k] Suc.prems by auto
    have s: "c mod (limit div 8) * 8 + k * 8 = 8 * (c mod (limit div 8) + k)" by simp
    have "8 * (c mod (limit div 8) + k) + 64 \<le> length secret" using m Suc.prems by (intro good_secretD(2) [OF g]) simp
    from accumulate_512_eq [OF w(2) this] Suc show ?case by (simp add: for_each_append w(1) s)
  qed
  from this [of m] show ?thesis by (simp add: XXH3_accumulate_def)
qed

lemma accumulate_part:
  assumes g: "good_secret secret limit" and cov: "covers input off xs c m" and m: "c mod (limit div 8) + m < limit div 8"
  shows "XXH3_accumulate (stripes_acc secret limit xs c) input off secret (c mod (limit div 8) * 8) m = Some (stripes_acc secret limit xs (c + m))"
  using accumulate_block [OF g cov] block_acc_below [OF g m, of xs] m by simp

lemma accumulate_full:
  assumes g: "good_secret secret limit" and cov: "covers input off xs c m" and m: "c mod (limit div 8) + m = limit div 8"
  shows "do { acc \<leftarrow> XXH3_accumulate (stripes_acc secret limit xs c) input off secret (c mod (limit div 8) * 8) m;
    XXH3_scrambleAcc acc secret limit } = Some (stripes_acc secret limit xs (c + m))"
  using accumulate_block [OF g cov] block_acc_end [OF g m, of xs] m scrambleAcc_eq(1) [OF good_secretD(3) [OF g], of "block_acc secret limit xs c m"]
  by simp

lemma covers_split:
  assumes "covers input off xs c (m + k)"
  shows "covers input off xs c m" "covers input (off + 64 * m) xs (c + m) k"
proof -
  have e: "take (64 * (m + k)) (drop off input) = take (64 * (m + k)) (drop (64 * c) xs)" using assms by (simp add: covers_def)
  from arg_cong [OF e, of "take (64 * m)"] show "covers input off xs c m" using assms by (simp add: covers_def min_def)
  have d: "drop (64 * m) (take (64 * (m + k)) zs) = take (64 * k) (drop (64 * m) zs)" for zs :: bytes
    by (simp add: drop_take algebra_simps)
  from arg_cong [OF e, of "drop (64 * m)"] have "take (64 * k) (drop (off + 64 * m) input) = take (64 * k) (drop (64 * (c + m)) xs)"
    unfolding d by (simp add: algebra_simps)
  then show "covers input (off + 64 * m) xs (c + m) k" using assms by (simp add: covers_def algebra_simps)
qed

lemma covers_self:
  assumes "64 * (c + m) \<le> len" "len \<le> length input"
  shows "covers input (64 * c) (take len input) c m"
proof -
  have "64 * m \<le> len - 64 * c" using assms by simp
  then show ?thesis using assms by (simp add: covers_def drop_take min_def)
qed

text \<open>The accumulators of a long input: all the stripes but the last one, then the last 64 bytes.\<close>

definition long_acc :: "bytes \<Rightarrow> nat \<Rightarrow> bytes \<Rightarrow> u64 list" where
  "long_acc secret limit xs =
     stripe512 (stripes_acc secret limit xs ((length xs - 1) div 64)) (window xs (length xs - 64)) (window secret (limit - 7))"

lemma last_stripe:
  assumes g: "good_secret secret limit" and n: "64 \<le> length xs"
    and i: "i + 64 \<le> length input" "window input i = window xs (length xs - 64)"
  shows "XXH3_accumulate_512 (stripes_acc secret limit xs ((length xs - 1) div 64)) input i secret (limit - 7) = Some (long_acc secret limit xs)"
    "length (long_acc secret limit xs) = 8"
proof -
  have "64 * ((length xs - 1) div 64) \<le> length xs" by (rule order_trans [OF times_div_less_eq_dividend]) simp
  from length_stripes_acc [OF g this] have l: "length (stripes_acc secret limit xs ((length xs - 1) div 64)) = 8" .
  have s: "limit - 7 + 64 \<le> length secret" using g by (simp add: good_secret_def)
  from accumulate_512_eq [OF i(1) s l] i(2)
  show "XXH3_accumulate_512 (stripes_acc secret limit xs ((length xs - 1) div 64)) input i secret (limit - 7) = Some (long_acc secret limit xs)"
    "length (long_acc secret limit xs) = 8" by (simp_all add: long_acc_def)
qed

lemma hashLong_blocks:
  assumes g: "good_secret secret limit" and len: "len \<le> length input" and k: "64 * (k * (limit div 8)) \<le> len"
  shows "for_each (\<lambda>acc n. do {
       acc \<leftarrow> XXH3_accumulate acc input (n * (64 * (limit div 8))) secret 0 (limit div 8);
       XXH3_scrambleAcc acc secret limit }) [0..<k] XXH3_INIT_ACC = Some (stripes_acc secret limit (take len input) (k * (limit div 8)))"
  using k
proof (induction k)
  case (Suc k)
  have cov: "covers input (64 * (k * (limit div 8))) (take len input) (k * (limit div 8)) (limit div 8)"
    using Suc.prems len by (intro covers_self) (simp_all add: algebra_simps)
  have off: "64 * (k * (limit div 8)) = k * (64 * (limit div 8))" by simp
  show ?case using accumulate_full [OF g cov] Suc unfolding for_each_upt off by (simp add: add.commute)
qed simp

lemma div_block:
  assumes "0 < B"
  shows "(n - 64 * B * (n div (64 * B))) div 64 = n div 64 mod (B :: nat)" "n div 64 = n div (64 * B) * B + n div 64 mod B"
proof -
  have e: "n div (64 * B) = n div 64 div B" by (simp add: div_mult2_eq)
  have "n - 64 * B * (n div (64 * B)) = n mod (64 * B)" by (simp add: minus_mult_div_eq_mod)
  also have "\<dots> = 64 * (n div 64 mod B) + n mod 64" by (simp add: mod_mult2_eq)
  finally show "(n - 64 * B * (n div (64 * B))) div 64 = n div 64 mod B" by simp
  show "n div 64 = n div (64 * B) * B + n div 64 mod B" unfolding e by simp
qed

lemma hashLong_internal_loop:
  assumes s: "136 \<le> secretSize" "secretSize \<le> length secret" and len: "64 < len" "len \<le> length input"
  shows "XXH3_hashLong_internal_loop XXH3_INIT_ACC input len secret secretSize = Some (long_acc secret (secretSize - 64) (take len input))"
proof -
  define limit B where "limit = secretSize - 64" and "B = limit div 8"
  have g: "good_secret secret limit" using s by (simp add: good_secret_def limit_def)
  have B: "0 < B" using good_secretD(1) [OF g] by (simp add: B_def)
  define nb r where "nb = (len - 1) div (64 * B)" and "r = (len - 1) div 64 mod B"
  have c: "(len - 1) div 64 = nb * B + r" and r: "(len - 1 - 64 * B * nb) div 64 = r" "r < B"
    using div_block [OF B, of "len - 1"] B by (simp_all add: nb_def r_def)
  have "64 * (nb * B + r) \<le> len - 1" unfolding c [symmetric] by simp
  then have n: "64 * (nb * B + r) \<le> len" "64 * (nb * B) \<le> len" by simp_all
  have b: "B \<le> secretSize div 8" unfolding B_def limit_def by (rule div_le_mono) simp
  have 1: "for_each (\<lambda>acc n. do { acc \<leftarrow> XXH3_accumulate acc input (n * (64 * B)) secret 0 B;
       XXH3_scrambleAcc acc secret limit }) [0..<nb] XXH3_INIT_ACC = Some (stripes_acc secret limit (take len input) (nb * B))"
    using hashLong_blocks [OF g len(2) n(2) [unfolded B_def]] by (simp add: B_def)
  have 2: "XXH3_accumulate (stripes_acc secret limit (take len input) (nb * B)) input (nb * (64 * B)) secret 0 r =
      Some (stripes_acc secret limit (take len input) ((len - 1) div 64))"
    using accumulate_part [OF g covers_self [OF n(1) len(2)]] r(2) unfolding c by (simp add: B_def ac_simps)
  have 3: "XXH3_accumulate_512 (stripes_acc secret limit (take len input) ((len - 1) div 64)) input (len - 64) secret (limit - 7) =
      Some (long_acc secret limit (take len input))"
    using last_stripe(1) [OF g, of "take len input" "len - 64" input] len by (simp add: window_def drop_take)
  show ?thesis unfolding XXH3_hashLong_internal_loop_def Let_def limit_def [symmetric] B_def [symmetric] nb_def [symmetric] 1 r(1)
    using s len b r(2) 3 by (simp add: 2)
qed


lemma mergeAccs_defined:
  assumes "length acc = 8" "s + 64 \<le> length secret"
  shows "\<exists>h. XXH3_mergeAccs acc secret s start = Some h"
  unfolding XXH3_mergeAccs_def XXH3_mix2Accs_def
  using assms by (intro returns) (auto simp: readLE64_window rd_def)

section \<open>Short inputs\<close>

text \<open>The functions for short inputs read the first \<open>len\<close> bytes of the input and no others.\<close>

named_theorems prefix_simps

lemma read_take [prefix_simps]:
  "i + 4 \<le> n \<Longrightarrow> XXH_readLE32 (take n p) i = XXH_readLE32 p i"
  "i + 8 \<le> n \<Longrightarrow> XXH_readLE64 (take n p) i = XXH_readLE64 p i"
  "i < n \<Longrightarrow> rd (take n p) i = rd p i"
  by (auto simp: readLE32_window readLE64_window drop_take min_def rd_def)

lemma mix16B_take [prefix_simps]:
  "i + 16 \<le> n \<Longrightarrow> XXH3_mix16B (take n p) i secret s seed = XXH3_mix16B p i secret s seed"
  by (simp add: XXH3_mix16B_def read_take)

lemma mix32B_take [prefix_simps]:
  "i + 16 \<le> n \<Longrightarrow> j + 16 \<le> n \<Longrightarrow> XXH128_mix32B acc (take n p) i j secret s seed = XXH128_mix32B acc p i j secret s seed"
  by (simp add: XXH128_mix32B_def read_take mix16B_take)

lemma len_0to16_take [prefix_simps]:
  "XXH3_len_0to16_64b (take len p) len secret seed = XXH3_len_0to16_64b p len secret seed"
  "XXH3_len_0to16_128b (take len p) len secret seed = XXH3_len_0to16_128b p len secret seed"
  by (auto simp: XXH3_len_0to16_64b_def XXH3_len_9to16_64b_def XXH3_len_4to8_64b_def XXH3_len_1to3_64b_def
      XXH3_len_0to16_128b_def XXH3_len_9to16_128b_def XXH3_len_4to8_128b_def XXH3_len_1to3_128b_def assert_def read_take)

lemma len_17to128_take [prefix_simps]:
  "XXH3_len_17to128_64b (take len p) len secret secretSize seed = XXH3_len_17to128_64b p len secret secretSize seed"
  "XXH3_len_17to128_128b (take len p) len secret secretSize seed = XXH3_len_17to128_128b p len secret secretSize seed"
  by (cases "32 < len"; cases "64 < len"; cases "96 < len";
      simp add: XXH3_len_17to128_64b_def XXH3_len_17to128_128b_def assert_def mix16B_take mix32B_take)+

lemma len_129to240_take [prefix_simps]:
  "XXH3_len_129to240_64b (take len p) len secret secretSize seed = XXH3_len_129to240_64b p len secret secretSize seed"
proof (cases "128 < len")
  case True
  have r: "16 * i + 16 \<le> len" if "i < len div 16" for i
  proof -
    have "16 * i + 16 \<le> 16 * (len div 16)" using that by simp
    then show ?thesis using times_div_less_eq_dividend [of 16 len] by linarith
  qed
  have 1: "for_each (\<lambda>acc i. do { m \<leftarrow> XXH3_mix16B (take len p) (16 * i) secret (16 * i) seed; Some (acc + m) }) [0..<8] =
      for_each (\<lambda>acc i. do { m \<leftarrow> XXH3_mix16B p (16 * i) secret (16 * i) seed; Some (acc + m) }) [0..<8]"
    using True by (intro ext for_each_cong) (simp add: mix16B_take)
  have 2: "for_each (\<lambda>acc i. do { m \<leftarrow> XXH3_mix16B (take len p) (16 * i) secret (16 * (i - 8) + 3) seed; Some (acc + m) }) [8..<len div 16] =
      for_each (\<lambda>acc i. do { m \<leftarrow> XXH3_mix16B p (16 * i) secret (16 * (i - 8) + 3) seed; Some (acc + m) }) [8..<len div 16]"
    by (intro ext for_each_cong) (simp add: mix16B_take r)
  show ?thesis using True unfolding XXH3_len_129to240_64b_def Let_def 1 2 by (simp add: mix16B_take)
qed (simp add: XXH3_len_129to240_64b_def assert_def)

lemma len_129to240_128_take [prefix_simps]:
  "XXH3_len_129to240_128b (take len p) len secret secretSize seed = XXH3_len_129to240_128b p len secret secretSize seed"
proof (cases "128 < len")
  case True
  have r: "32 * i \<le> len" if "i < len div 32 + 1" for i
  proof -
    have "32 * i \<le> 32 * (len div 32)" using that by simp
    then show ?thesis using times_div_less_eq_dividend [of 32 len] by linarith
  qed
  have 1: "for_each (\<lambda>acc i. XXH128_mix32B acc (take len p) (i - 32) (i - 16) secret (i - 32) seed) (map ((*) 32) [1..<5]) =
      for_each (\<lambda>acc i. XXH128_mix32B acc p (i - 32) (i - 16) secret (i - 32) seed) (map ((*) 32) [1..<5])"
    using True by (intro ext for_each_cong mix32B_take) auto
  have 2: "for_each (\<lambda>acc i. XXH128_mix32B acc (take len p) (i - 32) (i - 16) secret (3 + i - 160) seed) (map ((*) 32) [5..<len div 32 + 1]) =
      for_each (\<lambda>acc i. XXH128_mix32B acc p (i - 32) (i - 16) secret (3 + i - 160) seed) (map ((*) 32) [5..<len div 32 + 1])"
    by (intro ext for_each_cong mix32B_take) (auto dest!: r)
  show ?thesis using True unfolding XXH3_len_129to240_128b_def Let_def 1 2 by (simp add: mix32B_take)
qed (simp add: XXH3_len_129to240_128b_def assert_def)

lemma internal_take:
  "len \<le> 240 \<Longrightarrow> XXH3_64bits_internal (take len p) len seed secret secretLen f = XXH3_64bits_internal p len seed secret secretLen f"
  "len \<le> 240 \<Longrightarrow> XXH3_128bits_internal (take len p) len seed secret secretLen g = XXH3_128bits_internal p len seed secret secretLen g"
  by (simp_all add: XXH3_64bits_internal_def XXH3_128bits_internal_def prefix_simps)

text \<open>They stay within an input of \<open>len\<close> bytes and a secret of 136 bytes, so they return.\<close>

lemma mix16B_defined: "i + 16 \<le> length p \<Longrightarrow> s + 16 \<le> length secret \<Longrightarrow> \<exists>h. XXH3_mix16B p i secret s seed = Some h"
  by (simp add: XXH3_mix16B_def readLE64_window Let_def)

lemma mix32B_defined:
  "i + 16 \<le> length p \<Longrightarrow> j + 16 \<le> length p \<Longrightarrow> s + 32 \<le> length secret \<Longrightarrow> \<exists>h. XXH128_mix32B acc p i j secret s seed = Some h"
  using mix16B_defined [of i p s secret seed] mix16B_defined [of j p "s + 16" secret seed]
  by (auto simp: XXH128_mix32B_def readLE64_window)

lemma len_0to16_defined:
  assumes "len \<le> 16" "len \<le> length p" "136 \<le> length secret"
  shows "\<exists>h. XXH3_len_0to16_64b p len secret seed = Some h" "\<exists>h. XXH3_len_0to16_128b p len secret seed = Some h"
  using assms by (auto simp: XXH3_len_0to16_64b_def XXH3_len_9to16_64b_def XXH3_len_4to8_64b_def XXH3_len_1to3_64b_def
      XXH3_len_0to16_128b_def XXH3_len_9to16_128b_def XXH3_len_4to8_128b_def XXH3_len_1to3_128b_def assert_def rd_def
      readLE32_window readLE64_window Let_def)

lemma len_17to128_defined:
  assumes "16 < len" "len \<le> 128" "len \<le> length p" "136 \<le> secretSize" "secretSize \<le> length secret"
  shows "\<exists>h. XXH3_len_17to128_64b p len secret secretSize seed = Some h" "\<exists>h. XXH3_len_17to128_128b p len secret secretSize seed = Some h"
  unfolding XXH3_len_17to128_64b_def XXH3_len_17to128_128b_def Let_def
  by (intro returns mix16B_defined mix32B_defined; use assms in simp)+

lemma len_129to240_defined:
  assumes "128 < len" "len \<le> 240" "len \<le> length p" "136 \<le> secretSize" "secretSize \<le> length secret"
  shows "\<exists>h. XXH3_len_129to240_64b p len secret secretSize seed = Some h" "\<exists>h. XXH3_len_129to240_128b p len secret secretSize seed = Some h"
proof -
  have 16: "16 * i + 16 \<le> len \<and> i < 15" if "i < len div 16" for i
  proof -
    have "16 * i + 16 \<le> 16 * (len div 16)" using that by simp
    then show ?thesis using times_div_less_eq_dividend [of 16 len] assms(2) by linarith
  qed
  have 32: "32 * i \<le> len" if "i < len div 32 + 1" for i
  proof -
    have "32 * i \<le> 32 * (len div 32)" using that by simp
    then show ?thesis using times_div_less_eq_dividend [of 32 len] by linarith
  qed
  have "8 \<le> len div 16" using div_le_mono [of 128 len 16] assms(1) by simp
  then show "\<exists>h. XXH3_len_129to240_64b p len secret secretSize seed = Some h"
    unfolding XXH3_len_129to240_64b_def Let_def using assms
    by (intro returns mix16B_defined) (auto dest!: 16)
  show "\<exists>h. XXH3_len_129to240_128b p len secret secretSize seed = Some h"
    unfolding XXH3_len_129to240_128b_def Let_def using assms
    by (intro returns mix32B_defined) (auto dest!: 32)
qed

lemma hashLong_defined:
  assumes "64 < len" "len \<le> length p" "136 \<le> secretSize" "secretSize \<le> length secret"
  shows "\<exists>h. XXH3_hashLong_64b_internal p len secret secretSize = Some h" "\<exists>h. XXH3_hashLong_128b_internal p len secret secretSize = Some h"
proof -
  have g: "good_secret secret (secretSize - 64)" using assms by (simp add: good_secret_def)
  have l: "length (long_acc secret (secretSize - 64) (take len p)) = 8"
    using assms by (intro last_stripe(2) [OF g, where input = "take len p" and i = "len - 64"]) simp_all
  show "\<exists>h. XXH3_hashLong_64b_internal p len secret secretSize = Some h" "\<exists>h. XXH3_hashLong_128b_internal p len secret secretSize = Some h"
    unfolding XXH3_hashLong_64b_internal_def XXH3_hashLong_128b_internal_def hashLong_internal_loop [OF assms(3,4,1,2)] using assms l
    by (auto intro!: returns mergeAccs_defined)
qed

lemma internal_defined:
  assumes "len \<le> length p" "136 \<le> secretSize" "secretSize \<le> length secret"
  shows "240 < len \<Longrightarrow> \<exists>h. f p len seed secret secretSize = Some h \<Longrightarrow> \<exists>h. XXH3_64bits_internal p len seed secret secretSize f = Some h"
    "240 < len \<Longrightarrow> \<exists>h. g p len seed secret secretSize = Some h \<Longrightarrow> \<exists>h. XXH3_128bits_internal p len seed secret secretSize g = Some h"
    "len \<le> 240 \<Longrightarrow> \<exists>h. XXH3_64bits_internal p len seed secret secretSize f = Some h"
    "len \<le> 240 \<Longrightarrow> \<exists>h. XXH3_128bits_internal p len seed secret secretSize g = Some h"
  unfolding XXH3_64bits_internal_def XXH3_128bits_internal_def using assms
  by (auto intro!: returns len_0to16_defined len_17to128_defined len_129to240_defined)

end
