(* ===== verification/Xxh3_Stream.thy ===== *)
theory Xxh3_Stream
  imports Xxh3_Long
begin

text \<open>
  The streaming functions of XXH3 in \<^verbatim>\<open>cpp-util/xxhash.h\<close>: the state, the four ways to reset it, the update that
  fills the internal buffer and consumes the input in stripes and blocks, and the digests of 64 and 128 bits. A null pointer is
  \<open>None\<close>; the pointer to an external secret is the secret itself, which the documentation requires to outlive the session.
  The sizes of objects in memory are natural numbers, the total length is a 64-bit counter. The accumulators are kept in the
  state throughout, as in the build without \<^verbatim>\<open>XXH3_STREAM_USE_STACK\<close>.
\<close>

unbundle bit_operations_syntax

section \<open>State and reset\<close>

datatype XXH_errorcode = XXH_OK | XXH_ERROR

record XXH3_state =
  acc3 :: "u64 list"
  customSecret :: bytes
  buffer :: bytes
  bufferedSize :: nat
  useSeed :: bool
  nbStripesSoFar :: nat
  totalLen :: u64
  nbStripesPerBlock :: nat
  secretLimit :: nat
  seed3 :: u64
  extSecret :: "bytes option"

definition XXH3_INITSTATE :: "XXH3_state \<Rightarrow> XXH3_state" where
  "XXH3_INITSTATE st = st\<lparr>seed3 := 0\<rparr>"

definition XXH3_copyState :: "XXH3_state \<Rightarrow> XXH3_state \<Rightarrow> XXH3_state" where
  "XXH3_copyState dst_state src_state = src_state"

definition XXH3_secret :: "XXH3_state \<Rightarrow> bytes" where
  "XXH3_secret st = (case extSecret st of None \<Rightarrow> customSecret st | Some secret \<Rightarrow> secret)"

definition XXH3_reset_internal :: "XXH3_state \<Rightarrow> u64 \<Rightarrow> bytes option \<Rightarrow> nat \<Rightarrow> XXH3_state option" where
  "XXH3_reset_internal st seed secret secretSize = do {
     let st = st\<lparr>bufferedSize := 0, useSeed := False, nbStripesSoFar := 0, totalLen := 0\<rparr>;
     let st = st\<lparr>acc3 := XXH3_INIT_ACC\<rparr>;
     let st = st\<lparr>seed3 := seed, useSeed := (seed \<noteq> 0), extSecret := secret\<rparr>;
     assert (136 \<le> secretSize);
     Some (st\<lparr>secretLimit := secretSize - 64, nbStripesPerBlock := (secretSize - 64) div 8\<rparr>) }"

definition XXH3_64bits_reset :: "XXH3_state option \<Rightarrow> (XXH_errorcode \<times> XXH3_state option) option" where
  "XXH3_64bits_reset statePtr =
     (case statePtr of None \<Rightarrow> Some (XXH_ERROR, None)
      | Some st \<Rightarrow> do { st \<leftarrow> XXH3_reset_internal st 0 (Some XXH3_kSecret) (length XXH3_kSecret); Some (XXH_OK, Some st) })"

definition XXH3_64bits_reset_withSecret ::
  "XXH3_state option \<Rightarrow> bytes option \<Rightarrow> nat \<Rightarrow> (XXH_errorcode \<times> XXH3_state option) option" where
  "XXH3_64bits_reset_withSecret statePtr secret secretSize =
     (case statePtr of None \<Rightarrow> Some (XXH_ERROR, None)
      | Some st \<Rightarrow> do {
          st \<leftarrow> XXH3_reset_internal st 0 secret secretSize;
          if secret = None then Some (XXH_ERROR, Some st)
          else if secretSize < 136 then Some (XXH_ERROR, Some st)
          else Some (XXH_OK, Some st) })"

definition XXH3_64bits_reset_withSeed :: "XXH3_state option \<Rightarrow> u64 \<Rightarrow> (XXH_errorcode \<times> XXH3_state option) option" where
  "XXH3_64bits_reset_withSeed statePtr seed =
     (case statePtr of None \<Rightarrow> Some (XXH_ERROR, None)
      | Some st \<Rightarrow>
          if seed = 0 then XXH3_64bits_reset statePtr
          else do {
            st \<leftarrow> (if seed \<noteq> seed3 st \<or> extSecret st \<noteq> None
                   then do { cs \<leftarrow> XXH3_initCustomSecret (customSecret st) seed; Some (st\<lparr>customSecret := cs\<rparr>) } else Some st);
            st \<leftarrow> XXH3_reset_internal st seed None 192;
            Some (XXH_OK, Some st) })"

definition XXH3_64bits_reset_withSecretandSeed ::
  "XXH3_state option \<Rightarrow> bytes option \<Rightarrow> nat \<Rightarrow> u64 \<Rightarrow> (XXH_errorcode \<times> XXH3_state option) option" where
  "XXH3_64bits_reset_withSecretandSeed statePtr secret secretSize seed64 =
     (case statePtr of None \<Rightarrow> Some (XXH_ERROR, None)
      | Some st \<Rightarrow>
          if secret = None then Some (XXH_ERROR, Some st)
          else if secretSize < 136 then Some (XXH_ERROR, Some st)
          else do {
            st \<leftarrow> XXH3_reset_internal st seed64 secret secretSize;
            Some (XXH_OK, Some (st\<lparr>useSeed := True\<rparr>)) })"

section \<open>Update\<close>

definition XXH3_consumeStripes ::
  "u64 list \<Rightarrow> nat \<Rightarrow> nat \<Rightarrow> bytes \<Rightarrow> nat \<Rightarrow> nat \<Rightarrow> bytes \<Rightarrow> nat \<Rightarrow> (u64 list \<times> nat) option" where
  "XXH3_consumeStripes acc soFar perBlock input i nbStripes secret limit = do {
     assert (nbStripes \<le> perBlock);
     assert (soFar < perBlock);
     if perBlock - soFar \<le> nbStripes then do {
       let nbStripesToEndofBlock = perBlock - soFar;
       let nbStripesAfterBlock = nbStripes - nbStripesToEndofBlock;
       acc \<leftarrow> XXH3_accumulate acc input i secret (soFar * 8) nbStripesToEndofBlock;
       acc \<leftarrow> XXH3_scrambleAcc acc secret limit;
       acc \<leftarrow> XXH3_accumulate acc input (i + nbStripesToEndofBlock * 64) secret 0 nbStripesAfterBlock;
       Some (acc, nbStripesAfterBlock) }
     else do {
       acc \<leftarrow> XXH3_accumulate acc input i secret (soFar * 8) nbStripes;
       Some (acc, soFar + nbStripes) } }"

definition XXH3_consume_state :: "XXH3_state \<Rightarrow> bytes \<Rightarrow> nat \<Rightarrow> nat \<Rightarrow> XXH3_state option" where
  "XXH3_consume_state st input i nbStripes = do {
     (acc, soFar) \<leftarrow> XXH3_consumeStripes (acc3 st) (nbStripesSoFar st) (nbStripesPerBlock st) input i nbStripes (XXH3_secret st) (secretLimit st);
     Some (st\<lparr>acc3 := acc, nbStripesSoFar := soFar\<rparr>) }"

text \<open>Complete the internal buffer, then consume it.\<close>

definition XXH3_fill :: "XXH3_state \<Rightarrow> bytes \<Rightarrow> (XXH3_state \<times> nat) option" where
  "XXH3_fill st input =
     (if bufferedSize st \<noteq> 0 then do {
        let loadSize = 256 - bufferedSize st;
        buf \<leftarrow> XXH_memcpy (buffer st) (bufferedSize st) input 0 loadSize;
        let st = st\<lparr>buffer := buf\<rparr>;
        st \<leftarrow> XXH3_consume_state st (buffer st) 0 4;
        Some (st\<lparr>bufferedSize := 0\<rparr>, loadSize) }
      else Some (st, 0))"

text \<open>The loop over entire blocks; with no stripes in a block it would not end.\<close>

partial_function (option) XXH3_blocks ::
  "bytes \<Rightarrow> bytes \<Rightarrow> nat \<Rightarrow> nat \<Rightarrow> u64 list \<Rightarrow> nat \<Rightarrow> nat \<Rightarrow> (u64 list \<times> nat \<times> nat) option" where
  "XXH3_blocks input secret limit perBlock acc i nbStripes =
     (if perBlock \<le> nbStripes then do {
        acc \<leftarrow> XXH3_accumulate acc input i secret 0 perBlock;
        acc \<leftarrow> XXH3_scrambleAcc acc secret limit;
        XXH3_blocks input secret limit perBlock acc (i + perBlock * 64) (nbStripes - perBlock) }
      else Some (acc, i, nbStripes))"

declare XXH3_blocks.simps [code]

text \<open>Copy the 64 bytes before position \<open>i\<close> of the input to the end of the buffer.\<close>

definition XXH3_save_tail :: "XXH3_state \<Rightarrow> bytes \<Rightarrow> nat \<Rightarrow> XXH3_state option" where
  "XXH3_save_tail st input i = do {
     assert (64 \<le> i);
     buf \<leftarrow> XXH_memcpy (buffer st) (length (buffer st) - 64) input (i - 64) 64;
     Some (st\<lparr>buffer := buf\<rparr>) }"

definition XXH3_ingest_blocks :: "XXH3_state \<Rightarrow> bytes \<Rightarrow> nat \<Rightarrow> nat \<Rightarrow> (XXH3_state \<times> nat) option" where
  "XXH3_ingest_blocks st input len i = do {
     let nbStripes = (len - 1 - i) div 64;
     assert (nbStripesSoFar st \<le> nbStripesPerBlock st);
     let nbStripesToEnd = nbStripesPerBlock st - nbStripesSoFar st;
     assert (nbStripesToEnd \<le> nbStripes);
     acc \<leftarrow> XXH3_accumulate (acc3 st) input i (XXH3_secret st) (nbStripesSoFar st * 8) nbStripesToEnd;
     acc \<leftarrow> XXH3_scrambleAcc acc (XXH3_secret st) (secretLimit st);
     (acc, i, nbStripes) \<leftarrow> XXH3_blocks input (XXH3_secret st) (secretLimit st) (nbStripesPerBlock st) acc
       (i + nbStripesToEnd * 64) (nbStripes - nbStripesToEnd);
     acc \<leftarrow> XXH3_accumulate acc input i (XXH3_secret st) 0 nbStripes;
     let i = i + nbStripes * 64;
     assert (i < len);
     st \<leftarrow> XXH3_save_tail (st\<lparr>acc3 := acc, nbStripesSoFar := nbStripes\<rparr>) input i;
     assert (len - i \<le> 64);
     Some (st, i) }"

text \<open>The loop over internal buffers, \<^verbatim>\<open>do { ... } while (input<limit)\<close>.\<close>

function XXH3_buffers :: "XXH3_state \<Rightarrow> bytes \<Rightarrow> nat \<Rightarrow> nat \<Rightarrow> (XXH3_state \<times> nat) option" where
  "XXH3_buffers st input limit i = do {
     st \<leftarrow> XXH3_consume_state st input i 4;
     let i = i + 256;
     if i < limit then XXH3_buffers st input limit i else Some (st, i) }"
  by pat_completeness auto
termination by (relation "measure (\<lambda>(st, input, limit, i). limit - i)") auto

declare XXH3_buffers.simps [simp del]

definition XXH3_ingest_buffers :: "XXH3_state \<Rightarrow> bytes \<Rightarrow> nat \<Rightarrow> nat \<Rightarrow> (XXH3_state \<times> nat) option" where
  "XXH3_ingest_buffers st input len i =
     (if 256 < len - i then do {
        (st, i) \<leftarrow> XXH3_buffers st input (len - 256) i;
        st \<leftarrow> XXH3_save_tail st input i;
        Some (st, i) }
      else Some (st, i))"

definition XXH3_update :: "XXH3_state \<Rightarrow> bytes option \<Rightarrow> nat \<Rightarrow> (XXH_errorcode \<times> XXH3_state) option" where
  "XXH3_update st inputPtr len =
     (case inputPtr of None \<Rightarrow> do { assert (len = 0); Some (XXH_OK, st) }
      | Some input \<Rightarrow> do {
          let st = st\<lparr>totalLen := totalLen st + of_nat len\<rparr>;
          assert (bufferedSize st \<le> 256);
          if bufferedSize st + len \<le> 256 then do {
            buf \<leftarrow> XXH_memcpy (buffer st) (bufferedSize st) input 0 len;
            Some (XXH_OK, st\<lparr>buffer := buf, bufferedSize := bufferedSize st + len\<rparr>) }
          else do {
            (st, i) \<leftarrow> XXH3_fill st input;
            assert (i < len);
            (st, i) \<leftarrow> (if nbStripesPerBlock st * 64 < len - i then XXH3_ingest_blocks st input len i
                        else XXH3_ingest_buffers st input len i);
            assert (i < len);
            assert (len - i \<le> 256);
            assert (bufferedSize st = 0);
            buf \<leftarrow> XXH_memcpy (buffer st) 0 input i (len - i);
            Some (XXH_OK, st\<lparr>buffer := buf, bufferedSize := len - i\<rparr>) } })"

definition XXH3_64bits_update :: "XXH3_state \<Rightarrow> bytes option \<Rightarrow> nat \<Rightarrow> (XXH_errorcode \<times> XXH3_state) option" where
  "XXH3_64bits_update st input len = XXH3_update st input len"

section \<open>Digest\<close>

definition XXH3_digest_long :: "XXH3_state \<Rightarrow> bytes \<Rightarrow> u64 list option" where
  "XXH3_digest_long st secret =
     (if 64 \<le> bufferedSize st then do {
        let nbStripes = (bufferedSize st - 1) div 64;
        (acc, soFar) \<leftarrow> XXH3_consumeStripes (acc3 st) (nbStripesSoFar st) (nbStripesPerBlock st) (buffer st) 0 nbStripes secret (secretLimit st);
        XXH3_accumulate_512 acc (buffer st) (bufferedSize st - 64) secret (secretLimit st - 7) }
      else do {
        let catchupSize = 64 - bufferedSize st;
        assert (0 < bufferedSize st);
        lastStripe \<leftarrow> XXH_memcpy (replicate 64 0) 0 (buffer st) (length (buffer st) - catchupSize) catchupSize;
        lastStripe \<leftarrow> XXH_memcpy lastStripe catchupSize (buffer st) 0 (bufferedSize st);
        XXH3_accumulate_512 (acc3 st) lastStripe 0 secret (secretLimit st - 7) })"

definition XXH3_64bits_digest :: "XXH3_state \<Rightarrow> u64 option" where
  "XXH3_64bits_digest st =
     (if 240 < totalLen st then do {
        acc \<leftarrow> XXH3_digest_long st (XXH3_secret st);
        XXH3_mergeAccs acc (XXH3_secret st) 11 (totalLen st * XXH_PRIME64_1) }
      else if useSeed st then XXH3_64bits_withSeed (buffer st) (unat (totalLen st)) (seed3 st)
      else XXH3_64bits_withSecret (buffer st) (unat (totalLen st)) (XXH3_secret st) (secretLimit st + 64))"

definition XXH3_128bits_reset :: "XXH3_state option \<Rightarrow> (XXH_errorcode \<times> XXH3_state option) option" where
  "XXH3_128bits_reset statePtr = XXH3_64bits_reset statePtr"

definition XXH3_128bits_reset_withSecret ::
  "XXH3_state option \<Rightarrow> bytes option \<Rightarrow> nat \<Rightarrow> (XXH_errorcode \<times> XXH3_state option) option" where
  "XXH3_128bits_reset_withSecret statePtr secret secretSize = XXH3_64bits_reset_withSecret statePtr secret secretSize"

definition XXH3_128bits_reset_withSeed :: "XXH3_state option \<Rightarrow> u64 \<Rightarrow> (XXH_errorcode \<times> XXH3_state option) option" where
  "XXH3_128bits_reset_withSeed statePtr seed = XXH3_64bits_reset_withSeed statePtr seed"

definition XXH3_128bits_reset_withSecretandSeed ::
  "XXH3_state option \<Rightarrow> bytes option \<Rightarrow> nat \<Rightarrow> u64 \<Rightarrow> (XXH_errorcode \<times> XXH3_state option) option" where
  "XXH3_128bits_reset_withSecretandSeed statePtr secret secretSize seed = XXH3_64bits_reset_withSecretandSeed statePtr secret secretSize seed"

definition XXH3_128bits_update :: "XXH3_state \<Rightarrow> bytes option \<Rightarrow> nat \<Rightarrow> (XXH_errorcode \<times> XXH3_state) option" where
  "XXH3_128bits_update st input len = XXH3_update st input len"

definition XXH3_128bits_digest :: "XXH3_state \<Rightarrow> XXH128_hash_t option" where
  "XXH3_128bits_digest st =
     (if 240 < totalLen st then do {
        acc \<leftarrow> XXH3_digest_long st (XXH3_secret st);
        assert (64 + 11 \<le> secretLimit st + 64);
        l \<leftarrow> XXH3_mergeAccs acc (XXH3_secret st) 11 (totalLen st * XXH_PRIME64_1);
        h \<leftarrow> XXH3_mergeAccs acc (XXH3_secret st) (secretLimit st + 64 - 64 - 11) (NOT (totalLen st * XXH_PRIME64_2));
        Some \<lparr>low64 = l, high64 = h\<rparr> }
      else if seed3 st \<noteq> 0 then XXH3_128bits_withSeed (buffer st) (unat (totalLen st)) (seed3 st)
      else XXH3_128bits_withSecret (buffer st) (unat (totalLen st)) (XXH3_secret st) (secretLimit st + 64))"

end
