(* ===== verification/Xxh3_Update.thy ===== *)
theory Xxh3_Update
  imports Xxh3_Stream
begin

text \<open>
  The streaming functions of XXH3 follow the reference pass over the stripes: after any number of updates the state holds the
  accumulators of the stripes consumed so far and, in its buffer, the bytes that follow them, and the 64 bytes before those when
  fewer than 64 are left.
\<close>

section \<open>Consuming stripes\<close>

lemma window_append: "i + 64 \<le> length xs \<Longrightarrow> window (xs @ ys) i = window xs i"
  by (simp add: window_def)

lemma stripes_acc_append: "64 * c \<le> length xs \<Longrightarrow> stripes_acc secret limit (xs @ ys) c = stripes_acc secret limit xs c"
  by (induction c) (simp_all add: window_append)

lemma consumeStripes:
  assumes g: "good_secret secret limit" and cov: "covers input i xs c m" and m: "m \<le> limit div 8"
  shows "XXH3_consumeStripes (stripes_acc secret limit xs c) (c mod (limit div 8)) (limit div 8) input i m secret limit =
    Some (stripes_acc secret limit xs (c + m), (c + m) mod (limit div 8))"
proof -
  define B where "B = limit div 8"
  have B: "0 < B" using good_secretD(1) [OF g] by (simp add: B_def)
  have lt: "c mod B < B" using B by simp
  show ?thesis
  proof (cases "B - c mod B \<le> m")
    case True
    define k where "k = B - c mod B"
    have k: "c mod B + k = B" "0 < k" "k \<le> m" using lt True by (simp_all add: k_def)
    have cov2: "covers input i xs c (k + (m - k))" using cov k(3) by simp
    obtain a where a: "XXH3_accumulate (stripes_acc secret limit xs c) input i secret (c mod B * 8) k = Some a"
        "XXH3_scrambleAcc a secret limit = Some (stripes_acc secret limit xs (c + k))"
      using accumulate_full [OF g covers_split(1) [OF cov2] k(1) [unfolded B_def]] by (auto simp: B_def bind_eq_Some_conv)
    have z: "(c + k) mod B = 0" using mod_add_full [OF B k(1)] .
    have s: "m - k < B" using k m lt by (simp add: B_def)
    have "XXH3_accumulate (stripes_acc secret limit xs (c + k)) input (i + k * 64) secret 0 (m - k) = Some (stripes_acc secret limit xs (c + m))"
      using accumulate_part [OF g covers_split(2) [OF cov2]] z s k(3) by (simp add: B_def mult.commute)
    moreover have "(c + m) mod B = m - k"
      using mod_add_below [OF B, of "c + k" "m - k"] z s k(3) by simp
    ultimately show ?thesis using a m lt True by (simp add: XXH3_consumeStripes_def k_def B_def)
  next
    case False
    then have "c mod B + m < B" by simp
    then show ?thesis using accumulate_part [OF g cov] mod_add_below [OF B, of c m] m lt False
      by (simp add: XXH3_consumeStripes_def B_def)
  qed
qed

lemma blocks:
  assumes g: "good_secret secret limit"
  shows "covers input i xs c n \<Longrightarrow> c mod (limit div 8) = 0 \<Longrightarrow>
    \<exists>k r. n = k + r \<and> r < limit div 8 \<and> (c + k) mod (limit div 8) = 0 \<and>
      XXH3_blocks input secret limit (limit div 8) (stripes_acc secret limit xs c) i n = Some (stripes_acc secret limit xs (c + k), i + 64 * k, r)"
proof (induction n arbitrary: i c rule: less_induct)
  case (less n)
  have B: "0 < limit div 8" using good_secretD(1) [OF g] by simp
  show ?case
  proof (cases "limit div 8 \<le> n")
    case True
    define m where "m = n - limit div 8"
    have n: "n = limit div 8 + m" "m < n" using True B by (simp_all add: m_def)
    have cov: "covers input i xs c (limit div 8 + m)" using less.prems(1) n(1) by simp
    have z: "(c + limit div 8) mod (limit div 8) = 0" using less.prems(2) by simp
    have cov2: "covers input (i + limit div 8 * 64) xs (c + limit div 8) m" using covers_split(2) [OF cov] by (simp add: mult.commute)
    obtain k r where kr: "m = k + r" "r < limit div 8" "(c + limit div 8 + k) mod (limit div 8) = 0"
        "XXH3_blocks input secret limit (limit div 8) (stripes_acc secret limit xs (c + limit div 8)) (i + limit div 8 * 64) m =
          Some (stripes_acc secret limit xs (c + limit div 8 + k), i + limit div 8 * 64 + 64 * k, r)"
      using less.IH [OF n(2) cov2 z] by (elim exE conjE) (rule that)
    obtain a where "XXH3_accumulate (stripes_acc secret limit xs c) input i secret 0 (limit div 8) = Some a"
        "XXH3_scrambleAcc a secret limit = Some (stripes_acc secret limit xs (c + limit div 8))"
      using accumulate_full [OF g covers_split(1) [OF cov]] less.prems(2) by (auto simp: bind_eq_Some_conv)
    then have "XXH3_blocks input secret limit (limit div 8) (stripes_acc secret limit xs c) i n =
        Some (stripes_acc secret limit xs (c + (limit div 8 + k)), i + 64 * (limit div 8 + k), r)"
      using kr(4) True by (subst XXH3_blocks.simps) (simp add: m_def algebra_simps)
    then show ?thesis using kr n by (intro exI [of _ "limit div 8 + k"] exI [of _ r]) (simp add: add.assoc)
  next
    case False
    then show ?thesis using less.prems(2) by (intro exI [of _ 0] exI [of _ n]) (subst XXH3_blocks.simps, simp)
  qed
qed

section \<open>Update\<close>

definition cfg :: "bytes \<Rightarrow> nat \<Rightarrow> XXH3_state \<Rightarrow> bool" where
  "cfg secret limit st \<longleftrightarrow> XXH3_secret st = secret \<and> secretLimit st = limit \<and> nbStripesPerBlock st = limit div 8 \<and> length (buffer st) = 256"

definition tail_ok :: "bytes \<Rightarrow> nat \<Rightarrow> nat \<Rightarrow> bytes \<Rightarrow> bool" where
  "tail_ok xs c b buf \<longleftrightarrow> (c \<noteq> 0 \<longrightarrow> b < 64 \<longrightarrow> drop (192 + b) buf = drop b (window xs (64 * c - 64)))"

definition follows :: "bytes \<Rightarrow> nat \<Rightarrow> bytes \<Rightarrow> nat \<Rightarrow> XXH3_state \<Rightarrow> bool" where
  "follows secret limit xs c st \<longleftrightarrow> cfg secret limit st \<and> acc3 st = stripes_acc secret limit xs c \<and> nbStripesSoFar st = c mod (limit div 8)"

definition streams :: "bytes \<Rightarrow> nat \<Rightarrow> bytes \<Rightarrow> nat \<Rightarrow> XXH3_state \<Rightarrow> bool" where
  "streams secret limit xs c st \<longleftrightarrow> follows secret limit xs c st \<and> totalLen st = of_nat (length xs) \<and>
     length xs = 64 * c + bufferedSize st \<and> bufferedSize st \<le> 256 \<and> (c \<noteq> 0 \<longrightarrow> 0 < bufferedSize st) \<and> (length xs \<le> 256 \<longrightarrow> c = 0) \<and>
     take (bufferedSize st) (buffer st) = drop (64 * c) xs \<and> tail_ok xs c (bufferedSize st) (buffer st)"

text \<open>What an update leaves alone.\<close>

definition frame :: "XXH3_state \<Rightarrow> XXH3_state \<Rightarrow> bool" where
  "frame st st' \<longleftrightarrow> extSecret st' = extSecret st \<and> customSecret st' = customSecret st \<and> useSeed st' = useSeed st \<and> seed3 st' = seed3 st \<and>
     totalLen st' = totalLen st \<and> bufferedSize st' = bufferedSize st"

lemma secret_upd [simp]:
  "XXH3_secret (st\<lparr>acc3 := a\<rparr>) = XXH3_secret st" "XXH3_secret (st\<lparr>nbStripesSoFar := n\<rparr>) = XXH3_secret st"
  "XXH3_secret (st\<lparr>buffer := buf\<rparr>) = XXH3_secret st" "XXH3_secret (st\<lparr>bufferedSize := n\<rparr>) = XXH3_secret st"
  "XXH3_secret (st\<lparr>totalLen := t\<rparr>) = XXH3_secret st" "XXH3_secret (st\<lparr>useSeed := u\<rparr>) = XXH3_secret st"
  by (simp_all add: XXH3_secret_def split: option.split)

lemma consume_state:
  assumes g: "good_secret secret limit" and f: "follows secret limit xs c st" and cov: "covers input i xs c m" and m: "m \<le> limit div 8"
  shows "\<exists>st'. XXH3_consume_state st input i m = Some st' \<and> follows secret limit xs (c + m) st' \<and> frame st st' \<and> buffer st' = buffer st"
  using consumeStripes [OF g cov m] f by (auto simp: XXH3_consume_state_def follows_def cfg_def frame_def)

lemma covers_suffix: "64 * c = length xs + p \<Longrightarrow> p + 64 * m \<le> length ys \<Longrightarrow> covers ys p (xs @ ys) c m"
  by (simp add: covers_def algebra_simps)

lemma window_suffix: "64 * c = length xs + p \<Longrightarrow> 64 \<le> p \<Longrightarrow> window (xs @ ys) (64 * c - 64) = window ys (p - 64)"
  by (simp add: window_def)

lemma save_tail:
  assumes "cfg secret limit st" "64 * c = length xs + p" "64 \<le> p" "p \<le> length ys"
  shows "\<exists>buf. XXH3_save_tail st ys p = Some (st\<lparr>buffer := buf\<rparr>) \<and> length buf = 256 \<and> drop 192 buf = window (xs @ ys) (64 * c - 64)"
  using assms window_suffix [OF assms(2,3), of ys]
  by (auto simp: XXH3_save_tail_def cfg_def memcpy_ok assert_def window_def)


text \<open>The state between the parts of an update: \<open>c\<close> stripes consumed, the input read up to \<open>p\<close>.\<close>

definition midway :: "bytes \<Rightarrow> nat \<Rightarrow> bytes \<Rightarrow> bytes \<Rightarrow> nat \<Rightarrow> nat \<Rightarrow> XXH3_state \<Rightarrow> bool" where
  "midway secret limit xs ys c p st \<longleftrightarrow> follows secret limit (xs @ ys) c st \<and> 64 * c = length xs + p \<and> p < length ys \<and> bufferedSize st = 0"

lemma fill:
  assumes g: "good_secret secret limit" and st: "streams secret limit xs c0 st" and n: "256 < bufferedSize st + length ys"
  shows "\<exists>st' c p. XXH3_fill (st\<lparr>totalLen := t\<rparr>) ys = Some (st', p) \<and> midway secret limit xs ys c p st' \<and> tail_ok (xs @ ys) c 0 (buffer st') \<and>
    frame (st\<lparr>totalLen := t, bufferedSize := 0\<rparr>) st'"
proof (cases "bufferedSize st = 0")
  case True
  then have "c0 = 0" "xs = []" using st by (auto simp: streams_def)
  then show ?thesis using True st n
    by (intro exI [of _ "st\<lparr>totalLen := t\<rparr>"] exI [of _ 0]) (auto simp: XXH3_fill_def midway_def streams_def follows_def cfg_def frame_def tail_ok_def)
next
  case False
  define b where "b = bufferedSize st"
  define buf where "buf = take b (buffer st) @ take (256 - b) ys"
  define st1 where "st1 = st\<lparr>totalLen := t, buffer := buf\<rparr>"
  have b: "0 < b" "b \<le> 256" "length (buffer st) = 256" "length xs = 64 * c0 + b" "take b (buffer st) = drop (64 * c0) xs"
    using st False by (auto simp: streams_def b_def follows_def cfg_def)
  have cp: "XXH_memcpy (buffer st) b ys 0 (256 - b) = Some buf" using b n by (simp add: memcpy_ok buf_def b_def)
  have lb: "length buf = 256" using b n by (simp add: buf_def b_def)
  have bx: "buf = take 256 (drop (64 * c0) (xs @ ys))" using b by (simp add: buf_def)
  have cov: "covers buf 0 (xs @ ys) c0 4" using lb b n by (simp add: covers_def bx b_def [symmetric])
  have "follows secret limit (xs @ ys) c0 st1"
    using st b lb by (auto simp: streams_def follows_def cfg_def st1_def stripes_acc_append)
  from consume_state [OF g this cov] good_secretD(1) [OF g] obtain st2 where
    st2: "XXH3_consume_state st1 buf 0 4 = Some st2" "follows secret limit (xs @ ys) (c0 + 4) st2" "frame st1 st2" "buffer st2 = buf"
    by (auto simp: st1_def)
  have "drop 192 (take 256 (drop j zs)) = window zs (j + 192)" for j and zs :: bytes
    by (simp add: window_def drop_take add.commute)
  from this [of "64 * c0" "xs @ ys"] have "drop 192 buf = window (xs @ ys) (64 * c0 + 192)" unfolding bx .
  then have "tail_ok (xs @ ys) (c0 + 4) 0 buf" by (simp add: tail_ok_def algebra_simps)
  then show ?thesis using st2 False cp b n
    by (intro exI [of _ "st2\<lparr>bufferedSize := 0\<rparr>"] exI [of _ "c0 + 4"] exI [of _ "256 - b"])
      (auto simp: XXH3_fill_def midway_def follows_def cfg_def frame_def st1_def b_def Let_def)
qed

lemma ingest_blocks:
  assumes g: "good_secret secret limit" and st: "midway secret limit xs ys c p st" and n: "64 * (limit div 8) < length ys - p"
  shows "\<exists>st' c' p'. XXH3_ingest_blocks st ys (length ys) p = Some (st', p') \<and> midway secret limit xs ys c' p' st' \<and>
    tail_ok (xs @ ys) c' 0 (buffer st') \<and> length ys - p' \<le> 256 \<and> frame st st'"
proof -
  define B where "B = limit div 8"
  have B: "0 < B" using good_secretD(1) [OF g] by (simp add: B_def)
  define N where "N = (length ys - 1 - p) div 64"
  define e where "e = B - c mod B"
  have lt: "c mod B < B" using B by simp
  have "64 * B \<le> length ys - 1 - p" using n by (simp add: B_def)
  from div_le_mono [OF this, of 64] have NB: "B \<le> N" by (simp add: N_def)
  have e: "c mod B + e = B" "0 < e" "e \<le> N" using lt NB by (simp_all add: e_def)
  have cp: "64 * c = length xs + p" "p < length ys" using st by (simp_all add: midway_def)
  have N: "p + 64 * N < length ys" "length ys \<le> p + 64 * N + 64"
    using times_div_less_eq_dividend [of 64 "length ys - 1 - p"] mod_less_divisor [of 64 "length ys - 1 - p"]
      mult_div_mod_eq [of 64 "length ys - 1 - p"] cp(2) unfolding N_def by linarith+
  have covN: "covers ys p (xs @ ys) c (e + (N - e))" using covers_suffix [OF cp(1), of N ys] N(1) e(3) by simp
  obtain a where a: "XXH3_accumulate (stripes_acc secret limit (xs @ ys) c) ys p secret (c mod B * 8) e = Some a"
      "XXH3_scrambleAcc a secret limit = Some (stripes_acc secret limit (xs @ ys) (c + e))"
    using accumulate_full [OF g covers_split(1) [OF covN] e(1) [unfolded B_def]] by (auto simp: B_def bind_eq_Some_conv)
  have z: "(c + e) mod B = 0" by (rule mod_add_full [OF B e(1)])
  obtain k r where kr: "N - e = k + r" "r < B" "(c + e + k) mod B = 0"
      "XXH3_blocks ys secret limit B (stripes_acc secret limit (xs @ ys) (c + e)) (p + 64 * e) (N - e) =
        Some (stripes_acc secret limit (xs @ ys) (c + e + k), p + 64 * e + 64 * k, r)"
    using blocks [OF g covers_split(2) [OF covN] z [unfolded B_def], folded B_def] by (elim exE conjE) (rule that)
  have Ne: "N = e + k + r" using kr(1) e(3) by simp
  have "covers ys (p + 64 * e) (xs @ ys) (c + e) (k + r)" using covers_split(2) [OF covN] kr(1) by simp
  from covers_split(2) [OF this] have "covers ys (p + 64 * e + 64 * k) (xs @ ys) (c + e + k) r" .
  from accumulate_part [OF g this] have
    l: "XXH3_accumulate (stripes_acc secret limit (xs @ ys) (c + e + k)) ys (p + 64 * e + 64 * k) secret 0 r = Some (stripes_acc secret limit (xs @ ys) (c + N))"
    using kr(2,3) by (simp add: B_def Ne add.assoc)
  have cN: "64 * (c + N) = length xs + (p + 64 * N)" using cp by simp
  define st1 where "st1 = st\<lparr>acc3 := stripes_acc secret limit (xs @ ys) (c + N), nbStripesSoFar := r\<rparr>"
  have s1: "follows secret limit (xs @ ys) (c + N) st1"
    using st mod_add_below [OF B, of "c + e + k" r] kr(2,3) by (auto simp: st1_def midway_def follows_def cfg_def B_def Ne add.assoc)
  obtain buf where buf: "XXH3_save_tail st1 ys (p + 64 * N) = Some (st1\<lparr>buffer := buf\<rparr>)" "length buf = 256"
      "drop 192 buf = window (xs @ ys) (64 * (c + N) - 64)"
    using save_tail [of secret limit st1 "c + N" xs "p + 64 * N" ys] s1 cN N(1) e by (auto simp: follows_def)
  have p: "p + 64 * e + 64 * k + r * 64 = p + 64 * N" "length ys - Suc p = length ys - 1 - p" using Ne by simp_all
  have "XXH3_ingest_blocks st ys (length ys) p = Some (st1\<lparr>buffer := buf\<rparr>, p + 64 * N)"
    using st a kr(4) l buf(1) N e lt unfolding XXH3_ingest_blocks_def Let_def N_def [symmetric]
    by (simp add: midway_def follows_def cfg_def B_def [symmetric] e_def [symmetric] mult.commute [of e] st1_def [symmetric] p(1) assert_def)
  moreover have "midway secret limit xs ys (c + N) (p + 64 * N) (st1\<lparr>buffer := buf\<rparr>)"
    using s1 st cN N(1) buf(2) by (auto simp: midway_def follows_def cfg_def st1_def)
  moreover have "frame st (st1\<lparr>buffer := buf\<rparr>)" by (simp add: frame_def st1_def)
  ultimately show ?thesis using buf(3) N(2)
    by (intro exI [of _ "st1\<lparr>buffer := buf\<rparr>"] exI [of _ "c + N"] exI [of _ "p + 64 * N"]) (auto simp: tail_ok_def)
qed

lemma buffers:
  assumes g: "good_secret secret limit"
  shows "midway secret limit xs ys c p st \<Longrightarrow> p < limit' \<Longrightarrow> limit' = length ys - 256 \<Longrightarrow>
    \<exists>st' c' p'. XXH3_buffers st ys limit' p = Some (st', p') \<and> midway secret limit xs ys c' p' st' \<and>
      256 \<le> p' \<and> length ys - p' \<le> 256 \<and> frame st st'"
proof (induction st ys limit' p arbitrary: c rule: XXH3_buffers.induct)
  case (1 st ys limit' p)
  have cov: "covers ys p (xs @ ys) c 4" using 1(2-4) by (intro covers_suffix) (auto simp: midway_def)
  from consume_state [OF g _ cov, of st] 1(2) good_secretD(1) [OF g] obtain st2 where
    st2: "XXH3_consume_state st ys p 4 = Some st2" "follows secret limit (xs @ ys) (c + 4) st2" "frame st st2"
    by (auto simp: midway_def)
  have m: "midway secret limit xs ys (c + 4) (p + 256) st2" using 1(2-4) st2 by (auto simp: midway_def frame_def)
  show ?case
  proof (cases "p + 256 < limit'")
    case True
    from 1(1) [OF st2(1) refl True m True 1(4)] obtain st' c' p' where
      r: "XXH3_buffers st2 ys limit' (p + 256) = Some (st', p')" "midway secret limit xs ys c' p' st'"
        "256 \<le> p'" "length ys - p' \<le> 256" "frame st2 st'" by blast
    have "XXH3_buffers st ys limit' p = Some (st', p')" using st2(1) r(1) True by (subst XXH3_buffers.simps) (simp add: Let_def)
    moreover have "frame st st'" using st2(3) r(5) by (simp add: frame_def)
    ultimately show ?thesis using r by blast
  next
    case False
    then have "XXH3_buffers st ys limit' p = Some (st2, p + 256)" using st2(1) by (subst XXH3_buffers.simps) (simp add: Let_def)
    with False m st2(3) 1(4) show ?thesis by (intro exI [of _ st2] exI [of _ "c + 4"] exI [of _ "p + 256"]) auto
  qed
qed

lemma ingest_buffers:
  assumes g: "good_secret secret limit" and st: "midway secret limit xs ys c p st" "tail_ok (xs @ ys) c 0 (buffer st)"
  shows "\<exists>st' c' p'. XXH3_ingest_buffers st ys (length ys) p = Some (st', p') \<and> midway secret limit xs ys c' p' st' \<and>
    tail_ok (xs @ ys) c' 0 (buffer st') \<and> length ys - p' \<le> 256 \<and> frame st st'"
proof (cases "256 < length ys - p")
  case True
  then have "p < length ys - 256" by simp
  then obtain st1 c' p' where r: "XXH3_buffers st ys (length ys - 256) p = Some (st1, p')" "midway secret limit xs ys c' p' st1"
      "256 \<le> p'" "length ys - p' \<le> 256" "frame st st1"
    using buffers [OF g st(1), of "length ys - 256"] by auto
  obtain buf where "XXH3_save_tail st1 ys p' = Some (st1\<lparr>buffer := buf\<rparr>)" "length buf = 256" "drop 192 buf = window (xs @ ys) (64 * c' - 64)"
    using save_tail [of secret limit st1 c' xs p' ys] r(2,3) by (auto simp: midway_def follows_def)
  with r True show ?thesis
    by (intro exI [of _ "st1\<lparr>buffer := buf\<rparr>"] exI [of _ c'] exI [of _ p'])
      (auto simp: XXH3_ingest_buffers_def midway_def follows_def cfg_def frame_def tail_ok_def)
qed (use st in \<open>auto simp: XXH3_ingest_buffers_def frame_def\<close>)


lemma update_small:
  assumes st: "streams secret limit xs c st" and n: "bufferedSize st + length ys \<le> 256"
  shows "\<exists>st'. XXH3_update st (Some ys) (length ys) = Some (XXH_OK, st') \<and> streams secret limit (xs @ ys) c st' \<and>
    frame (st\<lparr>totalLen := totalLen st', bufferedSize := bufferedSize st'\<rparr>) st'"
proof -
  define b where "b = bufferedSize st"
  have b: "length (buffer st) = 256" "length xs = 64 * c + b" "take b (buffer st) = drop (64 * c) xs" "tail_ok xs c b (buffer st)"
    using st by (auto simp: streams_def b_def follows_def cfg_def)
  define buf where "buf = take b (buffer st) @ ys @ drop (b + length ys) (buffer st)"
  define st' where "st' = st\<lparr>totalLen := totalLen st + of_nat (length ys), buffer := buf, bufferedSize := b + length ys\<rparr>"
  have "XXH_memcpy (buffer st) b ys 0 (length ys) = Some buf" using b n by (simp add: memcpy_ok buf_def b_def)
  then have "XXH3_update st (Some ys) (length ys) = Some (XXH_OK, st')"
    using n by (simp add: XXH3_update_def st'_def b_def Let_def assert_def)
  moreover have "tail_ok (xs @ ys) c (b + length ys) buf"
    unfolding tail_ok_def
  proof (intro impI)
    assume c: "c \<noteq> 0" "b + length ys < 64"
    then have "drop (192 + b) (buffer st) = drop b (window xs (64 * c - 64))" using b(4) by (simp add: tail_ok_def)
    from arg_cong [OF this, of "drop (length ys)"] have "drop (192 + b + length ys) (buffer st) = drop (b + length ys) (window xs (64 * c - 64))"
      by (simp add: add.commute add.left_commute)
    moreover have "window (xs @ ys) (64 * c - 64) = window xs (64 * c - 64)" using b(2) c by (intro window_append) simp
    ultimately show "drop (192 + (b + length ys)) buf = drop (b + length ys) (window (xs @ ys) (64 * c - 64))"
      using b n by (simp add: buf_def b_def add.assoc)
  qed
  moreover have "take (b + length ys) buf = drop (64 * c) (xs @ ys)" "length buf = 256" using b n by (simp_all add: buf_def b_def)
  ultimately show ?thesis using st b n
    by (intro exI [of _ st']) (auto simp: streams_def follows_def cfg_def st'_def b_def frame_def stripes_acc_append)
qed

lemma update_large:
  assumes g: "good_secret secret limit" and st: "streams secret limit xs c0 st" and n: "256 < bufferedSize st + length ys"
  shows "\<exists>st' c. XXH3_update st (Some ys) (length ys) = Some (XXH_OK, st') \<and> streams secret limit (xs @ ys) c st' \<and>
    frame (st\<lparr>totalLen := totalLen st', bufferedSize := bufferedSize st'\<rparr>) st'"
proof -
  define t where "t = totalLen st + of_nat (length ys)"
  obtain st1 c1 p1 where 1: "XXH3_fill (st\<lparr>totalLen := t\<rparr>) ys = Some (st1, p1)" "midway secret limit xs ys c1 p1 st1"
      "tail_ok (xs @ ys) c1 0 (buffer st1)" "frame (st\<lparr>totalLen := t, bufferedSize := 0\<rparr>) st1"
    using fill [OF g st n, of t] by blast
  have B: "nbStripesPerBlock st1 = limit div 8" using 1(2) by (simp add: midway_def follows_def cfg_def)
  obtain st2 c2 p2 where 2: "(if nbStripesPerBlock st1 * 64 < length ys - p1 then XXH3_ingest_blocks st1 ys (length ys) p1
        else XXH3_ingest_buffers st1 ys (length ys) p1) = Some (st2, p2)"
      "midway secret limit xs ys c2 p2 st2" "tail_ok (xs @ ys) c2 0 (buffer st2)" "length ys - p2 \<le> 256" "frame st1 st2"
    using ingest_blocks [OF g 1(2)] ingest_buffers [OF g 1(2,3)]
    by (cases "64 * (limit div 8) < length ys - p1") (auto simp: B mult.commute)
  define r buf where "r = length ys - p2" and "buf = drop p2 ys @ drop r (buffer st2)"
  define st' where "st' = st2\<lparr>buffer := buf, bufferedSize := r\<rparr>"
  have p2: "p2 < length ys" "64 * c2 = length xs + p2" "length (buffer st2) = 256" "bufferedSize st2 = 0" "p1 < length ys" "bufferedSize st \<le> 256"
    using 1(2) 2(2) st by (auto simp: midway_def follows_def cfg_def streams_def)
  have "XXH_memcpy (buffer st2) 0 ys p2 r = Some buf" using p2 2(4) by (simp add: memcpy_ok buf_def r_def)
  then have "XXH3_update st (Some ys) (length ys) = Some (XXH_OK, st')"
    unfolding XXH3_update_def option.case Let_def t_def [symmetric] using n p2 1(1) 2(1,4)
    by (simp add: st'_def assert_def r_def [symmetric])
  moreover have "tail_ok (xs @ ys) c2 r buf"
    unfolding tail_ok_def
  proof (intro impI)
    assume c: "c2 \<noteq> 0" "r < 64"
    then have "drop 192 (buffer st2) = window (xs @ ys) (64 * c2 - 64)" using 2(3) by (simp add: tail_ok_def)
    from arg_cong [OF this, of "drop r"] show "drop (192 + r) buf = drop r (window (xs @ ys) (64 * c2 - 64))"
      using p2 c by (simp add: buf_def r_def add.commute)
  qed
  moreover have "take r buf = drop (64 * c2) (xs @ ys)" "length buf = 256" using p2 2(4) by (simp_all add: buf_def r_def)
  moreover have "256 < length (xs @ ys)" using st n by (auto simp: streams_def)
  ultimately show ?thesis using st p2 1(4) 2(2,4,5)
    by (intro exI [of _ st'] exI [of _ c2]) (auto simp: streams_def midway_def follows_def cfg_def st'_def r_def frame_def t_def)
qed


lemma update_streams:
  assumes "good_secret secret limit" "streams secret limit xs c0 st"
  shows "\<exists>st' c. XXH3_update st (Some ys) (length ys) = Some (XXH_OK, st') \<and> streams secret limit (xs @ ys) c st' \<and>
    frame (st\<lparr>totalLen := totalLen st', bufferedSize := bufferedSize st'\<rparr>) st'"
  using update_small [OF assms(2), of ys] update_large [OF assms, of ys] by (meson not_less)

section \<open>Digest\<close>

lemma div_split: "64 * c + b = n \<Longrightarrow> 0 < b \<Longrightarrow> c + (b - 1) div 64 = (n - 1) div (64 :: nat)"
proof -
  assume a: "64 * c + b = n" "0 < b"
  then have "n - 1 = (b - 1) + c * 64" by simp
  then show ?thesis by simp
qed

lemma last_bytes:
  assumes "64 * c + b = length xs" "0 < c" "b \<le> 64"
  shows "drop b (window xs (64 * c - 64)) @ drop (64 * c) xs = drop (length xs - 64) xs"
proof -
  obtain d where d: "64 * c = d + 64" using assms(2) by (cases c) auto
  have "drop b (take 64 ys) @ drop 64 ys = drop b ys" if "64 \<le> length ys" for ys :: bytes
    using assms(3) that drop_append [of b "take 64 ys" "drop 64 ys"] by simp
  from this [of "drop d xs"] have "drop b (window xs (64 * c - 64)) @ drop (64 * c) xs = drop (b + d) xs"
    using assms(1) d by (simp add: window_def add.commute)
  moreover have "length xs - 64 = b + d" using assms(1) d by simp
  ultimately show ?thesis by simp
qed

lemma digest_long:
  assumes g: "good_secret secret limit" and st: "streams secret limit xs c st" and n: "64 < length xs"
  shows "XXH3_digest_long st secret = Some (long_acc secret limit xs)"
proof -
  define b buf where "b = bufferedSize st" and "buf = buffer st"
  have b: "length buf = 256" "b \<le> 256" "64 * c + b = length xs" "take b buf = drop (64 * c) xs" "c \<noteq> 0 \<longrightarrow> 0 < b"
    and cf: "secretLimit st = limit" "nbStripesPerBlock st = limit div 8" "acc3 st = stripes_acc secret limit xs c" "nbStripesSoFar st = c mod (limit div 8)"
    using st by (auto simp: streams_def b_def buf_def follows_def cfg_def)
  have pos: "0 < b" using b n by (cases "c = 0") auto
  note c' = div_split [OF b(3) pos]
  show ?thesis
  proof (cases "64 \<le> b")
    case True
    define m where "m = (b - 1) div 64"
    have "64 * m \<le> b - 1" unfolding m_def by (rule times_div_less_eq_dividend)
    moreover have "m \<le> 255 div 64" unfolding m_def using b(2) by (intro div_le_mono) simp
    ultimately have m: "64 * m \<le> b" "m \<le> limit div 8" using good_secretD(1) [OF g] by simp_all
    have "take (64 * m) buf = take (64 * m) (take b buf)" using m by (simp add: min_def)
    then have cov: "covers buf 0 xs c m" using b m by (simp add: covers_def)
    have "window buf (b - 64) = drop (b - 64) (take b buf)" using True by (simp add: window_def drop_take)
    also have "\<dots> = drop (length xs - 64) xs" using b(3) True unfolding b(4) by (simp add: add.commute)
    also have "\<dots> = window xs (length xs - 64)" using n by (simp add: window_def)
    finally have "XXH3_accumulate_512 (stripes_acc secret limit xs (c + m)) buf (b - 64) secret (limit - 7) = Some (long_acc secret limit xs)"
      using last_stripe(1) [OF g, of xs "b - 64" buf, folded c', folded m_def] n True b(1,2) by simp
    then show ?thesis unfolding XXH3_digest_long_def Let_def cf b_def [symmetric] buf_def [symmetric] m_def [symmetric]
      using True consumeStripes [OF g cov m(2)] by simp
  next
    case False
    then have "(b - 1) div 64 = 0" by simp
    then have c: "0 < c" "(length xs - 1) div 64 = c" using b(3) n c' False by (cases "c = 0"; simp)+
    define l where "l = drop (192 + b) buf @ take b buf"
    have "drop (192 + b) buf = drop b (window xs (64 * c - 64))"
      using st c(1) False by (auto simp: streams_def tail_ok_def b_def buf_def)
    then have "l = drop (length xs - 64) xs" using last_bytes [OF b(3) c(1)] False b(4) by (simp add: l_def)
    then have "window l 0 = window xs (length xs - 64)" "length l = 64" using n by (simp_all add: window_def)
    then have a: "XXH3_accumulate_512 (stripes_acc secret limit xs c) l 0 secret (limit - 7) = Some (long_acc secret limit xs)"
      using last_stripe(1) [OF g, of xs 0 l, unfolded c(2)] n by simp
    have "XXH_memcpy (replicate 64 0) 0 buf (256 - (64 - b)) (64 - b) = Some (drop (192 + b) buf @ replicate b 0)"
      using b(1) False by (simp add: memcpy_ok)
    moreover have "XXH_memcpy (drop (192 + b) buf @ replicate b 0) (64 - b) buf 0 b = Some l"
      using b(1) False by (simp add: memcpy_ok l_def)
    ultimately show ?thesis unfolding XXH3_digest_long_def Let_def cf b_def [symmetric] buf_def [symmetric] b(1)
      using a False pos by (simp add: assert_def)
  qed
qed

end
