(* ===== verification/Xxh3_Sessions.thy ===== *)
theory Xxh3_Sessions
  imports Xxh3_Update
begin

text \<open>
  Sessions of the streaming interface of XXH3: what a state holds after any sequence of resets, updates and copies, and that its digests
  are those of the one-shot functions.
\<close>

section \<open>Modes\<close>

text \<open>The four ways to seed the hash, with the function that resets a state for each and the one-shot functions it corresponds to.\<close>

datatype xxh3_mode = Plain | WithSecret bytes nat | WithSeed u64 | WithSecretandSeed bytes nat u64

fun mode_reset :: "xxh3_mode \<Rightarrow> XXH3_state option \<Rightarrow> (XXH_errorcode \<times> XXH3_state option) option" where
  "mode_reset Plain st = XXH3_64bits_reset st"
| "mode_reset (WithSecret secret n) st = XXH3_64bits_reset_withSecret st (Some secret) n"
| "mode_reset (WithSeed seed) st = XXH3_64bits_reset_withSeed st seed"
| "mode_reset (WithSecretandSeed secret n seed) st = XXH3_64bits_reset_withSecretandSeed st (Some secret) n seed"

fun mode_hash64 :: "xxh3_mode \<Rightarrow> bytes \<Rightarrow> u64 option" where
  "mode_hash64 Plain xs = XXH3_64bits xs (length xs)"
| "mode_hash64 (WithSecret secret n) xs = XXH3_64bits_withSecret xs (length xs) secret n"
| "mode_hash64 (WithSeed seed) xs = XXH3_64bits_withSeed xs (length xs) seed"
| "mode_hash64 (WithSecretandSeed secret n seed) xs = XXH3_64bits_withSecretandSeed xs (length xs) secret n seed"

fun mode_hash128 :: "xxh3_mode \<Rightarrow> bytes \<Rightarrow> XXH128_hash_t option" where
  "mode_hash128 Plain xs = XXH3_128bits xs (length xs)"
| "mode_hash128 (WithSecret secret n) xs = XXH3_128bits_withSecret xs (length xs) secret n"
| "mode_hash128 (WithSeed seed) xs = XXH3_128bits_withSeed xs (length xs) seed"
| "mode_hash128 (WithSecretandSeed secret n seed) xs = XXH3_128bits_withSecretandSeed xs (length xs) secret n seed"

text \<open>The documented requirement on secrets.\<close>

fun mode_ok :: "xxh3_mode \<Rightarrow> bool" where
  "mode_ok (WithSecret secret n) \<longleftrightarrow> 136 \<le> n \<and> n \<le> length secret"
| "mode_ok (WithSecretandSeed secret n seed) \<longleftrightarrow> 136 \<le> n \<and> n \<le> length secret"
| "mode_ok _ \<longleftrightarrow> True"

inductive xxh3_session :: "(xxh3_mode \<times> bytes) option \<Rightarrow> XXH3_state \<Rightarrow> bool" where
  create: "length (customSecret st) = 192 \<Longrightarrow> length (buffer st) = 256 \<Longrightarrow> xxh3_session None (XXH3_INITSTATE st)"
| reset: "xxh3_session s st \<Longrightarrow> mode_ok mode \<Longrightarrow> mode_reset mode (Some st) = Some (XXH_OK, Some st') \<Longrightarrow> xxh3_session (Some (mode, [])) st'"
| update: "xxh3_session (Some (mode, xs)) st \<Longrightarrow> XXH3_64bits_update st (Some ys) (length ys) = Some (XXH_OK, st') \<Longrightarrow>
    xxh3_session (Some (mode, xs @ ys)) st'"
| copy: "xxh3_session s st \<Longrightarrow> xxh3_session s (XXH3_copyState dst st)"

section \<open>The seeded secret\<close>

definition seeded :: "u64 \<Rightarrow> bytes" where
  "seeded seed = the (XXH3_initCustomSecret (replicate 192 0) seed)"

definition seeded16 :: "u64 \<Rightarrow> nat \<Rightarrow> bytes" where
  "seeded16 seed i = native64 True (the (XXH_readLE64 XXH3_kSecret (16 * i)) + seed) @ native64 True (the (XXH_readLE64 XXH3_kSecret (16 * i + 8)) - seed)"

lemma length_kSecret [simp]: "length XXH3_kSecret = 192"
  by (simp add: XXH3_kSecret_def)

lemma length_seeded16: "length (concat (map (seeded16 seed) [0..<k])) = 16 * k"
  by (induction k) (simp_all add: seeded16_def native64_def)

lemma initCustomSecret:
  assumes "length cs = 192"
  shows "XXH3_initCustomSecret cs seed = Some (concat (map (seeded16 seed) [0..<12]))"
proof -
  have "k \<le> 12 \<Longrightarrow> for_each (\<lambda>customSecret i. do {
        lo \<leftarrow> XXH_readLE64 XXH3_kSecret (16 * i);
        let lo = lo + seed;
        hi \<leftarrow> XXH_readLE64 XXH3_kSecret (16 * i + 8);
        let hi = hi - seed;
        customSecret \<leftarrow> XXH_writeLE64 True customSecret (16 * i) lo;
        XXH_writeLE64 True customSecret (16 * i + 8) hi }) [0..<k] cs = Some (concat (map (seeded16 seed) [0..<k]) @ drop (16 * k) cs)" for k
  proof (induction k)
    case (Suc k)
    define ws where "ws = concat (map (seeded16 seed) [0..<k])"
    have ws: "length ws = 16 * k" by (simp add: ws_def length_seeded16)
    obtain a b where ab: "XXH_readLE64 XXH3_kSecret (16 * k) = Some a" "XXH_readLE64 XXH3_kSecret (16 * k + 8) = Some b"
      using Suc.prems by (simp add: readLE64_window)
    have l8: "length (native64 True v) = 8" for v by (simp add: native64_def)
    have "XXH_writeLE64 True (ws @ drop (16 * k) cs) (16 * k) v = Some (ws @ native64 True v @ drop (16 * k + 8) cs)" for v
      using Suc.prems assms ws by (simp add: writeLE64_window memcpy_ok l8 add.commute)
    moreover have "XXH_writeLE64 True (ws @ native64 True u @ drop (16 * k + 8) cs) (16 * k + 8) v =
        Some (ws @ native64 True u @ native64 True v @ drop (16 * k + 16) cs)" for u v
      using Suc.prems assms ws by (simp add: writeLE64_window memcpy_ok l8 add.commute)
    moreover have "seeded16 seed k = native64 True (a + seed) @ native64 True (b - seed)" using ab by (simp add: seeded16_def)
    then have "concat (map (seeded16 seed) [0..<Suc k]) = ws @ native64 True (a + seed) @ native64 True (b - seed)" by (simp add: ws_def)
    ultimately show ?case using Suc ab unfolding for_each_upt ws_def [symmetric] by (simp add: add.commute)
  qed simp
  from this [of 12] show ?thesis using assms unfolding XXH3_initCustomSecret_def by simp
qed

lemma seeded: "length cs = 192 \<Longrightarrow> XXH3_initCustomSecret cs seed = Some (seeded seed)" "length (seeded seed) = 192"
proof -
  have e: "seeded seed = concat (map (seeded16 seed) [0..<12])" by (simp add: seeded_def initCustomSecret del: upt_conv_Cons)
  show "length cs = 192 \<Longrightarrow> XXH3_initCustomSecret cs seed = Some (seeded seed)" by (simp add: initCustomSecret e del: upt_conv_Cons)
  show "length (seeded seed) = 192" unfolding e length_seeded16 by simp
qed

section \<open>The invariant of a session\<close>

fun mode_secret :: "xxh3_mode \<Rightarrow> bytes \<times> nat" where
  "mode_secret Plain = (XXH3_kSecret, 192)"
| "mode_secret (WithSecret secret n) = (secret, n)"
| "mode_secret (WithSeed seed) = (if seed = 0 then XXH3_kSecret else seeded seed, 192)"
| "mode_secret (WithSecretandSeed secret n seed) = (secret, n)"

fun mode_seed :: "xxh3_mode \<Rightarrow> u64" where
  "mode_seed (WithSeed seed) = seed"
| "mode_seed (WithSecretandSeed secret n seed) = seed"
| "mode_seed _ = 0"

fun mode_useSeed :: "xxh3_mode \<Rightarrow> bool" where
  "mode_useSeed (WithSecretandSeed secret n seed) \<longleftrightarrow> True"
| "mode_useSeed mode \<longleftrightarrow> mode_seed mode \<noteq> 0"

definition raw_ok :: "XXH3_state \<Rightarrow> bool" where
  "raw_ok st \<longleftrightarrow> length (customSecret st) = 192 \<and> length (buffer st) = 256 \<and>
     (extSecret st = None \<longrightarrow> seed3 st \<noteq> 0 \<longrightarrow> customSecret st = seeded (seed3 st))"

definition running :: "xxh3_mode \<Rightarrow> bytes \<Rightarrow> XXH3_state \<Rightarrow> bool" where
  "running mode xs st \<longleftrightarrow> mode_ok mode \<and> raw_ok st \<and> seed3 st = mode_seed mode \<and> useSeed st = mode_useSeed mode \<and>
     (\<exists>c. streams (fst (mode_secret mode)) (snd (mode_secret mode) - 64) xs c st)"

lemma mode_good: "mode_ok mode \<Longrightarrow> good_secret (fst (mode_secret mode)) (snd (mode_secret mode) - 64)"
  by (cases mode) (auto simp: good_secret_def seeded(2))

lemma mode_size: "mode_ok mode \<Longrightarrow> 136 \<le> snd (mode_secret mode) \<and> snd (mode_secret mode) \<le> length (fst (mode_secret mode))"
  by (cases mode) (auto simp: seeded(2))

lemma reset_internal:
  assumes "raw_ok st" "136 \<le> n"
  shows "\<exists>st'. XXH3_reset_internal st seed secret n = Some st' \<and> extSecret st' = secret \<and> customSecret st' = customSecret st \<and>
    seed3 st' = seed \<and> useSeed st' = (seed \<noteq> 0) \<and> streams (case secret of None \<Rightarrow> customSecret st | Some s \<Rightarrow> s) (n - 64) [] 0 st'"
  using assms by (auto simp: XXH3_reset_internal_def assert_def Let_def streams_def follows_def cfg_def raw_ok_def tail_ok_def XXH3_secret_def
      split: option.split)

lemma streams_useSeed: "streams secret limit xs c (st\<lparr>useSeed := u\<rparr>) = streams secret limit xs c st"
  by (simp add: streams_def follows_def cfg_def)

lemma running_intro:
  assumes "raw_ok st" "mode_ok mode" "customSecret st' = customSecret st" "seed3 st' = mode_seed mode" "useSeed st' = mode_useSeed mode"
    "streams (fst (mode_secret mode)) (snd (mode_secret mode) - 64) [] 0 st'" "extSecret st' = None \<longrightarrow> customSecret st = seeded (seed3 st')"
  shows "running mode [] st'"
  using assms by (auto simp: running_def raw_ok_def streams_def follows_def cfg_def)

lemma reset_running:
  assumes r: "raw_ok st" and m: "mode_ok mode"
  shows "\<exists>st'. mode_reset mode (Some st) = Some (XXH_OK, Some st') \<and> running mode [] st'"
proof -
  have plain: "\<exists>st'. XXH3_64bits_reset (Some st) = Some (XXH_OK, Some st') \<and> running Plain [] st' \<and> running (WithSeed 0) [] st'"
    using reset_internal [OF r, of 192 0 "Some XXH3_kSecret"] r
    by (auto simp: XXH3_64bits_reset_def intro!: running_intro [OF r])
  show ?thesis
  proof (cases mode)
    case Plain
    then show ?thesis using plain by auto
  next
    case (WithSecret secret n)
    then show ?thesis using reset_internal [OF r, of n 0 "Some secret"] m
      by (auto simp: XXH3_64bits_reset_withSecret_def intro!: running_intro [OF r])
  next
    case (WithSeed seed)
    show ?thesis
    proof (cases "seed = 0")
      case True
      then show ?thesis using plain WithSeed by (auto simp: XXH3_64bits_reset_withSeed_def)
    next
      case False
      define st1 where "st1 = st\<lparr>customSecret := seeded seed\<rparr>"
      have r1: "raw_ok (st1\<lparr>seed3 := seed\<rparr>)" using r by (simp add: raw_ok_def st1_def seeded(2))
      have "st = st1" if "seed = seed3 st" "extSecret st = None" using r that False by (simp add: raw_ok_def st1_def)
      then have i: "(if seed \<noteq> seed3 st \<or> extSecret st \<noteq> None
          then do { cs \<leftarrow> XXH3_initCustomSecret (customSecret st) seed; Some (st\<lparr>customSecret := cs\<rparr>) } else Some st) = Some st1"
        using r by (auto simp: raw_ok_def st1_def seeded(1))
      obtain st' where st': "XXH3_reset_internal (st1\<lparr>seed3 := seed\<rparr>) seed None 192 = Some st'" "extSecret st' = None" "customSecret st' = seeded seed"
          "seed3 st' = seed" "useSeed st'" "streams (seeded seed) (192 - 64) [] 0 st'"
        using reset_internal [OF r1, of 192 seed None] False by (auto simp: st1_def)
      have "XXH3_reset_internal st1 seed None 192 = Some st'" using st'(1) by (simp add: XXH3_reset_internal_def)
      then have "XXH3_64bits_reset_withSeed (Some st) seed = Some (XXH_OK, Some st')"
        unfolding XXH3_64bits_reset_withSeed_def option.case i using False by simp
      moreover have "running mode [] st'" using st' WithSeed False
        by (intro running_intro [OF r1]) (auto simp: st1_def)
      ultimately show ?thesis using WithSeed by auto
    qed
  next
    case (WithSecretandSeed secret n seed)
    then obtain st' where "XXH3_reset_internal st seed (Some secret) n = Some st'" "extSecret st' = Some secret" "customSecret st' = customSecret st"
        "seed3 st' = seed" "streams secret (n - 64) [] 0 st'"
      using reset_internal [OF r, of n seed "Some secret"] m by auto
    then show ?thesis using WithSecretandSeed m
      by (auto simp: XXH3_64bits_reset_withSecretandSeed_def streams_useSeed intro!: running_intro [OF r])
  qed
qed

lemma update_running:
  assumes "running mode xs st"
  shows "\<exists>st'. XXH3_64bits_update st (Some ys) (length ys) = Some (XXH_OK, st') \<and> running mode (xs @ ys) st'"
proof -
  obtain c where c: "mode_ok mode" "raw_ok st" "seed3 st = mode_seed mode" "useSeed st = mode_useSeed mode"
      "streams (fst (mode_secret mode)) (snd (mode_secret mode) - 64) xs c st"
    using assms by (auto simp: running_def)
  obtain st' c' where u: "XXH3_update st (Some ys) (length ys) = Some (XXH_OK, st')"
      "streams (fst (mode_secret mode)) (snd (mode_secret mode) - 64) (xs @ ys) c' st'"
      "frame (st\<lparr>totalLen := totalLen st', bufferedSize := bufferedSize st'\<rparr>) st'"
    using update_streams [OF mode_good [OF c(1)] c(5), of ys] by blast
  have "raw_ok st'" using u(2,3) c(2) by (auto simp: raw_ok_def frame_def streams_def follows_def cfg_def)
  then show ?thesis using u c by (auto simp: running_def XXH3_64bits_update_def frame_def)
qed

lemma session_inv: "xxh3_session s st \<Longrightarrow> raw_ok st \<and> (\<forall>mode xs. s = Some (mode, xs) \<longrightarrow> running mode xs st)"
proof (induction rule: xxh3_session.induct)
  case (reset s st mode st')
  then show ?case using reset_running [of st mode] by (auto simp: running_def)
next
  case (update mode xs st ys st')
  then show ?case using update_running [of mode xs st ys] by (auto simp: running_def)
qed (auto simp: raw_ok_def XXH3_INITSTATE_def XXH3_copyState_def)

section \<open>Digests\<close>

lemma streams_short:
  assumes "streams secret limit xs c st" "length xs \<le> 240"
  shows "xs = take (length xs) (buffer st)"
  using assms by (auto simp: streams_def)

lemma internal_short:
  assumes "len \<le> 240"
  shows "XXH3_64bits_internal p len seed secret n f = XXH3_64bits_internal p len seed secret n (\<lambda>_ _ _ _ _. None)"
    "XXH3_128bits_internal p len seed secret n g = XXH3_128bits_internal p len seed secret n (\<lambda>_ _ _ _ _. None)"
  using assms by (simp_all add: XXH3_64bits_internal_def XXH3_128bits_internal_def)

lemma totalLen_nat: "length xs < 2 ^ 64 \<Longrightarrow> unat (of_nat (length xs) :: u64) = length xs"
  by (simp add: unsigned_of_nat take_bit_nat_eq_self)

lemma totalLen_long: "length xs < 2 ^ 64 \<Longrightarrow> (240 :: u64) < of_nat (length xs) \<longleftrightarrow> 240 < length xs"
  using totalLen_nat [of xs] by (simp add: word_less_nat_alt)

lemma hashLong_long_acc:
  assumes "136 \<le> n" "n \<le> length secret" "64 < length xs"
  shows "XXH3_hashLong_64b_internal xs (length xs) secret n = XXH3_mergeAccs (long_acc secret (n - 64) xs) secret 11 (of_nat (length xs) * XXH_PRIME64_1)"
    "XXH3_hashLong_128b_internal xs (length xs) secret n = do {
       l \<leftarrow> XXH3_mergeAccs (long_acc secret (n - 64) xs) secret 11 (of_nat (length xs) * XXH_PRIME64_1);
       h \<leftarrow> XXH3_mergeAccs (long_acc secret (n - 64) xs) secret (n - 64 - 11) (NOT (of_nat (length xs) * XXH_PRIME64_2));
       Some \<lparr>low64 = l, high64 = h\<rparr> }"
  using hashLong_internal_loop [OF assms, of xs] assms
  by (simp_all add: XXH3_hashLong_64b_internal_def XXH3_hashLong_128b_internal_def assert_def)

lemma digest_running:
  assumes r: "running mode xs st" and n: "length xs < 2 ^ 64"
  shows "XXH3_64bits_digest st = (if length xs \<le> 240 then
      if mode_useSeed mode then XXH3_64bits_withSeed xs (length xs) (mode_seed mode)
      else XXH3_64bits_withSecret xs (length xs) (fst (mode_secret mode)) (snd (mode_secret mode))
      else XXH3_hashLong_64b_internal xs (length xs) (fst (mode_secret mode)) (snd (mode_secret mode)))"
    "XXH3_128bits_digest st = (if length xs \<le> 240 then
      if mode_seed mode \<noteq> 0 then XXH3_128bits_withSeed xs (length xs) (mode_seed mode)
      else XXH3_128bits_withSecret xs (length xs) (fst (mode_secret mode)) (snd (mode_secret mode))
      else XXH3_hashLong_128b_internal xs (length xs) (fst (mode_secret mode)) (snd (mode_secret mode)))"
proof -
  define secret size where "secret = fst (mode_secret mode)" and "size = snd (mode_secret mode)"
  obtain c where c: "mode_ok mode" "seed3 st = mode_seed mode" "useSeed st = mode_useSeed mode" "streams secret (size - 64) xs c st"
    using r by (auto simp: running_def secret_def size_def)
  have f: "XXH3_secret st = secret" "secretLimit st = size - 64" "totalLen st = of_nat (length xs)"
    using c(4) by (simp_all add: streams_def follows_def cfg_def)
  have s: "136 \<le> size" "size \<le> length secret" "good_secret secret (size - 64)"
    using mode_size [OF c(1)] mode_good [OF c(1)] by (simp_all add: secret_def size_def)
  note t = totalLen_nat [OF n] totalLen_long [OF n]
  have i: "XXH3_64bits_internal (buffer st) (length xs) sd sc m f = XXH3_64bits_internal xs (length xs) sd sc m f"
    "XXH3_128bits_internal (buffer st) (length xs) sd sc m g = XXH3_128bits_internal xs (length xs) sd sc m g"
    if "length xs \<le> 240" for sd sc m f g
    using internal_take [OF that, of "buffer st"] streams_short [OF c(4) that] by simp_all
  have long: "64 < length xs \<Longrightarrow> XXH3_digest_long st secret = Some (long_acc secret (size - 64) xs)" by (rule digest_long [OF s(3) c(4)])
  show "XXH3_64bits_digest st = (if length xs \<le> 240 then
      if mode_useSeed mode then XXH3_64bits_withSeed xs (length xs) (mode_seed mode)
      else XXH3_64bits_withSecret xs (length xs) (fst (mode_secret mode)) (snd (mode_secret mode))
      else XXH3_hashLong_64b_internal xs (length xs) (fst (mode_secret mode)) (snd (mode_secret mode)))"
    using s long i unfolding XXH3_64bits_digest_def f c(2,3) t secret_def [symmetric] size_def [symmetric]
    by (auto simp: hashLong_long_acc XXH3_64bits_withSeed_def XXH3_64bits_withSecret_def)
  show "XXH3_128bits_digest st = (if length xs \<le> 240 then
      if mode_seed mode \<noteq> 0 then XXH3_128bits_withSeed xs (length xs) (mode_seed mode)
      else XXH3_128bits_withSecret xs (length xs) (fst (mode_secret mode)) (snd (mode_secret mode))
      else XXH3_hashLong_128b_internal xs (length xs) (fst (mode_secret mode)) (snd (mode_secret mode)))"
    using s long i unfolding XXH3_128bits_digest_def f c(2,3) t secret_def [symmetric] size_def [symmetric]
    by (auto simp: hashLong_long_acc XXH3_128bits_withSeed_def XXH3_128bits_withSecret_def assert_def)
qed

text \<open>The one-shot functions in the same form; the 128-bit one differs for a zero seed with a secret.\<close>

lemma mode_hash:
  assumes "mode_ok mode"
  shows "mode_hash64 mode xs = (if length xs \<le> 240 then
      if mode_useSeed mode then XXH3_64bits_withSeed xs (length xs) (mode_seed mode)
      else XXH3_64bits_withSecret xs (length xs) (fst (mode_secret mode)) (snd (mode_secret mode))
      else XXH3_hashLong_64b_internal xs (length xs) (fst (mode_secret mode)) (snd (mode_secret mode)))"
    "mode_hash128 mode xs = (if length xs \<le> 240 then
      if mode_useSeed mode then XXH3_128bits_withSeed xs (length xs) (mode_seed mode)
      else XXH3_128bits_withSecret xs (length xs) (fst (mode_secret mode)) (snd (mode_secret mode))
      else XXH3_hashLong_128b_internal xs (length xs) (fst (mode_secret mode)) (snd (mode_secret mode)))"
proof -
  note short = internal_short [of "length xs" xs]
  note defs64 = XXH3_64bits_def XXH3_64bits_withSeed_def XXH3_64bits_withSecret_def XXH3_64bits_withSecretandSeed_def
    XXH3_hashLong_64b_default_def XXH3_hashLong_64b_withSecret_def XXH3_hashLong_64b_withSeed_def XXH3_hashLong_64b_withSeed_internal_def
  note defs128 = XXH3_128bits_def XXH3_128bits_withSeed_def XXH3_128bits_withSecret_def XXH3_128bits_withSecretandSeed_def
    XXH3_hashLong_128b_default_def XXH3_hashLong_128b_withSecret_def XXH3_hashLong_128b_withSeed_def XXH3_hashLong_128b_withSeed_internal_def
  have 64: "240 < length xs \<Longrightarrow> XXH3_64bits_internal xs (length xs) sd sc 192 f = f xs (length xs) sd sc 192"
    "240 < length xs \<Longrightarrow> 136 \<le> m \<Longrightarrow> XXH3_64bits_internal xs (length xs) sd sc m f = f xs (length xs) sd sc m" for sd sc m f
    by (simp_all add: XXH3_64bits_internal_def assert_def)
  have 128: "240 < length xs \<Longrightarrow> XXH3_128bits_internal xs (length xs) sd sc 192 g = g xs (length xs) sd sc 192"
    "240 < length xs \<Longrightarrow> 136 \<le> m \<Longrightarrow> XXH3_128bits_internal xs (length xs) sd sc m g = g xs (length xs) sd sc m" for sd sc m g
    by (simp_all add: XXH3_128bits_internal_def assert_def)
  show "mode_hash64 mode xs = (if length xs \<le> 240 then
      if mode_useSeed mode then XXH3_64bits_withSeed xs (length xs) (mode_seed mode)
      else XXH3_64bits_withSecret xs (length xs) (fst (mode_secret mode)) (snd (mode_secret mode))
      else XXH3_hashLong_64b_internal xs (length xs) (fst (mode_secret mode)) (snd (mode_secret mode)))"
    using assms by (cases mode; cases "length xs \<le> 240"; simp add: defs64 short(1) [where f = XXH3_hashLong_64b_default]
        short(1) [where f = XXH3_hashLong_64b_withSecret] short(1) [where f = XXH3_hashLong_64b_withSeed] 64 seeded)
  show "mode_hash128 mode xs = (if length xs \<le> 240 then
      if mode_useSeed mode then XXH3_128bits_withSeed xs (length xs) (mode_seed mode)
      else XXH3_128bits_withSecret xs (length xs) (fst (mode_secret mode)) (snd (mode_secret mode))
      else XXH3_hashLong_128b_internal xs (length xs) (fst (mode_secret mode)) (snd (mode_secret mode)))"
    using assms by (cases mode; cases "length xs \<le> 240"; simp add: defs128 short(2) [where g = XXH3_hashLong_128b_default]
        short(2) [where g = XXH3_hashLong_128b_withSecret] short(2) [where g = XXH3_hashLong_128b_withSeed] 128 seeded)
qed

lemma mode_hash_defined:
  assumes "mode_ok mode"
  shows "\<exists>h. mode_hash64 mode xs = Some h" "\<exists>h. mode_hash128 mode xs = Some h"
proof -
  define secret size where "secret = fst (mode_secret mode)" and "size = snd (mode_secret mode)"
  have s: "136 \<le> size" "size \<le> length secret" using mode_size [OF assms] by (simp_all add: secret_def size_def)
  show "\<exists>h. mode_hash64 mode xs = Some h"
    unfolding mode_hash [OF assms] secret_def [symmetric] size_def [symmetric] XXH3_64bits_withSeed_def XXH3_64bits_withSecret_def
    by (intro returns internal_defined hashLong_defined) (use s in simp_all)
  show "\<exists>h. mode_hash128 mode xs = Some h"
    unfolding mode_hash [OF assms] secret_def [symmetric] size_def [symmetric] XXH3_128bits_withSeed_def XXH3_128bits_withSecret_def
    by (intro returns internal_defined hashLong_defined) (use s in simp_all)
qed

section \<open>Properties\<close>

text \<open>A session can always be opened and continued.\<close>

lemma session_exists:
  assumes "mode_ok mode"
  shows "\<exists>st. xxh3_session (Some (mode, xs)) st"
proof -
  define st0 :: XXH3_state where "st0 = \<lparr>acc3 = [], customSecret = replicate 192 0, buffer = replicate 256 0, bufferedSize = 0, useSeed = False,
    nbStripesSoFar = 0, totalLen = 0, nbStripesPerBlock = 0, secretLimit = 0, seed3 = 0, extSecret = None\<rparr>"
  have 0: "xxh3_session None (XXH3_INITSTATE st0)" by (rule create) (simp_all add: st0_def)
  obtain st1 where 1: "xxh3_session (Some (mode, [])) st1"
    using reset_running [OF conjunct1 [OF session_inv [OF 0]] assms] reset [OF 0 assms] by blast
  obtain st2 where "XXH3_64bits_update st1 (Some xs) (length xs) = Some (XXH_OK, st2)"
    using update_running [of mode "[]" st1 xs] session_inv [OF 1] by auto
  from update [OF 1 this] show ?thesis by auto
qed

text \<open>C14. The 64-bit streaming interface computes the one-shot hash: after any sequence of resets, updates and copies on one state, in any of
  the four modes, with the secrets the documentation requires and fewer than 2^64 bytes since the last reset, \<^verbatim>\<open>XXH3_64bits_digest\<close>
  returns, and returns what the one-shot function of the mode returns on the concatenation of the chunks.\<close>

theorem xxh3_64_stream_eq_oneshot:
  assumes "xxh3_session (Some (mode, xs)) st" "length xs < 2 ^ 64"
  shows "\<exists>h. XXH3_64bits_digest st = Some h \<and> mode_hash64 mode xs = Some h"
proof -
  have r: "running mode xs st" using session_inv [OF assms(1)] by simp
  then have "mode_ok mode" by (simp add: running_def)
  then show ?thesis using digest_running(1) [OF r assms(2)] mode_hash(1) [of mode xs] mode_hash_defined(1) [of mode xs] by simp
qed

theorem xxh3_64_stream_eq_oneshot_witness:
  "\<exists>st. xxh3_session (Some (Plain, [97, 98, 99])) st \<and> length ([97, 98, 99] :: bytes) < 2 ^ 64 \<and> XXH3_64bits_digest st = Some 0x78AF5F94892F3950"
proof -
  obtain st where st: "xxh3_session (Some (Plain, [97, 98, 99])) st" using session_exists [of Plain "[97, 98, 99]"] by auto
  have "mode_hash64 Plain [97, 98, 99] = Some 0x78AF5F94892F3950" by code_simp
  then show ?thesis using xxh3_64_stream_eq_oneshot [OF st] st by auto
qed

text \<open>C15. The 128-bit streaming interface computes the one-shot hash under the same conditions, except for a secret with a zero seed on at most
  240 bytes.\<close>

theorem xxh3_128_stream_eq_oneshot:
  assumes "xxh3_session (Some (mode, xs)) st" "length xs < 2 ^ 64"
    and "(\<nexists>secret n. mode = WithSecretandSeed secret n 0) \<or> 240 < length xs"
  shows "\<exists>h. XXH3_128bits_digest st = Some h \<and> mode_hash128 mode xs = Some h"
proof -
  have r: "running mode xs st" using session_inv [OF assms(1)] by simp
  then have "mode_ok mode" by (simp add: running_def)
  moreover have "length xs \<le> 240 \<Longrightarrow> mode_useSeed mode \<longleftrightarrow> mode_seed mode \<noteq> 0" using assms(3) by (cases mode) auto
  ultimately show ?thesis using digest_running(2) [OF r assms(2)] mode_hash(2) [of mode xs] mode_hash_defined(2) [of mode xs] by auto
qed

theorem xxh3_128_stream_eq_oneshot_witness:
  "\<exists>st. xxh3_session (Some (WithSeed 0, [])) st \<and> XXH3_128bits_digest st = Some \<lparr>low64 = 0x6001C324468D497F, high64 = 0x99AA06D3014798D8\<rparr>"
proof -
  obtain st where st: "xxh3_session (Some (WithSeed 0, [])) st" using session_exists [of "WithSeed 0" "[]"] by auto
  have "mode_hash128 (WithSeed 0) [] = Some \<lparr>low64 = 0x6001C324468D497F, high64 = 0x99AA06D3014798D8\<rparr>" by code_simp
  then show ?thesis using xxh3_128_stream_eq_oneshot [OF st] st by auto
qed



text \<open>C18. The shape of the state in a session, and that it can always be continued: eight accumulators, a custom secret of 192 bytes, a buffer of
  256 bytes of which at most 256 are in use, a stripe counter below the number of stripes in a block, and a secret long enough for every block; the next
  update, of any bytes, returns with \<^verbatim>\<open>XXH_OK\<close>.\<close>

theorem xxh3_session_shape:
  assumes "xxh3_session (Some (mode, xs)) st"
  shows "length (acc3 st) = 8 \<and> length (customSecret st) = 192 \<and> length (buffer st) = 256 \<and> bufferedSize st \<le> 256 \<and>
    nbStripesSoFar st < nbStripesPerBlock st \<and> nbStripesPerBlock st = secretLimit st div 8 \<and> 72 \<le> secretLimit st \<and>
    secretLimit st + 64 \<le> length (XXH3_secret st) \<and> (\<exists>st'. XXH3_64bits_update st (Some ys) (length ys) = Some (XXH_OK, st'))"
proof -
  have r: "running mode xs st" using session_inv [OF assms] by simp
  then obtain c where c: "mode_ok mode" "raw_ok st" "streams (fst (mode_secret mode)) (snd (mode_secret mode) - 64) xs c st"
    by (auto simp: running_def)
  note g = mode_good [OF c(1)]
  have "64 * c \<le> length xs" "acc3 st = stripes_acc (fst (mode_secret mode)) (snd (mode_secret mode) - 64) xs c"
    using c(3) by (auto simp: streams_def follows_def)
  then have "length (acc3 st) = 8" using length_stripes_acc [OF g] by simp
  then show ?thesis using c g update_running [OF r, of ys] good_secretD(1) [OF g]
    by (auto simp: streams_def follows_def cfg_def raw_ok_def good_secret_def)
qed

theorem xxh3_session_shape_witness:
  "\<exists>st. xxh3_session (Some (WithSeed 7, [1, 2, 3])) st \<and> length (acc3 st) = 8 \<and> (\<exists>st'. XXH3_64bits_update st (Some [4]) 1 = Some (XXH_OK, st'))"
proof -
  obtain st where st: "xxh3_session (Some (WithSeed 7, [1, 2, 3])) st" using session_exists [of "WithSeed 7" "[1, 2, 3]"] by auto
  show ?thesis using xxh3_session_shape [OF st, of "[4]"] st by auto
qed

end
