(* ===== verification/Xxh_Utilities.thy ===== *)
theory Xxh_Utilities
  imports Xxh3_Sessions
begin

text \<open>
  The generators of secrets and the aligned allocator of \<^verbatim>\<open>cpp-util/xxhash.h\<close>, the agreement of the build variants of the hash functions,
  and the canonical representations.
\<close>

unbundle bit_operations_syntax

section \<open>Secrets\<close>

definition XXH3_combine16 :: "bool \<Rightarrow> bytes \<Rightarrow> nat \<Rightarrow> XXH128_hash_t \<Rightarrow> bytes option" where
  "XXH3_combine16 le dst d h128 = do {
     l \<leftarrow> XXH_readLE64 dst d;
     dst \<leftarrow> XXH_writeLE64 le dst d (l XOR low64 h128);
     h \<leftarrow> XXH_readLE64 dst (d + 8);
     XXH_writeLE64 le dst (d + 8) (h XOR high64 h128) }"

text \<open>The loop that repeats the custom seed; with an empty seed it would not end.\<close>

partial_function (option) XXH3_fill_secret :: "bytes \<Rightarrow> nat \<Rightarrow> bytes \<Rightarrow> nat \<Rightarrow> nat \<Rightarrow> bytes option" where
  "XXH3_fill_secret secretBuffer secretSize customSeed customSeedSize pos =
     (if pos < secretSize then do {
        let toCopy = (if secretSize - pos > customSeedSize then customSeedSize else secretSize - pos);
        secretBuffer \<leftarrow> XXH_memcpy secretBuffer pos customSeed 0 toCopy;
        XXH3_fill_secret secretBuffer secretSize customSeed customSeedSize (pos + toCopy) }
      else Some secretBuffer)"

declare XXH3_fill_secret.simps [code]

definition XXH3_scramble_secret :: "bool \<Rightarrow> bytes \<Rightarrow> nat \<Rightarrow> bytes \<Rightarrow> nat \<Rightarrow> bytes option" where
  "XXH3_scramble_secret le secretBuffer secretSize customSeed customSeedSize = do {
     h \<leftarrow> XXH128 customSeed customSeedSize 0;
     let scrambler = XXH128_canonicalFromHash le h;
     secretBuffer \<leftarrow> for_each (\<lambda>secretBuffer n. do {
         h128 \<leftarrow> XXH128 scrambler 16 (of_nat n);
         XXH3_combine16 le secretBuffer (n * 16) h128 }) [0..<secretSize div 16] secretBuffer;
     h128 \<leftarrow> XXH128_hashFromCanonical scrambler;
     XXH3_combine16 le secretBuffer (secretSize - 16) h128 }"

definition XXH3_generateSecret :: "bool \<Rightarrow> bytes option \<Rightarrow> nat \<Rightarrow> bytes option \<Rightarrow> nat \<Rightarrow> (XXH_errorcode \<times> bytes option) option" where
  "XXH3_generateSecret le secretBuffer secretSize customSeed customSeedSize =
     (case secretBuffer of None \<Rightarrow> Some (XXH_ERROR, None)
      | Some buf \<Rightarrow>
          if secretSize < 136 then Some (XXH_ERROR, Some buf)
          else let (customSeed, customSeedSize) = (if customSeedSize = 0 then (Some XXH3_kSecret, 192) else (customSeed, customSeedSize)) in
            case customSeed of None \<Rightarrow> Some (XXH_ERROR, Some buf)
            | Some sd \<Rightarrow> do {
                buf \<leftarrow> XXH3_fill_secret buf secretSize sd customSeedSize 0;
                buf \<leftarrow> XXH3_scramble_secret le buf secretSize sd customSeedSize;
                Some (XXH_OK, Some buf) })"

definition XXH3_generateSecret_fromSeed :: "bytes \<Rightarrow> u64 \<Rightarrow> bytes option" where
  "XXH3_generateSecret_fromSeed secretBuffer seed = do {
     secret \<leftarrow> XXH3_initCustomSecret (replicate 192 0) seed;
     XXH_memcpy secretBuffer 0 secret 0 192 }"

section \<open>Aligned allocation\<close>

text \<open>The allocator is a parameter: a function from the requested size to the address of the block, if any.\<close>

definition XXH_alignedMalloc ::
  "(u64 \<Rightarrow> u64 option) \<Rightarrow> (u64 \<Rightarrow> u8) \<Rightarrow> u64 \<Rightarrow> u64 \<Rightarrow> (u64 option \<times> (u64 \<Rightarrow> u8)) option" where
  "XXH_alignedMalloc XXH_malloc mem s align = do {
     assert (align \<le> 128 \<and> 8 \<le> align);
     assert (align AND (align - 1) = 0);
     assert (s \<noteq> 0 \<and> s < s + align);
     (case XXH_malloc (s + align) of None \<Rightarrow> Some (None, mem)
      | Some base \<Rightarrow> do {
          let offset = align - (base AND (align - 1));
          let ptr = base + offset;
          assert (ptr mod align = 0);
          Some (Some ptr, mem(ptr - 1 := ucast offset)) }) }"

text \<open>The address that \<^verbatim>\<open>XXH_alignedFree\<close> hands to \<^verbatim>\<open>XXH_free\<close>.\<close>

definition XXH_alignedFree :: "(u64 \<Rightarrow> u8) \<Rightarrow> u64 option \<Rightarrow> u64 option" where
  "XXH_alignedFree mem p = (case p of None \<Rightarrow> None | Some ptr \<Rightarrow> Some (ptr - ucast (mem (ptr - 1))))"

section \<open>Generated secrets\<close>

fun cyc :: "bytes \<Rightarrow> nat \<Rightarrow> bytes" where
  "cyc sd n = (if sd = [] \<or> n = 0 then [] else take n sd @ cyc sd (n - length sd))"

declare cyc.simps [simp del]

lemma length_cyc: "sd \<noteq> [] \<Longrightarrow> length (cyc sd n) = n"
proof (induction sd n rule: cyc.induct)
  case (1 sd n)
  then show ?case by (subst cyc.simps) auto
qed

lemma fill_secret:
  assumes "0 < k" "k \<le> length sd"
  shows "length pre + n = size' \<Longrightarrow> length mid = n \<Longrightarrow>
    XXH3_fill_secret (pre @ mid @ post) size' sd k (length pre) = Some (pre @ cyc (take k sd) n @ post)"
proof (induction n arbitrary: pre mid rule: less_induct)
  case (less n)
  show ?case
  proof (cases "n = 0")
    case True
    then show ?thesis using less.prems by (subst XXH3_fill_secret.simps, subst cyc.simps) simp
  next
    case False
    define t where "t = (if n > k then k else n)"
    have t: "0 < t" "t \<le> n" "t \<le> k" using False assms by (auto simp: t_def)
    have "XXH_memcpy (pre @ mid @ post) (length pre) sd 0 t = Some ((pre @ take t sd) @ drop t mid @ post)"
      using less.prems t assms by (simp add: memcpy_ok)
    moreover have "XXH3_fill_secret ((pre @ take t sd) @ drop t mid @ post) size' sd k (length (pre @ take t sd)) =
        Some ((pre @ take t sd) @ cyc (take k sd) (n - t) @ post)"
      using less.prems t assms False by (intro less.IH) auto
    moreover have "cyc (take k sd) n = take t sd @ cyc (take k sd) (n - t)"
      using False assms t by (subst cyc.simps) (auto simp: t_def min_def, (subst cyc.simps, simp)+)
    moreover have "XXH3_fill_secret buf size' sd k (length pre) =
        do { buf \<leftarrow> XXH_memcpy buf (length pre) sd 0 t; XXH3_fill_secret buf size' sd k (length pre + t) }" for buf
      using less.prems False by (subst XXH3_fill_secret.simps) (auto simp: t_def)
    moreover have "length (pre @ take t sd) = length pre + t" using t assms by simp
    ultimately show ?thesis by simp
  qed
qed

lemma combine16_append:
  assumes "d + 16 \<le> length ws"
  shows "\<exists>ws'. length ws' = length ws \<and> (\<forall>le post. XXH3_combine16 le (ws @ post) d h = Some (ws' @ post))"
proof -
  obtain a b where a: "XXH_readLE64 ws d = Some a" and b: "XXH_readLE64 ws (d + 8) = Some b"
    using assms by (simp add: readLE64_window)
  define w1 where "w1 = take d ws @ native64 True (a XOR low64 h) @ drop (d + 8) ws"
  define w2 where "w2 = take (d + 8) w1 @ native64 True (b XOR high64 h) @ drop (d + 16) w1"
  have l: "length w1 = length ws" "length w2 = length ws" using assms by (simp_all add: w1_def w2_def le_word_native)
  have "XXH_readLE64 (ws @ post) d = Some a" for post using a assms by (simp add: readLE64_window)
  moreover have "XXH_readLE64 (w1 @ post) (d + 8) = Some b" for post
    using b assms l by (simp add: readLE64_window) (simp add: w1_def le_word_native)
  moreover have "XXH_writeLE64 le (ws @ post) d (a XOR low64 h) = Some (w1 @ post)" for le post
    using assms by (simp add: writeLE64_window memcpy_ok le_word_native w1_def)
  moreover have "XXH_writeLE64 le (w1 @ post) (d + 8) (b XOR high64 h) = Some (w2 @ post)" for le post
    using assms l by (simp add: writeLE64_window memcpy_ok le_word_native w2_def add.commute)
  ultimately show ?thesis using l by (intro exI [of _ w2]) (simp add: XXH3_combine16_def)
qed

lemma canonical_endian: "XXH128_canonicalFromHash le h = rev (native64 True (high64 h)) @ rev (native64 True (low64 h))"
  by (cases le) (simp_all add: XXH128_canonicalFromHash_def native_swap le_word_native)

lemma canonical128_roundtrip: "XXH128_hashFromCanonical (XXH128_canonicalFromHash le h) = Some h"
  by (simp add: canonical_endian XXH128_hashFromCanonical_def readBE64_window le_word_native)

lemma scramble_secret:
  assumes sd: "k \<le> length sd" and ws: "16 \<le> length ws"
  shows "\<exists>ws'. length ws' = length ws \<and> (\<forall>le post. XXH3_scramble_secret le (ws @ post) (length ws) sd k = Some (ws' @ post))"
proof -
  have h: "\<exists>h. XXH128 p n seed = Some h" if "n \<le> length p" for p n seed
    using that mode_hash_defined(2) [of "WithSeed seed" "take n p"] internal_defined(2,4) [of n p 192 XXH3_kSecret] hashLong_defined(2)
    by (cases "n \<le> 240") (auto simp: XXH128_def XXH3_128bits_withSeed_def XXH3_hashLong_128b_withSeed_def XXH3_hashLong_128b_withSeed_internal_def seeded)
  obtain h0 where h0: "XXH128 sd k 0 = Some h0" using h [OF sd] by blast
  define sc where "sc = rev (native64 True (high64 h0)) @ rev (native64 True (low64 h0))"
  have lsc: "length sc = 16" by (simp add: sc_def le_word_native)
  have "n \<le> length ws div 16 \<Longrightarrow> \<exists>ws'. length ws' = length ws \<and> (\<forall>le post. for_each (\<lambda>b n. do {
         h128 \<leftarrow> XXH128 sc 16 (of_nat n);
         XXH3_combine16 le b (n * 16) h128 }) [0..<n] (ws @ post) = Some (ws' @ post))" for n
  proof (induction n)
    case (Suc n)
    then obtain w1 where w1: "length w1 = length ws" "\<And>le post. for_each (\<lambda>b n. do {
         h128 \<leftarrow> XXH128 sc 16 (of_nat n);
         XXH3_combine16 le b (n * 16) h128 }) [0..<n] (ws @ post) = Some (w1 @ post)" by auto
    obtain h1 where h1: "XXH128 sc 16 (of_nat n) = Some h1" using h [of 16 sc "of_nat n"] lsc by auto
    have "Suc n * 16 \<le> length ws div 16 * 16" using Suc.prems by (rule mult_le_mono1)
    then have "n * 16 + 16 \<le> length w1" using w1(1) div_times_less_eq_dividend [of "length ws" 16] by simp
    from combine16_append [OF this, of h1] show ?case unfolding for_each_upt w1(2) using w1(1) h1 by simp
  qed auto
  from this [of "length ws div 16"] obtain w1 where w1: "length w1 = length ws" "\<And>le post. for_each (\<lambda>b n. do {
         h128 \<leftarrow> XXH128 sc 16 (of_nat n);
         XXH3_combine16 le b (n * 16) h128 }) [0..<length ws div 16] (ws @ post) = Some (w1 @ post)" by auto
  have "XXH128_hashFromCanonical sc = Some h0" using canonical128_roundtrip [of True h0] by (simp add: canonical_endian sc_def)
  moreover obtain w2 where "length w2 = length ws" "\<And>le post. XXH3_combine16 le (w1 @ post) (length ws - 16) h0 = Some (w2 @ post)"
    using combine16_append [of "length ws - 16" w1 h0] w1(1) ws by auto
  ultimately show ?thesis using w1(2) h0 unfolding XXH3_scramble_secret_def canonical_endian
    by (intro exI [of _ w2]) (simp add: sc_def [symmetric])
qed

section \<open>Canonical forms, alignment and build variants\<close>

lemma cmp_number:
  fixes a b :: XXH128_hash_t
  shows "XXH128_cmp a b = sgn ((uint (high64 a) * 2 ^ 64 + uint (low64 a)) - (uint (high64 b) * 2 ^ 64 + uint (low64 b)))"
proof -
  have l: "0 \<le> uint w" "uint w < 2 ^ 64" for w :: u64 using uint_lt2p [of w] by simp_all
  have h: "(0 :: int) < x * 2 ^ 64 + u - (y * 2 ^ 64 + v)" if "y < x" "0 \<le> u" "v < 2 ^ 64" for x y u v :: int
    using that by simp
  show ?thesis
  proof (cases "high64 a" "high64 b" rule: linorder_cases)
    case less
    then show ?thesis using h [of "uint (high64 a)" "uint (high64 b)" "uint (low64 b)" "uint (low64 a)"] l
      by (simp add: XXH128_cmp_def word_less_def)
  next
    case equal
    then show ?thesis by (cases "low64 a" "low64 b" rule: linorder_cases) (simp_all add: XXH128_cmp_def word_less_def)
  next
    case greater
    then show ?thesis using h [of "uint (high64 b)" "uint (high64 a)" "uint (low64 a)" "uint (low64 b)"] l
      by (simp add: XXH128_cmp_def word_less_def)
  qed
qed

lemma isEqual: "XXH128_isEqual a b \<longleftrightarrow> a = b"
proof
  assume "XXH128_isEqual a b"
  then have "native64 True (low64 a) = native64 True (low64 b)" "native64 True (high64 a) = native64 True (high64 b)"
    by (simp_all add: XXH128_isEqual_def le_word_native)
  then have "low64 a = low64 b" "high64 a = high64 b" by (metis le_word_native(2))+
  then show "a = b" by simp
qed (simp add: XXH128_isEqual_def)

lemma canonical_roundtrip:
  "XXH32_hashFromCanonical (XXH32_canonicalFromHash le h32) = Some h32"
  "XXH64_hashFromCanonical (XXH64_canonicalFromHash le h64) = Some h64"
  by (cases le; simp add: XXH32_hashFromCanonical_def XXH32_canonicalFromHash_def XXH64_hashFromCanonical_def XXH64_canonicalFromHash_def
      native_swap readBE32_window readBE64_window le_word_native)+

lemma add_hi: "XXH3_add_hi is32 x = x + XXH_mult32to64 (ucast (ucast x :: u32)) (ucast (XXH_PRIME32_2 - 1))"
proof -
  define A :: u64 where "A = ucast (ucast x :: u32)"
  have m: "(0xFFFFFFFF00000000 :: u64) = NOT (mask 32)" by (simp add: mask_eq_exp_minus_1)
  have A: "x AND mask 32 = A" unfolding A_def by (rule bit_word_eqI) (auto simp: bit_simps)
  have c: "ucast (ucast (ucast XXH_PRIME32_2 :: u64) :: u32) = (0x85EBCA77 :: u64)"
    "ucast (ucast (ucast (XXH_PRIME32_2 - 1) :: u64) :: u32) = (0x85EBCA76 :: u64)"
    by (simp_all add: XXH_PRIME32_2_def)
  have "ucast (ucast A :: u32) = A" unfolding A_def by (rule bit_word_eqI) (auto simp: bit_simps)
  moreover have "(x AND NOT (mask 32)) + (x AND mask 32) = x"
    by (subst disjunctive_add_eq_or; rule bit_word_eqI) (auto simp: bit_simps)
  then have "x AND NOT (mask 32) = x - A" unfolding A by (simp add: eq_diff_eq)
  ultimately show ?thesis unfolding XXH3_add_hi_def XXH_mult32to64_def A_def [symmetric] c m by (simp add: algebra_simps)
qed

lemma rounds_17to128:
  assumes "16 < len" "len \<le> 128"
  obtains (a) "96 < len" "(len - 1) div 32 = Suc (Suc (Suc 0))" | (b) "64 < len" "\<not> 96 < len" "(len - 1) div 32 = Suc (Suc 0)"
    | (c) "32 < len" "\<not> 64 < len" "(len - 1) div 32 = Suc 0" | (d) "\<not> 32 < len" "(len - 1) div 32 = 0"
  using assms by (cases "96 < len"; cases "64 < len"; cases "32 < len"; force)

lemma mix_down_unfold:
  "XXH3_mix_down input len secret seed 0 acc = do {
     m \<leftarrow> XXH3_mix16B input 0 secret 0 seed;
     n \<leftarrow> XXH3_mix16B input (len - 16) secret 16 seed;
     Some (acc + m + n) }"
  "XXH3_mix_down input len secret seed (Suc i) acc = do {
     m \<leftarrow> XXH3_mix16B input (16 * Suc i) secret (32 * Suc i) seed;
     n \<leftarrow> XXH3_mix16B input (len - 16 * (Suc i + 1)) secret (32 * Suc i + 16) seed;
     XXH3_mix_down input len secret seed i (acc + m + n) }"
  "XXH128_mix_down input len secret seed 0 h = XXH128_mix32B h input 0 (len - 16) secret 0 seed"
  "XXH128_mix_down input len secret seed (Suc i) h = do {
     h \<leftarrow> XXH128_mix32B h input (16 * Suc i) (len - 16 * (Suc i + 1)) secret (32 * Suc i) seed;
     XXH128_mix_down input len secret seed i h }"
  by (subst XXH3_mix_down.simps XXH128_mix_down.simps, simp add: Let_def)+

lemma mix_down_64:
  assumes "16 < len" "len \<le> 128" "len \<le> length p" "136 \<le> secretSize" "secretSize \<le> length secret"
  shows "XXH3_len_17to128_64b_small p len secret secretSize seed = XXH3_len_17to128_64b p len secret secretSize seed"
proof -
  define v where "v = (\<lambda>i s. the (XXH3_mix16B p i secret s seed))"
  have m: "XXH3_mix16B p i secret s seed = Some (v i s)" if "i + 16 \<le> len" "s + 16 \<le> 136" for i s
    using mix16B_defined [of i p s secret seed] that assms by (auto simp: v_def)
  show ?thesis using assms(1,2,4) unfolding XXH3_len_17to128_64b_small_def XXH3_len_17to128_64b_def Let_def
    by (cases rule: rounds_17to128 [OF assms(1,2)]) (simp_all only: mix_down_unfold, simp_all add: m assert_def ac_simps)
qed

lemma mix_down_128:
  assumes "16 < len" "len \<le> 128"
  shows "XXH3_len_17to128_128b_small p len secret secretSize seed = XXH3_len_17to128_128b p len secret secretSize seed"
  using assms unfolding XXH3_len_17to128_128b_small_def XXH3_len_17to128_128b_def Let_def
  by (cases rule: rounds_17to128 [OF assms]) (simp_all only: mix_down_unfold, simp_all add: assert_def)

lemma aligned:
  fixes base align :: u64
  assumes "align = 2 ^ k" "3 \<le> k" "k \<le> 7" "unat base + unat align < 2 ^ 64"
  defines "offset \<equiv> align - (base AND (align - 1))"
  shows "(base + offset) mod align = 0" "unat (base + offset) = unat base + unat offset" "0 < unat offset" "unat offset \<le> unat align"
    "ucast (ucast offset :: u8) = offset"
proof -
  have "(2 ^ k :: nat) < 2 ^ 64" "(2 :: nat) ^ k \<le> 2 ^ 7" using power_increasing [OF assms(3), of "2 :: nat"] by simp_all
  moreover have "align = of_nat (2 ^ k)" using assms(1) by simp
  ultimately have a: "unat align = 2 ^ k" "(2 :: nat) ^ k \<le> 128" using assms(3) by (simp_all only: unsigned_of_nat) (simp_all add: take_bit_nat_eq_self)
  define m where "m = unat base mod 2 ^ k"
  have "base AND (align - 1) = take_bit k base" by (simp add: assms(1) take_bit_eq_mask mask_eq_exp_minus_1)
  then have b: "unat (base AND (align - 1)) = m" by (simp only: unsigned_take_bit_eq) (simp add: m_def take_bit_eq_mod)
  have m: "m < 2 ^ k" by (simp add: m_def)
  then have "base AND (align - 1) \<le> align" by (simp add: word_le_nat_alt b a)
  then have o: "unat offset = 2 ^ k - m" by (simp add: offset_def unat_sub b a)
  then show "0 < unat offset" "unat offset \<le> unat align" using m a by simp_all
  then show u: "unat (base + offset) = unat base + unat offset" using assms(4) by (intro unat_add_lem [THEN iffD1]) simp
  have "unat base = 2 ^ k * (unat base div 2 ^ k) + m" by (simp add: m_def)
  then have "unat base + unat offset = 2 ^ k * (unat base div 2 ^ k) + 2 ^ k" using m o by simp
  then have "unat (base + offset) mod 2 ^ k = 0" unfolding u by simp
  then have "unat ((base + offset) mod align) = 0" by (simp add: unat_mod_distrib a)
  then show "(base + offset) mod align = 0" by (simp add: unat_eq_zero)
  have "unat (ucast (ucast offset :: u8) :: u64) = unat offset" using o a m
    by (simp add: unsigned_ucast_eq unsigned_take_bit_eq take_bit_nat_eq_self)
  then show "ucast (ucast offset :: u8) = offset" by (rule unsigned_word_eqI)
qed

section \<open>Properties\<close>



text \<open>C34. Round trips: the canonical representations of the three hash types give back the hash on machines of either byte order;
  equality and comparison of 128-bit hashes are those of the numbers; and \<^verbatim>\<open>XXH_alignedFree\<close> releases exactly the block that
  \<^verbatim>\<open>XXH_alignedMalloc\<close> obtained, whose pointer is aligned and leaves room for the request within the block, one byte of which, below
  the pointer, is the only one written.\<close>

theorem xxh_roundtrips:
  assumes "align = 2 ^ k" "3 \<le> k" "k \<le> 7" "s \<noteq> 0" "XXH_malloc (s + align) = Some base" "unat base + unat s + unat align < 2 ^ 64"
  shows "XXH32_hashFromCanonical (XXH32_canonicalFromHash le h32) = Some h32 \<and>
    XXH64_hashFromCanonical (XXH64_canonicalFromHash le h64) = Some h64 \<and>
    XXH128_hashFromCanonical (XXH128_canonicalFromHash le a) = Some a \<and>
    (XXH128_isEqual a b \<longleftrightarrow> a = b) \<and>
    XXH128_cmp a b = sgn ((uint (high64 a) * 2 ^ 64 + uint (low64 a)) - (uint (high64 b) * 2 ^ 64 + uint (low64 b))) \<and>
    (\<exists>ptr mem'. XXH_alignedMalloc XXH_malloc mem s align = Some (Some ptr, mem') \<and> ptr mod align = 0 \<and> unat base < unat ptr \<and>
      unat ptr + unat s \<le> unat base + unat (s + align) \<and> XXH_alignedFree mem' (Some ptr) = Some base \<and> (\<forall>x. x \<noteq> ptr - 1 \<longrightarrow> mem' x = mem x))"
proof (intro conjI canonical_roundtrip canonical128_roundtrip isEqual cmp_number)
  define offset where "offset = align - (base AND (align - 1))"
  have "unat base + unat align < 2 ^ 64" using assms(6) by simp
  note o = aligned [OF assms(1-3) this, folded offset_def]
  have sa: "unat (s + align) = unat s + unat align" using assms(6) by (intro unat_add_lem [THEN iffD1]) simp
  have "k = 3 \<or> k = 4 \<or> k = 5 \<or> k = 6 \<or> k = 7" using assms(2,3) by auto
  then have "align \<le> 128 \<and> 8 \<le> align" "align AND (align - 1) = 0" "0 < unat align" unfolding assms(1) by (elim disjE; simp)+
  moreover have "s < s + align" using sa calculation by (simp add: word_less_nat_alt)
  ultimately have "XXH_alignedMalloc XXH_malloc mem s align = Some (Some (base + offset), mem(base + offset - 1 := ucast offset))"
    using assms(4,5) o(1) by (simp add: XXH_alignedMalloc_def Let_def assert_def offset_def)
  then show "\<exists>ptr mem'. XXH_alignedMalloc XXH_malloc mem s align = Some (Some ptr, mem') \<and> ptr mod align = 0 \<and> unat base < unat ptr \<and>
      unat ptr + unat s \<le> unat base + unat (s + align) \<and> XXH_alignedFree mem' (Some ptr) = Some base \<and> (\<forall>x. x \<noteq> ptr - 1 \<longrightarrow> mem' x = mem x)"
    using o sa by (intro exI conjI) (auto simp: XXH_alignedFree_def)
qed

theorem xxh_roundtrips_witness:
  "XXH64_hashFromCanonical (XXH64_canonicalFromHash True 5) = Some 5 \<and>
   (\<exists>ptr mem'. XXH_alignedMalloc (\<lambda>_. Some 1000) (\<lambda>_. 0) 576 64 = Some (Some ptr, mem') \<and> ptr mod 64 = 0 \<and>
     XXH_alignedFree mem' (Some ptr) = Some 1000)"
proof -
  have p: "(64 :: u64) = 2 ^ 6" "(3 :: nat) \<le> 6" "(6 :: nat) \<le> 7" "(576 :: u64) \<noteq> 0" "(\<lambda>_. Some 1000) (576 + 64 :: u64) = Some (1000 :: u64)"
    "unat (1000 :: u64) + unat (576 :: u64) + unat (64 :: u64) < 2 ^ 64" by simp_all
  show ?thesis using xxh_roundtrips [OF p, of True 0 5 "\<lparr>low64 = 0, high64 = 0\<rparr>" "\<lparr>low64 = 0, high64 = 0\<rparr>" "\<lambda>_. 0"]
    by (elim conjE exE) (intro conjI exI; assumption)
qed

text \<open>C25. The build variants agree: the portable product of four 32-bit products is the product by a 128-bit type; reading native integers and
  swapping them gives, on machines of either byte order, what reading byte by byte gives; the jump table of the 32-bit finalization, the loops of
  the small builds for 17 to 128 bytes and the addition for 32-bit targets compute what the default code computes.\<close>

theorem xxh_variants_agree:
  assumes "16 < len" "len \<le> 128" "len \<le> length p" "136 \<le> secretSize" "secretSize \<le> length secret"
  shows "XXH_mult64to128_portable x y = XXH_mult64to128 x y \<and>
    XXH_readLE32_native le p i = XXH_readLE32 p i \<and> XXH_readBE32_native le p i = XXH_readBE32 p i \<and>
    XXH_readLE64_native le p i = XXH_readLE64 p i \<and> XXH_readBE64_native le p i = XXH_readBE64 p i \<and>
    XXH32_finalize_jmp h p i n = XXH32_finalize h p i n \<and>
    XXH3_len_17to128_64b_small p len secret secretSize seed = XXH3_len_17to128_64b p len secret secretSize seed \<and>
    XXH3_len_17to128_128b_small p len secret secretSize seed = XXH3_len_17to128_128b p len secret secretSize seed \<and>
    XXH3_len_9to16_128b True p m secret seed = XXH3_len_9to16_128b False p m secret seed"
proof -
  have "XXH3_add_hi True = XXH3_add_hi False" by (rule ext) (simp only: add_hi)
  then show ?thesis using mix_down_64 [OF assms] mix_down_128 [OF assms(1,2)]
    by (simp add: mult64to128_portable native_reads finalize_jmp XXH3_len_9to16_128b_def)
qed

theorem xxh_variants_agree_witness:
  "XXH3_len_17to128_64b_small (replicate 17 1) 17 XXH3_kSecret 192 0 = XXH3_len_17to128_64b (replicate 17 1) 17 XXH3_kSecret 192 0 \<and>
   XXH_mult64to128_portable 3 5 = XXH_mult64to128 3 5"
  using xxh_variants_agree [of 17 "replicate 17 1" 192 XXH3_kSecret 3 5 True 0 0 0 0] by simp

end
