(* ===== verification/Spec2Isabelle.thy ===== *)
theory Spec2Isabelle
  imports Coding Bloom_Filters Rte_Ring Mpmc_Ring Spsc_Ring Lru_Properties Lf_Bitsets Xxh_Utilities
begin

text \<open>
  A verification development for the C and C++ utility library \<^verbatim>\<open>util\<close>.
\<close>

end
